(* ===== verification/Prelude.thy ===== *)
theory Prelude
  imports Main "HOL-Library.Word" "HOL-Library.Signed_Division" "HOL-Library.Multiset"
begin

text \<open>
  Shared vocabulary of the development: Go's fixed-width integers as 64-bit words, the parts of
  Go's standard library that several components use (truncated division, saturating time
  differences, decimal printing, the FNV-1a hash), and the generic lemmas on words, lists and
  association lists that the component theories rely on.
\<close>

unbundle bit_operations_syntax

section \<open>Go's integers\<close>

type_synonym i64 = "64 word"
type_synonym u64 = "64 word"
type_synonym u8 = "8 word"

named_theorems int64 \<open>reading signed 64-bit words as integers\<close>

definition fits :: "int \<Rightarrow> bool" where
  "fits x \<longleftrightarrow> - (2 ^ 63) \<le> x \<and> x < 2 ^ 63"

lemma fits_sint [simp]: "fits (sint (x :: i64))"
  using sint_ge [of x] sint_lt [of x] by (simp add: fits_def)

lemma sint_range: "- (2 ^ 63) \<le> sint (x :: i64)" "sint x < 2 ^ 63"
  using fits_sint [of x] by (simp_all add: fits_def)

lemma signed_take_bit_fits: "fits x \<Longrightarrow> signed_take_bit 63 x = x"
  by (rule signed_take_bit_int_eq_self) (simp_all add: fits_def)

lemma sint_of_int_fits: "fits x \<Longrightarrow> sint (word_of_int x :: i64) = x"
  by (simp add: sint_sbintrunc' signed_take_bit_fits)

lemma sint_add_fits: "fits (sint a + sint b) \<Longrightarrow> sint (a + b :: i64) = sint a + sint b"
  by (simp add: sint_word_add signed_take_bit_fits)

lemma sint_diff_fits: "fits (sint a - sint b) \<Longrightarrow> sint (a - b :: i64) = sint a - sint b"
  by (simp add: sint_word_diff signed_take_bit_fits)

lemma sint_minus_fits: "fits (- sint a) \<Longrightarrow> sint (- a :: i64) = - sint a"
  by (simp add: sint_word_minus signed_take_bit_fits)

lemma sint_eq_0_iff [simp]: "sint (a :: i64) = 0 \<longleftrightarrow> a = 0"
proof
  assume "sint a = 0"
  then have "(word_of_int (sint a) :: i64) = word_of_int 0" by (rule arg_cong)
  then show "a = 0" by simp
qed simp

lemma slt_iff [int64]: "(a :: i64) <s b \<longleftrightarrow> sint a < sint b"
  by (rule word_sless_alt)

lemma sle_iff [int64]: "(a :: i64) \<le>s b \<longleftrightarrow> sint a \<le> sint b"
  by (rule word_sle_eq)

text \<open>Small non-negative words read the same signed and unsigned.\<close>

lemma sint_unat: "unat (x :: i64) < 2 ^ 63 \<Longrightarrow> sint x = int (unat x)"
proof -
  assume "unat x < 2 ^ 63"
  then have "int (unat x) < int (2 ^ 63)"
    by (simp only: of_nat_less_iff)
  then have "fits (uint x)"
    by (simp add: fits_def) (rule order_trans [OF _ uint_ge_0], simp)
  then show ?thesis
    using sint_of_int_fits [of "uint x"] by simp
qed

lemma sint_pos_unat: "0 \<le> sint (x :: i64) \<Longrightarrow> sint x = int (unat x)"
proof -
  assume nn: "0 \<le> sint x"
  have "uint x = sint x mod 2 ^ 64"
    by (simp add: uint_sint take_bit_eq_mod)
  also have "\<dots> = sint x"
    using nn sint_range [of x] by simp
  finally show ?thesis by simp
qed

lemma unat_of_nat_small: "n < 2 ^ 64 \<Longrightarrow> unat (word_of_nat n :: i64) = n"
  by (simp add: unat_of_nat take_bit_eq_mod)

section \<open>Standard library\<close>

text \<open>Go's integer division truncates towards zero; on the one overflowing quotient it wraps.\<close>

definition go_div :: "i64 \<Rightarrow> i64 \<Rightarrow> i64" where
  "go_div a b = word_of_int (sint a sdiv sint b)"

definition go_mod :: "i64 \<Rightarrow> i64 \<Rightarrow> i64" where
  "go_mod a b = word_of_int (sint a smod sint b)"

lemma sint_go_div:
  assumes "0 \<le> sint a" and "0 < sint b"
  shows "sint (go_div a b) = sint a div sint b"
proof -
  have "sint a div sint b \<le> sint a" "0 \<le> sint a div sint b"
    using assms zdiv_mono2 [of "sint a" 1 "sint b"] by (simp_all add: pos_imp_zdiv_nonneg_iff)
  then have "fits (sint a div sint b)"
    using sint_range [of a] by (simp add: fits_def)
  moreover have "sint a sdiv sint b = sint a div sint b"
    using assms by (cases "sint a = 0") (simp_all add: signed_divide_int_def sgn_if)
  ultimately show ?thesis
    by (simp add: go_div_def sint_of_int_fits)
qed

lemma unat_go_div:
  assumes "0 \<le> sint a" and "0 < sint b"
  shows "unat (go_div a b) = unat a div unat b"
proof -
  have "0 \<le> sint (go_div a b)"
    using assms by (simp add: sint_go_div pos_imp_zdiv_nonneg_iff)
  then have "int (unat (go_div a b)) = int (unat a) div int (unat b)"
    using assms sint_go_div [OF assms] sint_pos_unat [of a] sint_pos_unat [of b]
      sint_pos_unat [of "go_div a b"] by simp
  then show ?thesis
    by (simp only: zdiv_int [symmetric] of_nat_eq_iff)
qed

text \<open>
  \<open>t.Sub(u)\<close> of two wall-clock times given in Unix nanoseconds: the difference as a
  \<open>time.Duration\<close>, which saturates at the ends of the 64-bit range instead of wrapping.
\<close>

definition time_Sub :: "i64 \<Rightarrow> i64 \<Rightarrow> i64" where
  "time_Sub t u = word_of_int (max (- (2 ^ 63)) (min (2 ^ 63 - 1) (sint t - sint u)))"

lemma sint_time_Sub: "sint (time_Sub t u) = max (- (2 ^ 63)) (min (2 ^ 63 - 1) (sint t - sint u))"
  unfolding time_Sub_def by (rule sint_of_int_fits) (simp add: fits_def max_def min_def)

text \<open>\<open>hash/fnv.New64a\<close>: fold the bytes with XOR and multiplication by the FNV prime.\<close>

definition fnv_offset64 :: u64 where
  "fnv_offset64 = 14695981039346656037"

definition fnv_prime64 :: u64 where
  "fnv_prime64 = 1099511628211"

fun fnv1a_write :: "u64 \<Rightarrow> u8 list \<Rightarrow> u64" where
  "fnv1a_write h [] = h"
| "fnv1a_write h (b # bs) = fnv1a_write ((h XOR ucast b) * fnv_prime64) bs"

definition string_bytes :: "string \<Rightarrow> u8 list" where
  "string_bytes s = map of_char s"

definition fnv64a :: "u8 list \<Rightarrow> u64" where
  "fnv64a bs = fnv1a_write fnv_offset64 bs"

text \<open>\<open>fmt.Sprintf\<close> with the verb for decimal integers.\<close>

fun nat_digits :: "nat \<Rightarrow> string" where
  "nat_digits n =
     (if n < 10 then [char_of (48 + n)] else nat_digits (n div 10) @ [char_of (48 + n mod 10)])"

declare nat_digits.simps [simp del]

definition sprintf_d :: "i64 \<Rightarrow> string" where
  "sprintf_d x = (if sint x < 0 then CHR ''-'' # nat_digits (nat (- sint x)) else nat_digits (nat (sint x)))"

text \<open>\<open>url.Values.Get\<close>: the first value stored under a key, or the empty string.\<close>

fun query_get :: "(string \<times> string) list \<Rightarrow> string \<Rightarrow> string" where
  "query_get [] k = ''''"
| "query_get ((k', v) # q) k = (if k' = k then v else query_get q k)"

section \<open>Lists\<close>

lemma sum_list_update_add:
  fixes xs :: "'a :: ab_group_add list"
  shows "i < length xs \<Longrightarrow> sum_list (xs[i := xs ! i + d]) = sum_list xs + d"
  by (induction xs arbitrary: i) (auto simp: nth_Cons ac_simps split: nat.splits)

lemma sum_list_replicate_zero [simp]: "sum_list (replicate n (0 :: 'a :: monoid_add)) = 0"
  by (induction n) simp_all

lemma map_nth_upt_length: "n = length xs \<Longrightarrow> map (\<lambda>i. xs ! i) [0..<n] = xs"
  by (simp add: map_nth)

lemma foldl_plus_sum_list: "foldl (+) (a :: 'a :: monoid_add) xs = a + sum_list xs"
  by (induction xs arbitrary: a) (simp_all add: add.assoc)

section \<open>Association lists\<close>

text \<open>
  A \<open>sync.Map\<close> is an association list with distinct keys; the order of the list stands for the
  (unspecified) order in which \<open>Range\<close> visits it.
\<close>

fun al_update :: "'k \<Rightarrow> 'v \<Rightarrow> ('k \<times> 'v) list \<Rightarrow> ('k \<times> 'v) list" where
  "al_update k v [] = [(k, v)]"
| "al_update k v ((k', v') # ps) = (if k' = k then (k, v) # ps else (k', v') # al_update k v ps)"

definition al_delete :: "'k \<Rightarrow> ('k \<times> 'v) list \<Rightarrow> ('k \<times> 'v) list" where
  "al_delete k ps = filter (\<lambda>p. fst p \<noteq> k) ps"

lemma map_of_al_update [simp]: "map_of (al_update k v ps) = (map_of ps)(k \<mapsto> v)"
  by (induction ps) auto

lemma map_of_al_delete [simp]: "map_of (al_delete k ps) = (map_of ps)(k := None)"
  by (induction ps) (auto simp: al_delete_def)

lemma keys_al_update: "fst ` set (al_update k v ps) = insert k (fst ` set ps)"
  by (induction k v ps rule: al_update.induct) auto

lemma distinct_al_update: "distinct (map fst ps) \<Longrightarrow> distinct (map fst (al_update k v ps))"
proof (induction ps)
  case (Cons p ps)
  then show ?case
    using keys_al_update [of k v ps] by (cases p) (auto simp flip: set_map)
qed simp

lemma distinct_al_delete: "distinct (map fst ps) \<Longrightarrow> distinct (map fst (al_delete k ps))"
  by (induction ps) (auto simp: al_delete_def)

lemma al_delete_absent: "k \<notin> set (map fst ps) \<Longrightarrow> al_delete k ps = ps"
  by (induction ps) (auto simp: al_delete_def)

lemma sum_point_update:
  fixes f :: "'a \<Rightarrow> 'b :: ab_group_add"
  assumes "finite A" and "i \<in> A" and "\<And>j. j \<in> A \<Longrightarrow> j \<noteq> i \<Longrightarrow> f' j = f j" and "f' i = f i + d"
  shows "sum f' A = sum f A + d"
proof -
  have "sum f' (A - {i}) = sum f (A - {i})" using assms(3) by (intro sum.cong) auto
  then show ?thesis using assms(4) by (simp add: sum.remove [OF assms(1,2)] ac_simps)
qed

lemma count_list_update:
  "i < length xs \<Longrightarrow> length (filter P (xs[i := x])) + (if P (xs ! i) then 1 else 0) =
     length (filter P xs) + (if P x then 1 else 0)"
proof (induction xs arbitrary: i)
  case (Cons y xs)
  then show ?case using Cons.IH [of "i - 1"] by (cases i) auto
qed simp

lemma sum_list_all_zero: "\<forall>x \<in> set xs. f x = (0 :: 'b :: monoid_add) \<Longrightarrow> (\<Sum>x\<leftarrow>xs. f x) = 0"
  by (induction xs) simp_all

end
