(* ===== verification/VSA.thy ===== *)
theory VSA
  imports Prelude
begin

text \<open>
  The Vector-Scalar Accumulator (vsa.go): the data structure with all its fields, its
  constructor and every operation. The mutex \<open>tryMu\<close> has no field of its own, because this
  theory treats one call at a time. \<open>None\<close> is a Go run-time panic (an index out of
  range or a division by zero), so that the absence of panics is a theorem and not a convention.
  Go's \<open>int\<close> is the 64-bit integer of the supported platforms.
\<close>

section \<open>Helpers\<close>

definition abs_i64 :: "i64 \<Rightarrow> i64" where
  "abs_i64 n = (if n <s 0 then - n else n)"

definition min_int :: "i64 \<Rightarrow> i64 \<Rightarrow> i64" where
  "min_int a b = (if a <s b then a else b)"

definition max_int :: "i64 \<Rightarrow> i64 \<Rightarrow> i64" where
  "max_int a b = (if b <s a then a else b)"

definition intSize :: nat where
  "intSize = push_bit (unat (drop_bit 63 (NOT (0 :: u64)))) 32"

definition nextPow2 :: "i64 \<Rightarrow> i64" where
  "nextPow2 x =
     (if x \<le>s 1 then 1
      else let x = x - 1;
               x = x OR signed_drop_bit 1 x;
               x = x OR signed_drop_bit 2 x;
               x = x OR signed_drop_bit 4 x;
               x = x OR signed_drop_bit 8 x;
               x = x OR signed_drop_bit 16 x;
               x = (if intSize = 64 then x OR signed_drop_bit 32 x else x)
           in x + 1)"

section \<open>State\<close>

record options =
  Stripes :: i64
  CheapUpdateChooser :: bool
  PerPUpdateChooser :: bool
  UseCachedGate :: bool
  CacheInterval :: i64
  CacheSlack :: i64
  GroupCount :: i64
  GroupSlack :: i64
  FastPathGuard :: i64
  HierarchicalGroups :: i64

text \<open>
  \<open>prngPool\<close> holds the generator states that a \<open>sync.Pool\<close> keeps. \<open>stopCh\<close> is
  \<open>None\<close> for the nil channel and \<open>Some closed\<close> for one that was made; \<open>closeOnce\<close> says
  whether the once-guard has fired.
\<close>

record vsa =
  scalar :: i64
  committedOffset :: i64
  stripes :: "i64 list"
  mask_v :: i64
  chooser :: u64
  rr :: u64
  approxNet :: i64
  cachedNet :: i64
  cachedAt :: i64
  cheapUpdateChooser :: bool
  perPUpdateChooser :: bool
  useCachedGate :: bool
  cacheInterval :: i64
  cacheSlack :: i64
  fastPathGuard :: i64
  groupCount :: i64
  groupStride :: i64
  groupRR :: u64
  hGroups :: i64
  hStride :: i64
  hGroupSum :: "i64 list"
  prngPool :: "u64 list"
  stopCh :: "bool option"
  closeOnce :: bool

definition default_options :: options where
  "default_options =
     \<lparr>Stripes = 0, CheapUpdateChooser = False, PerPUpdateChooser = False, UseCachedGate = False,
      CacheInterval = 0, CacheSlack = 0, GroupCount = 0, GroupSlack = 0, FastPathGuard = 0,
      HierarchicalGroups = 0\<rparr>"

definition zero_vsa :: vsa where
  "zero_vsa =
     \<lparr>scalar = 0, committedOffset = 0, stripes = [], mask_v = 0, chooser = 0, rr = 0,
      approxNet = 0, cachedNet = 0, cachedAt = 0, cheapUpdateChooser = False,
      perPUpdateChooser = False, useCachedGate = False, cacheInterval = 0, cacheSlack = 0,
      fastPathGuard = 0, groupCount = 0, groupStride = 0, groupRR = 0, hGroups = 0, hStride = 0,
      hGroupSum = [], prngPool = [], stopCh = None, closeOnce = False\<rparr>"

section \<open>Construction\<close>

definition stripeCount :: "i64 \<Rightarrow> options \<Rightarrow> i64" where
  "stripeCount gomaxprocs opts =
     (if 0 <s Stripes opts then nextPow2 (max_int 8 (min_int 64 (Stripes opts)))
      else nextPow2 (max_int 8 (min_int 64 gomaxprocs)))"

definition allocVSA :: "i64 \<Rightarrow> i64 \<Rightarrow> options \<Rightarrow> vsa" where
  "allocVSA s initialScalar opts =
     zero_vsa\<lparr>stripes := replicate (unat s) 0, mask_v := s - 1, scalar := initialScalar,
       cheapUpdateChooser := CheapUpdateChooser opts, perPUpdateChooser := PerPUpdateChooser opts,
       useCachedGate := UseCachedGate opts\<rparr>"

definition setCachedGate :: "options \<Rightarrow> vsa \<Rightarrow> vsa" where
  "setCachedGate opts v =
     (if useCachedGate v then
        v\<lparr>cacheInterval := (if CacheInterval opts \<le>s 0 then 100000 else CacheInterval opts),
          cacheSlack := CacheSlack opts\<rparr>
      else v)"

definition setGroups :: "i64 \<Rightarrow> options \<Rightarrow> vsa \<Rightarrow> vsa" where
  "setGroups s opts v =
     (if 1 <s GroupCount opts then
        let g = (if s <s GroupCount opts then s else GroupCount opts)
        in v\<lparr>groupCount := max_int 1 g, groupStride := max_int 1 (go_div (s + g - 1) g),
             cacheSlack := cacheSlack v + GroupSlack opts\<rparr>
      else v)"

definition setFastPath :: "options \<Rightarrow> vsa \<Rightarrow> vsa" where
  "setFastPath opts v = (if 0 <s FastPathGuard opts then v\<lparr>fastPathGuard := FastPathGuard opts\<rparr> else v)"

definition setHierarchy :: "i64 \<Rightarrow> options \<Rightarrow> vsa \<Rightarrow> vsa" where
  "setHierarchy s opts v =
     (if 1 <s HierarchicalGroups opts then
        let h = (if s <s HierarchicalGroups opts then s else HierarchicalGroups opts)
        in v\<lparr>hGroups := h, hStride := max_int 1 (go_div (s + h - 1) h),
             hGroupSum := replicate (unat h) 0\<rparr>
      else v)"

definition NewWithOptions :: "i64 \<Rightarrow> i64 \<Rightarrow> options \<Rightarrow> vsa" where
  "NewWithOptions gomaxprocs initialScalar opts =
     (let s = stripeCount gomaxprocs opts;
          v = setHierarchy s opts (setFastPath opts (setGroups s opts
                (setCachedGate opts (allocVSA s initialScalar opts))))
      in if useCachedGate v then v\<lparr>stopCh := Some False\<rparr> else v)"

definition New :: "i64 \<Rightarrow> i64 \<Rightarrow> vsa" where
  "New gomaxprocs initialScalar = NewWithOptions gomaxprocs initialScalar default_options"

section \<open>Reading\<close>

definition currentVector :: "vsa \<Rightarrow> i64" where
  "currentVector v =
     (if 0 <s hGroups v then foldl (+) 0 (map (\<lambda>i. hGroupSum v ! i) [0..<unat (hGroups v)])
      else foldl (+) 0 (stripes v)) - committedOffset v"

definition Available :: "vsa \<Rightarrow> i64" where
  "Available v = scalar v - abs_i64 (currentVector v)"

definition State :: "vsa \<Rightarrow> i64 \<times> i64" where
  "State v = (scalar v, currentVector v)"

definition CheckCommit :: "i64 \<Rightarrow> vsa \<Rightarrow> bool \<times> i64" where
  "CheckCommit threshold v =
     (let net = currentVector v in if threshold \<le>s abs_i64 net then (True, net) else (False, 0))"

section \<open>Writing\<close>

text \<open>
  The update that \<open>Update\<close>, \<open>TryConsume\<close> and \<open>TryRefund\<close> share: add to one stripe, to the
  group sum of that stripe when hierarchical aggregation is on, and to the approximate net.
\<close>

definition addStripe :: "i64 \<Rightarrow> i64 \<Rightarrow> vsa \<Rightarrow> vsa option" where
  "addStripe idx d v =
     (if unat idx < length (stripes v) then
        let v1 = v\<lparr>stripes := (stripes v)[unat idx := stripes v ! unat idx + d]\<rparr>
        in if 0 <s hGroups v1 then
             if hStride v1 = 0 then None
             else let g = go_div idx (hStride v1)
                  in if unat g < length (hGroupSum v1) then
                       Some (v1\<lparr>hGroupSum := (hGroupSum v1)[unat g := hGroupSum v1 ! unat g + d],
                                approxNet := approxNet v1 + d\<rparr>)
                     else None
           else Some (v1\<lparr>approxNet := approxNet v1 + d\<rparr>)
      else None)"

text \<open>
  What a stripe choice reads from the run-time system: the pooled generator that
  \<open>sync.Pool.Get\<close> hands out (by position; an invalid position is an empty pool), the clock and
  the identifier of the current processor.
\<close>

record chooser_env =
  poolPick :: nat
  nowNano :: u64
  procPin :: i64

definition rng64_next :: "u64 \<Rightarrow> u64 \<Rightarrow> u64 \<times> u64" where
  "rng64_next now x0 =
     (let x = (if x0 = 0 then now else x0);
          x = x XOR drop_bit 12 x;
          x = x XOR push_bit 25 x;
          x = x XOR drop_bit 27 x
      in (x * 2685821657736338717, x))"

definition chooseIdxForUpdate :: "chooser_env \<Rightarrow> vsa \<Rightarrow> i64 \<times> vsa" where
  "chooseIdxForUpdate e v =
     (if cheapUpdateChooser v then
        let (r, rest) = (if poolPick e < length (prngPool v)
                         then (prngPool v ! poolPick e,
                               take (poolPick e) (prngPool v) @ drop (Suc (poolPick e)) (prngPool v))
                         else (nowNano e, prngPool v));
            (x, r') = rng64_next (nowNano e) r
        in (x AND mask_v v, v\<lparr>prngPool := r' # rest\<rparr>)
      else if perPUpdateChooser v then (procPin e AND mask_v v, v)
      else let c = chooser v + 1 in (c AND mask_v v, v\<lparr>chooser := c\<rparr>))"

definition Update :: "chooser_env \<Rightarrow> i64 \<Rightarrow> vsa \<Rightarrow> vsa option" where
  "Update e value v = (let (idx, v1) = chooseIdxForUpdate e v in addStripe idx value v1)"

definition Commit :: "i64 \<Rightarrow> vsa \<Rightarrow> vsa" where
  "Commit committedVector v =
     (if committedVector = 0 then v
      else let net = currentVector v
           in if net = 0 then v
              else let mag = abs_i64 committedVector;
                       mag = (if abs_i64 net <s mag then abs_i64 net else mag);
                       delta = (if 0 <s net then mag else - mag)
                   in v\<lparr>scalar := scalar v + - abs_i64 delta,
                        committedOffset := committedOffset v + delta,
                        approxNet := approxNet v + - delta\<rparr>)"

text \<open>The grouped scan: the estimate of the net from one group of stripes.\<close>

definition groupScan :: "vsa \<Rightarrow> i64 option" where
  "groupScan v =
     (let len = word_of_nat (length (stripes v)) :: i64;
          start = go_mod (groupRR v * groupStride v) len;
          end = start + groupStride v;
          end = (if len <s end then len else end)
      in if len = 0 \<or> end - start = 0 \<or> (start <s end \<and> start <s 0) then None
         else let partial = foldl (+) 0 (map (\<lambda>i. stripes v ! i) [unat start..<unat end]);
                  est = go_div (partial * len) (end - start)
              in Some (est - committedOffset v))"

definition tryConsumeGate :: "i64 \<Rightarrow> vsa \<Rightarrow> (bool \<times> vsa) option" where
  "tryConsumeGate n v =
     (if useCachedGate v then
        Some (n \<le>s scalar v - abs_i64 (cachedNet v) - cacheSlack v, v)
      else if 1 <s groupCount v then
        case groupScan v of
          None \<Rightarrow> None
        | Some netEst \<Rightarrow>
            let v1 = v\<lparr>groupRR := groupRR v + 1\<rparr>
            in if scalar v1 - abs_i64 netEst - cacheSlack v1 <s n
               then Some (n \<le>s scalar v1 - abs_i64 (currentVector v1), v1)
               else Some (True, v1)
      else Some (n \<le>s scalar v - abs_i64 (currentVector v), v))"

definition fastPath :: "i64 \<Rightarrow> vsa \<Rightarrow> bool" where
  "fastPath n v \<longleftrightarrow>
     0 <s fastPathGuard v \<and> n + fastPathGuard v \<le>s scalar v - abs_i64 (approxNet v)"

definition TryConsume :: "i64 \<Rightarrow> vsa \<Rightarrow> (bool \<times> vsa) option" where
  "TryConsume n v =
     (if n \<le>s 0 then Some (False, v)
      else if fastPath n v then
        let c = chooser v + 1
        in map_option (Pair True) (addStripe (c AND mask_v v) n (v\<lparr>chooser := c\<rparr>))
      else case tryConsumeGate n v of
             None \<Rightarrow> None
           | Some (admit, v1) \<Rightarrow>
               if admit
               then map_option (Pair True) (addStripe (rr v1 AND mask_v v1) n (v1\<lparr>rr := rr v1 + 1\<rparr>))
               else Some (False, v1))"

definition TryRefund :: "i64 \<Rightarrow> vsa \<Rightarrow> (bool \<times> vsa) option" where
  "TryRefund n v =
     (if n \<le>s 0 then Some (False, v)
      else let net = currentVector v
           in if net \<le>s 0 then Some (False, v)
              else let n = (if net <s n then net else n)
                   in map_option (Pair True) (addStripe (rr v AND mask_v v) (- n) (v\<lparr>rr := rr v + 1\<rparr>)))"

section \<open>Background aggregator and shutdown\<close>

text \<open>One round of the aggregator's loop on a ticker event; the loop ends once \<open>stopCh\<close> is closed.\<close>

definition runAggregator_tick :: "i64 \<Rightarrow> vsa \<Rightarrow> vsa" where
  "runAggregator_tick now v =
     (let sum = (if 0 <s hGroups v
                 then foldl (+) 0 (map (\<lambda>i. hGroupSum v ! i) [0..<unat (hGroups v)])
                 else foldl (+) 0 (stripes v));
          net = sum - committedOffset v
      in v\<lparr>cachedNet := net, cachedAt := now\<rparr>)"

definition Close :: "vsa \<Rightarrow> vsa" where
  "Close v =
     (if closeOnce v then v
      else v\<lparr>closeOnce := True, stopCh := map_option (\<lambda>_. True) (stopCh v)\<rparr>)"

end
