(* ===== verification/VSA_Props.thy ===== *)
theory VSA_Props
  imports VSA
begin

text \<open>
  Correctness of the VSA, one call at a time: the structural invariant \<open>wf_vsa\<close> and that the
  constructor establishes and every operation keeps it, the functional behaviour of each
  operation, and the refinement of an integer specification.
\<close>

section \<open>Absolute values and the power-of-two rounding\<close>

lemma sint_abs_i64 [int64]: "sint x \<noteq> - (2 ^ 63) \<Longrightarrow> sint (abs_i64 x) = \<bar>sint x\<bar>"
  using sint_range [of x]
  by (auto simp: abs_i64_def slt_iff fits_def intro!: sint_minus_fits)

lemma abs_i64_nonneg: "0 \<le> sint x \<Longrightarrow> abs_i64 x = x"
  by (simp add: abs_i64_def slt_iff)

lemma abs_i64_0 [simp]: "abs_i64 0 = 0"
  by (simp add: abs_i64_def)

lemma sint_min_int [int64]: "sint (min_int a b) = min (sint a) (sint b)"
  by (simp add: min_int_def slt_iff)

lemma sint_max_int [int64]: "sint (max_int a b) = max (sint a) (sint b)"
  by (simp add: max_int_def slt_iff)

lemma intSize_64 [simp]: "intSize = 64"
  by (simp add: intSize_def)

text \<open>
  The bits of a word below position \<open>n\<close> whose top \<open>m\<close> positions are all set: one
  smearing step doubles \<open>m\<close>.
\<close>

definition top_set :: "nat \<Rightarrow> nat \<Rightarrow> i64 \<Rightarrow> bool" where
  "top_set n m x \<longleftrightarrow> (\<forall>i>n. \<not> bit x i) \<and> (\<forall>i\<le>n. n < i + m \<longrightarrow> bit x i)"

lemma smear_step:
  assumes "top_set n m x" and "n < 63" and "m \<le> j" and "j \<le> m"
  shows "top_set n (2 * m) (x OR signed_drop_bit j x)"
proof -
  have "j = m" using assms by simp
  have "\<not> bit x 63" using assms by (simp add: top_set_def)
  then have sh: "bit (signed_drop_bit m x) i \<longleftrightarrow> bit x (m + i)" for i
    using assms by (auto simp: bit_signed_drop_bit_iff top_set_def)
  have "bit x i \<or> bit x (m + i)" if "i \<le> n" "n < i + 2 * m" for i
    using assms(1) that by (cases "m + i \<le> n") (auto simp: top_set_def)
  then show ?thesis
    using assms by (auto simp: top_set_def bit_or_iff sh \<open>j = m\<close>)
qed

lemma top_set_mask: "top_set n m x \<Longrightarrow> n < m \<Longrightarrow> n < 63 \<Longrightarrow> x + 1 = 2 ^ Suc n"
proof -
  assume "top_set n m x" "n < m" "n < 63"
  then have "x = mask (Suc n)"
    by (intro bit_word_eqI) (auto simp: top_set_def bit_mask_iff less_Suc_eq_le not_less [symmetric])
  then show ?thesis by (simp add: mask_eq_decr_exp)
qed

lemma top_set_init: "2 ^ n \<le> unat x \<Longrightarrow> unat x < 2 ^ Suc n \<Longrightarrow> top_set n 1 x"
proof -
  assume lo: "2 ^ n \<le> unat x" and hi: "unat x < 2 ^ Suc n"
  have "unat x div 2 ^ n = 1"
    using lo hi by (simp add: div_nat_eqI)
  then have "bit (unat x) n"
    by (simp add: bit_iff_odd)
  moreover have "\<not> bit (unat x) i" if "n < i" for i
  proof -
    have "(2 :: nat) ^ Suc n \<le> 2 ^ i" using that by (intro power_increasing) simp_all
    then have "unat x div 2 ^ i = 0" using hi by simp
    then show ?thesis by (simp add: bit_iff_odd)
  qed
  ultimately show ?thesis
    by (auto simp: top_set_def bit_unsigned_iff less_Suc_eq_le dest: le_antisym)
qed

lemma nextPow2_eq:
  assumes "2 ^ n < sint x" and "sint x \<le> 2 ^ Suc n" and "n < 62"
  shows "nextPow2 x = 2 ^ Suc n"
proof -
  have le62: "(2 :: int) ^ Suc n \<le> 2 ^ 62"
    using assms by (intro power_increasing) simp_all
  have "(1 :: int) \<le> 2 ^ n" by simp
  with assms have gt1: "1 < sint x" by linarith
  then have s1: "sint (x - 1) = sint x - 1"
    using le62 assms by (subst sint_diff_fits) (simp_all add: fits_def)
  then have "int (unat (x - 1)) = sint x - 1"
    using gt1 sint_pos_unat [of "x - 1"] by simp
  then have "int (2 ^ n) \<le> int (unat (x - 1))" "int (unat (x - 1)) < int (2 ^ Suc n)"
    using assms by simp_all
  then have "top_set n 1 (x - 1)"
    by (intro top_set_init) (simp_all only: of_nat_le_iff of_nat_less_iff)
  then have "top_set n 64 (let x = x - 1;
               x = x OR signed_drop_bit 1 x; x = x OR signed_drop_bit 2 x;
               x = x OR signed_drop_bit 4 x; x = x OR signed_drop_bit 8 x;
               x = x OR signed_drop_bit 16 x in x OR signed_drop_bit 32 x)"
    using assms(3) smear_step [of n 1 _ 1] smear_step [of n 2 _ 2] smear_step [of n 4 _ 4]
      smear_step [of n 8 _ 8] smear_step [of n 16 _ 16] smear_step [of n 32 _ 32]
    by (simp add: Let_def)
  from top_set_mask [OF this] show ?thesis
    using assms(3) gt1 by (simp add: nextPow2_def sle_iff Let_def)
qed


lemma nextPow2_1: "sint x \<le> 1 \<Longrightarrow> nextPow2 x = 1"
  by (simp add: nextPow2_def sle_iff)

lemma pow2_bracket: "1 < (z :: int) \<Longrightarrow> \<exists>n. 2 ^ n < z \<and> z \<le> 2 ^ Suc n"
proof -
  assume "1 < z"
  have "int (nat z) < int (2 ^ nat z)" by (simp only: of_nat_less_iff less_exp)
  then have ub: "z < 2 ^ nat z" using \<open>1 < z\<close> by simp
  let ?P = "\<lambda>n. z \<le> 2 ^ n"
  define k where "k = (LEAST n. ?P n)"
  have k: "?P k" unfolding k_def by (rule LeastI [of ?P "nat z"]) (use ub in simp)
  then have "k \<noteq> 0" using \<open>1 < z\<close> by (cases k) simp_all
  then obtain n where n: "k = Suc n" by (cases k) simp_all
  then have "\<not> ?P n" using not_less_Least [of n ?P] by (simp add: k_def)
  with k n show ?thesis by (auto simp: not_le)
qed

lemma stripeCount_cases: "stripeCount gomaxprocs opts \<in> {8, 16, 32, 64}"
proof -
  define x where "x = max_int 8 (min_int 64 (if 0 <s Stripes opts then Stripes opts else gomaxprocs))"
  have x: "8 \<le> sint x" "sint x \<le> 64"
    by (simp_all add: x_def int64)
  have "nextPow2 x \<in> {8, 16, 32, 64}"
    using x nextPow2_eq [of 2 x] nextPow2_eq [of 3 x] nextPow2_eq [of 4 x] nextPow2_eq [of 5 x]
    by (cases "sint x \<le> 8"; cases "sint x \<le> 16"; cases "sint x \<le> 32") simp_all
  then show ?thesis by (simp add: stripeCount_def x_def split: if_splits)
qed

section \<open>The structural invariant\<close>

definition wf_hier :: "vsa \<Rightarrow> bool" where
  "wf_hier v \<longleftrightarrow>
     (0 <s hGroups v \<longrightarrow>
        length (hGroupSum v) = unat (hGroups v) \<and> 0 < sint (hStride v)
        \<and> length (stripes v) \<le> unat (hGroups v) * unat (hStride v)
        \<and> sum_list (hGroupSum v) = sum_list (stripes v))"

definition wf_groups :: "vsa \<Rightarrow> bool" where
  "wf_groups v \<longleftrightarrow> (1 <s groupCount v \<longrightarrow> 0 < sint (groupStride v) \<and> sint (groupStride v) \<le> 64)"

definition wf_vsa :: "vsa \<Rightarrow> bool" where
  "wf_vsa v \<longleftrightarrow>
     length (stripes v) \<in> {8, 16, 32, 64} \<and> mask_v v = word_of_nat (length (stripes v)) - 1
     \<and> wf_hier v \<and> wf_groups v \<and> approxNet v = sum_list (stripes v) - committedOffset v"

lemmas wf_defs = wf_vsa_def wf_hier_def wf_groups_def

lemma wf_length: "wf_vsa v \<Longrightarrow> length (stripes v) \<le> 64"
  by (auto simp: wf_vsa_def)

text \<open>A masked index is always a valid stripe index.\<close>

lemma masked_index:
  assumes "wf_vsa v"
  shows "unat (x AND mask_v v) < length (stripes v)"
proof -
  have "unat (x AND mask_v v) \<le> unat (mask_v v)"
    using word_and_le1 [of x "mask_v v"] by (simp add: word_le_nat_alt)
  also have "unat (mask_v v) < length (stripes v)"
    using assms by (auto simp: wf_vsa_def)
  finally show ?thesis .
qed

text \<open>The hierarchical sum is the flat sum.\<close>

lemma currentVector_flat: "wf_vsa v \<Longrightarrow> currentVector v = sum_list (stripes v) - committedOffset v"
  by (simp add: currentVector_def foldl_plus_sum_list wf_defs map_nth_upt_length)

lemma approxNet_exact: "wf_vsa v \<Longrightarrow> approxNet v = currentVector v"
  by (simp add: currentVector_flat wf_vsa_def)

lemma ceil_div_mult: "0 < h \<Longrightarrow> s \<le> h * ((s + h - 1) div (h :: int))"
proof -
  assume "0 < h"
  then have "(s + h - 1) mod h \<le> h - 1" by (simp add: pos_mod_bound zle_diff1_eq)
  then show ?thesis
    using mult_div_mod_eq [of h "s + h - 1"] by linarith
qed

text \<open>The stride that the constructor computes for \<open>g\<close> groups covers all \<open>s\<close> stripes.\<close>

lemma stride_covers:
  assumes "s \<in> {8, 16, 32, 64 :: i64}" and "1 < sint g" and "sint g \<le> sint s"
  shows "0 < sint (max_int 1 (go_div (s + g - 1) g))"
    and "sint (max_int 1 (go_div (s + g - 1) g)) \<le> 64"
    and "unat s \<le> unat g * unat (max_int 1 (go_div (s + g - 1) g))"
proof -
  have s: "8 \<le> sint s" "sint s \<le> 64" using assms(1) by auto
  have sg: "sint (s + g - 1) = sint s + sint g - 1"
    using s assms by (simp add: sint_diff_fits sint_add_fits fits_def)
  have d: "sint (go_div (s + g - 1) g) = (sint s + sint g - 1) div sint g"
    using s assms by (subst sint_go_div) (simp_all add: sg)
  have cov: "sint s \<le> sint g * ((sint s + sint g - 1) div sint g)"
    using assms by (intro ceil_div_mult) simp
  have q: "(sint s + sint g - 1) div sint g \<le> 64"
  proof -
    have "(sint s + sint g - 1) div sint g \<le> (63 * sint g + sint g) div sint g"
      using s assms by (intro zdiv_mono1) simp_all
    also have "\<dots> = (64 * sint g) div sint g" by simp
    also have "\<dots> = 64" using assms(2) by (subst nonzero_mult_div_cancel_right) auto
    finally show ?thesis .
  qed
  define m where "m = max_int 1 (go_div (s + g - 1) g)"
  have m: "sint m = max 1 ((sint s + sint g - 1) div sint g)"
    by (simp add: m_def int64 d)
  have "sint s \<le> sint g * sint m"
    unfolding m by (rule order_trans [OF cov mult_left_mono]) (use assms(2) in simp_all)
  then have "int (unat s) \<le> int (unat g) * int (unat m)"
    using s assms m sint_pos_unat [of s] sint_pos_unat [of g] sint_pos_unat [of m] by simp
  then show "unat s \<le> unat g * unat (max_int 1 (go_div (s + g - 1) g))"
    unfolding m_def [symmetric] by (metis of_nat_le_iff of_nat_mult)
  show "0 < sint (max_int 1 (go_div (s + g - 1) g))" "sint (max_int 1 (go_div (s + g - 1) g)) \<le> 64"
    using q by (simp_all add: m_def [symmetric] m)
qed


section \<open>The constructor\<close>

lemma unat_stripe_counts: "s \<in> {8, 16, 32, 64 :: i64} \<Longrightarrow> unat s \<in> {8, 16, 32, 64} \<and> word_of_nat (unat s) = s"
  by auto

lemma wf_allocVSA: "s \<in> {8, 16, 32, 64} \<Longrightarrow> wf_vsa (allocVSA s initialScalar opts)"
  using unat_stripe_counts [of s] by (auto simp: allocVSA_def zero_vsa_def wf_defs slt_iff)

lemma wf_setCachedGate: "wf_vsa v \<Longrightarrow> wf_vsa (setCachedGate opts v)"
  by (simp add: setCachedGate_def wf_defs)

lemma wf_setFastPath: "wf_vsa v \<Longrightarrow> wf_vsa (setFastPath opts v)"
  by (simp add: setFastPath_def wf_defs)

lemma group_choice:
  assumes "s \<in> {8, 16, 32, 64 :: i64}" and "1 <s n"
  shows "1 < sint (if s <s n then s else n)" "sint (if s <s n then s else n) \<le> sint s"
  using assms by (auto simp: slt_iff)

lemma wf_setGroups: "wf_vsa v \<Longrightarrow> s \<in> {8, 16, 32, 64} \<Longrightarrow> wf_vsa (setGroups s opts v)"
  using group_choice [of s "GroupCount opts"] stride_covers(1,2) [of s "if s <s GroupCount opts then s else GroupCount opts"]
  by (simp add: setGroups_def Let_def wf_defs)

lemma wf_setHierarchy:
  assumes "wf_vsa v" and "s \<in> {8, 16, 32, 64}" and "length (stripes v) = unat s"
    and "sum_list (stripes v) = 0"
  shows "wf_vsa (setHierarchy s opts v)"
proof (cases "1 <s HierarchicalGroups opts")
  case True
  note h = group_choice [OF assms(2) True]
  show ?thesis
    using assms stride_covers(1,3) [OF assms(2) h] h True
    by (simp add: setHierarchy_def Let_def wf_defs)
next
  case False
  with assms show ?thesis by (simp add: setHierarchy_def)
qed

lemmas construct_defs =
  NewWithOptions_def Let_def setHierarchy_def setFastPath_def setGroups_def setCachedGate_def
  allocVSA_def zero_vsa_def

lemma wf_New: "wf_vsa (NewWithOptions gomaxprocs initialScalar opts)"
proof -
  let ?s = "stripeCount gomaxprocs opts"
  let ?v = "setFastPath opts (setGroups ?s opts (setCachedGate opts (allocVSA ?s initialScalar opts)))"
  have "stripes ?v = replicate (unat ?s) 0"
    by (simp add: construct_defs)
  then have "wf_vsa (setHierarchy ?s opts ?v)"
    by (intro wf_setHierarchy wf_setFastPath wf_setGroups wf_setCachedGate wf_allocVSA stripeCount_cases) simp_all
  then show ?thesis
    by (simp add: NewWithOptions_def Let_def wf_defs)
qed

lemma New_values [simp]:
  "scalar (NewWithOptions gomaxprocs initialScalar opts) = initialScalar"
  "committedOffset (NewWithOptions gomaxprocs initialScalar opts) = 0"
  "useCachedGate (NewWithOptions gomaxprocs initialScalar opts) = UseCachedGate opts"
  "cachedNet (NewWithOptions gomaxprocs initialScalar opts) = 0"
  "groupRR (NewWithOptions gomaxprocs initialScalar opts) = 0"
  by (simp_all add: construct_defs)

lemma New_currentVector [simp]: "currentVector (NewWithOptions gomaxprocs initialScalar opts) = 0"
  by (simp add: currentVector_flat wf_New, simp add: construct_defs)

section \<open>The shared update\<close>

lemma addStripe_spec:
  assumes "wf_vsa v" and "unat idx < length (stripes v)"
  obtains v' where "addStripe idx d v = Some v'" and "wf_vsa v'"
    and "currentVector v' = currentVector v + d" and "scalar v' = scalar v"
    and "v' = v\<lparr>stripes := stripes v', hGroupSum := hGroupSum v', approxNet := approxNet v'\<rparr>"
proof -
  let ?st = "(stripes v)[unat idx := stripes v ! unat idx + d]"
  have st: "sum_list ?st = sum_list (stripes v) + d"
    using assms by (simp add: sum_list_update_add)
  have small: "sint idx = int (unat idx)"
    using assms wf_length [of v] by (intro sint_unat) simp
  show thesis
  proof (cases "0 <s hGroups v")
    case True
    let ?g = "go_div idx (hStride v)"
    have H: "length (hGroupSum v) = unat (hGroups v)" "0 < sint (hStride v)"
      "length (stripes v) \<le> unat (hGroups v) * unat (hStride v)"
      "sum_list (hGroupSum v) = sum_list (stripes v)"
      using assms True by (simp_all add: wf_defs)
    have "unat ?g = unat idx div unat (hStride v)"
      using H small by (simp add: unat_go_div)
    also have "\<dots> < length (hGroupSum v)"
      using assms H by (intro less_mult_imp_div_less) (simp add: mult.commute)
    finally have g: "unat ?g < length (hGroupSum v)" .
    let ?v' = "v\<lparr>stripes := ?st, hGroupSum := (hGroupSum v)[unat ?g := hGroupSum v ! unat ?g + d],
                approxNet := approxNet v + d\<rparr>"
    have "wf_vsa ?v'"
      using assms H st g by (simp add: wf_defs sum_list_update_add)
    moreover have "addStripe idx d v = Some ?v'"
      using assms True H g by (auto simp: addStripe_def Let_def)
    ultimately show thesis
      using assms st by (intro that [of ?v']) (simp_all add: currentVector_flat)
  next
    case False
    let ?v' = "v\<lparr>stripes := ?st, approxNet := approxNet v + d\<rparr>"
    have "wf_vsa ?v'"
      using assms False st by (simp add: wf_defs)
    moreover have "addStripe idx d v = Some ?v'"
      using assms False by (simp add: addStripe_def Let_def)
    ultimately show thesis
      using assms st by (intro that [of ?v']) (simp_all add: currentVector_flat)
  qed
qed


section \<open>Integer specification and refinement\<close>

text \<open>
  What a VSA promises, on unbounded integers: a pair of the durable scalar and the net vector.
\<close>

type_synonym spec_state = "int \<times> int"

definition spec_available :: "spec_state \<Rightarrow> int" where
  "spec_available = (\<lambda>(S, N). S - \<bar>N\<bar>)"

definition spec_consume :: "int \<Rightarrow> spec_state \<Rightarrow> bool \<times> spec_state" where
  "spec_consume n = (\<lambda>(S, N). if 0 < n \<and> n \<le> S - \<bar>N\<bar> then (True, (S, N + n)) else (False, (S, N)))"

definition spec_refund :: "int \<Rightarrow> spec_state \<Rightarrow> bool \<times> spec_state" where
  "spec_refund n = (\<lambda>(S, N). if 0 < n \<and> 0 < N then (True, (S, N - min n N)) else (False, (S, N)))"

definition spec_commit :: "int \<Rightarrow> spec_state \<Rightarrow> spec_state" where
  "spec_commit c = (\<lambda>(S, N). let mag = min \<bar>c\<bar> \<bar>N\<bar> in (S - mag, N - sgn N * mag))"

definition alpha :: "vsa \<Rightarrow> spec_state" where
  "alpha v = (sint (scalar v), sint (currentVector v))"

lemmas spec_defs = alpha_def spec_available_def spec_consume_def spec_refund_def spec_commit_def

text \<open>The fields that only the constructor writes.\<close>

definition config :: "vsa \<Rightarrow> bool \<times> bool \<times> bool \<times> i64 list" where
  "config v =
     (cheapUpdateChooser v, perPUpdateChooser v, useCachedGate v,
      [mask_v v, cacheInterval v, cacheSlack v, fastPathGuard v, groupCount v, groupStride v,
       hGroups v, hStride v, word_of_nat (length (stripes v))])"

text \<open>The gate is exact: neither the cached gate nor the grouped scan is enabled.\<close>

definition exact_gate :: "vsa \<Rightarrow> bool" where
  "exact_gate v \<longleftrightarrow> \<not> useCachedGate v \<and> \<not> 1 <s groupCount v"

text \<open>The additive frame of an update: what \<open>addStripe\<close> changes and what it keeps.\<close>

definition shifted :: "vsa \<Rightarrow> i64 \<Rightarrow> vsa \<Rightarrow> bool" where
  "shifted v d v' \<longleftrightarrow>
     wf_vsa v' \<and> currentVector v' = currentVector v + d \<and> scalar v' = scalar v
     \<and> committedOffset v' = committedOffset v \<and> config v' = config v
     \<and> cachedNet v' = cachedNet v \<and> stopCh v' = stopCh v \<and> closeOnce v' = closeOnce v"

lemma addStripe_length: "addStripe idx d v = Some v' \<Longrightarrow> length (stripes v') = length (stripes v)"
  by (auto simp: addStripe_def Let_def split: if_splits)

lemma addStripe_shifted:
  assumes "wf_vsa v" and "unat idx < length (stripes v)"
  obtains v' where "addStripe idx d v = Some v'" and "shifted v d v'"
    and "chooser v' = chooser v" and "rr v' = rr v" and "groupRR v' = groupRR v"
proof -
  obtain v' where v': "addStripe idx d v = Some v'" "wf_vsa v'"
    "currentVector v' = currentVector v + d" "scalar v' = scalar v"
    "v' = v\<lparr>stripes := stripes v', hGroupSum := hGroupSum v', approxNet := approxNet v'\<rparr>"
    using addStripe_spec [OF assms] by blast
  define w where "w = v\<lparr>stripes := stripes v', hGroupSum := hGroupSum v', approxNet := approxNet v'\<rparr>"
  have eqs: "cheapUpdateChooser w = cheapUpdateChooser v \<and> perPUpdateChooser w = perPUpdateChooser v
    \<and> useCachedGate w = useCachedGate v \<and> mask_v w = mask_v v \<and> cacheInterval w = cacheInterval v
    \<and> cacheSlack w = cacheSlack v \<and> fastPathGuard w = fastPathGuard v \<and> groupCount w = groupCount v
    \<and> groupStride w = groupStride v \<and> hGroups w = hGroups v \<and> hStride w = hStride v
    \<and> committedOffset w = committedOffset v \<and> cachedNet w = cachedNet v \<and> stopCh w = stopCh v
    \<and> closeOnce w = closeOnce v \<and> chooser w = chooser v \<and> rr w = rr v \<and> groupRR w = groupRR v"
    by (simp add: w_def)
  moreover have "v' = w" using v'(5) by (simp only: w_def)
  ultimately show thesis
    using v' addStripe_length [OF v'(1)] by (intro that [of v']) (simp_all add: shifted_def config_def)
qed

text \<open>Bookkeeping of the round-robin counters does not touch the value.\<close>

lemma counter_frame [simp]:
  "currentVector (v\<lparr>chooser := c\<rparr>) = currentVector v" "currentVector (v\<lparr>rr := c\<rparr>) = currentVector v"
  "currentVector (v\<lparr>groupRR := c\<rparr>) = currentVector v" "currentVector (v\<lparr>prngPool := p\<rparr>) = currentVector v"
  "wf_vsa (v\<lparr>chooser := c\<rparr>) = wf_vsa v" "wf_vsa (v\<lparr>rr := c\<rparr>) = wf_vsa v"
  "wf_vsa (v\<lparr>groupRR := c\<rparr>) = wf_vsa v" "wf_vsa (v\<lparr>prngPool := p\<rparr>) = wf_vsa v"
  "config (v\<lparr>chooser := c\<rparr>) = config v" "config (v\<lparr>rr := c\<rparr>) = config v"
  "config (v\<lparr>groupRR := c\<rparr>) = config v" "config (v\<lparr>prngPool := p\<rparr>) = config v"
  "exact_gate (v\<lparr>groupRR := c\<rparr>) = exact_gate v"
  by (simp_all add: currentVector_def wf_defs config_def exact_gate_def)

lemma config_exact_gate: "config v' = config v \<Longrightarrow> exact_gate v' = exact_gate v"
  by (simp add: config_def exact_gate_def)

lemma config_guard: "config v' = config v \<Longrightarrow> fastPathGuard v' = fastPathGuard v"
  by (simp add: config_def)


lemma shifted_frame [simp]:
  "shifted (v\<lparr>chooser := c\<rparr>) d v' = shifted v d v'" "shifted (v\<lparr>rr := c\<rparr>) d v' = shifted v d v'"
  "shifted (v\<lparr>groupRR := c\<rparr>) d v' = shifted v d v'" "shifted (v\<lparr>prngPool := p\<rparr>) d v' = shifted v d v'"
  by (simp_all add: shifted_def)

lemma addStripe_masked:
  assumes "wf_vsa v"
  shows "\<exists>v'. addStripe (x AND mask_v v) d (v\<lparr>chooser := c\<rparr>) = Some v' \<and> shifted v d v'"
    and "\<exists>v'. addStripe (x AND mask_v v) d (v\<lparr>rr := c\<rparr>) = Some v' \<and> shifted v d v'"
    and "\<exists>v'. addStripe (x AND mask_v v) d (v\<lparr>prngPool := p\<rparr>) = Some v' \<and> shifted v d v'"
    and "\<exists>v'. addStripe (x AND mask_v v) d v = Some v' \<and> shifted v d v'"
proof -
  note idx = masked_index [OF assms, of x]
  show "\<exists>v'. addStripe (x AND mask_v v) d (v\<lparr>chooser := c\<rparr>) = Some v' \<and> shifted v d v'"
    using addStripe_shifted [of "v\<lparr>chooser := c\<rparr>" "x AND mask_v v" d] assms idx by auto
  show "\<exists>v'. addStripe (x AND mask_v v) d (v\<lparr>rr := c\<rparr>) = Some v' \<and> shifted v d v'"
    using addStripe_shifted [of "v\<lparr>rr := c\<rparr>" "x AND mask_v v" d] assms idx by auto
  show "\<exists>v'. addStripe (x AND mask_v v) d (v\<lparr>prngPool := p\<rparr>) = Some v' \<and> shifted v d v'"
    using addStripe_shifted [of "v\<lparr>prngPool := p\<rparr>" "x AND mask_v v" d] assms idx by auto
  show "\<exists>v'. addStripe (x AND mask_v v) d v = Some v' \<and> shifted v d v'"
    using addStripe_shifted [of v "x AND mask_v v" d] assms idx by auto
qed

lemma Update_shifted:
  assumes "wf_vsa v"
  shows "\<exists>v'. Update e d v = Some v' \<and> shifted v d v'"
  using addStripe_masked [OF assms]
  by (auto simp: Update_def chooseIdxForUpdate_def Let_def split: prod.split)

lemma TryRefund_shifted:
  assumes "wf_vsa v" and "0 < sint n" and "0 < sint (currentVector v)"
  shows "\<exists>v'. TryRefund n v = Some (True, v') \<and>
     shifted v (- (if currentVector v <s n then currentVector v else n)) v'"
  using addStripe_masked(2) [OF assms(1), of "rr v" _ "rr v + 1"] assms(2,3)
  by (auto simp: TryRefund_def sle_iff Let_def)

lemma TryRefund_noop:
  "sint n \<le> 0 \<or> sint (currentVector v) \<le> 0 \<Longrightarrow> TryRefund n v = Some (False, v)"
  by (auto simp: TryRefund_def sle_iff)

lemma TryConsume_nonpos: "sint n \<le> 0 \<Longrightarrow> TryConsume n v = Some (False, v)"
  by (simp add: TryConsume_def sle_iff)

lemma TryConsume_fast:
  assumes "wf_vsa v" and "0 < sint n" and "fastPath n v"
  shows "\<exists>v'. TryConsume n v = Some (True, v') \<and> shifted v n v'"
  using addStripe_masked(1) [OF assms(1), of "chooser v + 1" n "chooser v + 1"] assms(2,3)
  by (auto simp: TryConsume_def sle_iff Let_def)

lemma TryConsume_admit:
  assumes "wf_vsa v" and "0 < sint n" and "\<not> fastPath n v"
    and "tryConsumeGate n v = Some (True, v1)" and "v1 = v\<lparr>groupRR := g\<rparr>"
  shows "\<exists>v'. TryConsume n v = Some (True, v') \<and> shifted v n v'"
  using addStripe_masked(2) [of v1 "rr v1" n "rr v1 + 1"] assms
  by (auto simp: TryConsume_def sle_iff)

lemma TryConsume_deny:
  assumes "0 < sint n" and "\<not> fastPath n v" and "tryConsumeGate n v = Some (False, v1)"
  shows "TryConsume n v = Some (False, v1)"
  using assms by (simp add: TryConsume_def sle_iff)

lemma exact_gate_decision: "exact_gate v \<Longrightarrow> tryConsumeGate n v = Some (n \<le>s Available v, v)"
  by (simp add: tryConsumeGate_def exact_gate_def Available_def)

text \<open>Availability read as an integer.\<close>

lemma sint_Available:
  assumes "sint (currentVector v) \<noteq> - (2 ^ 63)" and "fits (spec_available (alpha v))"
  shows "sint (Available v) = spec_available (alpha v)"
  using assms by (simp add: Available_def spec_defs sint_diff_fits sint_abs_i64)

lemma fastPath_available:
  assumes "wf_vsa v" and "fastPath n v" and "fits (sint n + sint (fastPathGuard v))"
  shows "sint n \<le> sint (Available v)"
proof -
  have "0 < sint (fastPathGuard v)" and "sint (n + fastPathGuard v) \<le> sint (Available v)"
    using assms(1,2) by (simp_all add: fastPath_def int64 approxNet_exact Available_def)
  then show ?thesis using assms(3) by (simp add: sint_add_fits)
qed

text \<open>
  \<open>TryConsume\<close> with the exact gate, whatever the outcome: it returns, admits exactly when the
  amount is positive and available, and adds the amount on admission only.
\<close>

lemma TryConsume_exact:
  assumes "wf_vsa v" and "exact_gate v" and "fits (sint n + sint (fastPathGuard v))"
  obtains v' where "0 < sint n" and "sint n \<le> sint (Available v)"
      and "TryConsume n v = Some (True, v')" and "shifted v n v'"
  | "\<not> (0 < sint n \<and> sint n \<le> sint (Available v))" and "TryConsume n v = Some (False, v)"
proof (cases "0 < sint n \<and> sint n \<le> sint (Available v)")
  case True
  have "\<exists>v'. TryConsume n v = Some (True, v') \<and> shifted v n v'"
  proof (cases "fastPath n v")
    case False
    with True assms show ?thesis
      by (intro TryConsume_admit [of v n v "groupRR v"]) (simp_all add: exact_gate_decision sle_iff)
  qed (use True assms in \<open>simp add: TryConsume_fast\<close>)
  with True that(1) show thesis by blast
next
  case False
  then have "TryConsume n v = Some (False, v)"
    using assms fastPath_available [of v n]
    by (cases "0 < sint n") (auto simp: TryConsume_nonpos exact_gate_decision sle_iff intro!: TryConsume_deny)
  with False that(2) show thesis by blast
qed


section \<open>Commit\<close>

lemma Commit_wf: "wf_vsa v \<Longrightarrow> wf_vsa (Commit c v)"
  by (simp add: Commit_def Let_def wf_defs)

lemma Commit_frame [simp]:
  "config (Commit c v) = config v" "cachedNet (Commit c v) = cachedNet v"
  "stopCh (Commit c v) = stopCh v" "stripes (Commit c v) = stripes v"
  "closeOnce (Commit c v) = closeOnce v" "groupRR (Commit c v) = groupRR v"
  by (simp_all add: Commit_def Let_def config_def)

lemma Commit_0 [simp]: "Commit 0 v = v"
  by (simp add: Commit_def)

lemma Commit_net_0: "currentVector v = 0 \<Longrightarrow> Commit c v = v"
  by (simp add: Commit_def)

text \<open>
  The amount a commit moves: the magnitude that the caller asks for, capped by the net, and
  the same amount with the sign of the net.
\<close>

definition commit_mag :: "i64 \<Rightarrow> vsa \<Rightarrow> i64" where
  "commit_mag c v =
     (if abs_i64 (currentVector v) <s abs_i64 c then abs_i64 (currentVector v) else abs_i64 c)"

definition commit_delta :: "i64 \<Rightarrow> vsa \<Rightarrow> i64" where
  "commit_delta c v = (if 0 <s currentVector v then commit_mag c v else - commit_mag c v)"

lemma abs_i64_nonpos: "sint x \<le> 0 \<Longrightarrow> abs_i64 x = - x"
  using sint_eq_0_iff [of x] by (auto simp: abs_i64_def slt_iff)

lemma sint_commit_mag:
  "sint c \<noteq> - (2 ^ 63) \<Longrightarrow> sint (currentVector v) \<noteq> - (2 ^ 63) \<Longrightarrow>
     sint (commit_mag c v) = min \<bar>sint c\<bar> \<bar>sint (currentVector v)\<bar>"
  by (simp add: commit_mag_def slt_iff sint_abs_i64)

lemma sint_minus_commit_mag:
  "sint c \<noteq> - (2 ^ 63) \<Longrightarrow> sint (currentVector v) \<noteq> - (2 ^ 63) \<Longrightarrow>
     sint (- commit_mag c v) = - sint (commit_mag c v)"
  using sint_range [of "commit_mag c v"] by (intro sint_minus_fits) (simp add: fits_def sint_commit_mag)

lemma sint_commit_delta:
  assumes "sint c \<noteq> - (2 ^ 63)" and "sint (currentVector v) \<noteq> - (2 ^ 63)" and "currentVector v \<noteq> 0"
  shows "sint (commit_delta c v) =
    sgn (sint (currentVector v)) * min \<bar>sint c\<bar> \<bar>sint (currentVector v)\<bar>"
proof -
  have "sint (currentVector v) \<noteq> 0" using assms(3) by simp
  then show ?thesis
    using assms by (auto simp: commit_delta_def slt_iff sint_commit_mag sint_minus_commit_mag sgn_if)
qed

lemma abs_commit_delta:
  "sint c \<noteq> - (2 ^ 63) \<Longrightarrow> sint (currentVector v) \<noteq> - (2 ^ 63) \<Longrightarrow>
     abs_i64 (commit_delta c v) = commit_mag c v"
  by (simp add: commit_delta_def abs_i64_nonneg abs_i64_nonpos sint_minus_commit_mag sint_commit_mag)

lemma Commit_eq:
  assumes "sint c \<noteq> - (2 ^ 63)" and "sint (currentVector v) \<noteq> - (2 ^ 63)"
    and "c \<noteq> 0" and "currentVector v \<noteq> 0"
  shows "Commit c v = v\<lparr>scalar := scalar v - commit_mag c v,
       committedOffset := committedOffset v + commit_delta c v,
       approxNet := approxNet v - commit_delta c v\<rparr>"
  using assms abs_commit_delta [OF assms(1,2)]
  by (simp add: Commit_def Let_def commit_delta_def commit_mag_def split: if_splits)

lemma sint_commit_residue:
  assumes "sint c \<noteq> - (2 ^ 63)" and "sint (currentVector v) \<noteq> - (2 ^ 63)" and "currentVector v \<noteq> 0"
  shows "sint (currentVector v - commit_delta c v) = sint (currentVector v)
    - sgn (sint (currentVector v)) * min \<bar>sint c\<bar> \<bar>sint (currentVector v)\<bar>"
  using sint_range [of "currentVector v"] assms
  by (subst sint_diff_fits) (auto simp: sint_commit_delta fits_def sgn_if min_def)

lemma commit_residue:
  assumes "sint c \<noteq> - (2 ^ 63)" and "sint (currentVector v) \<noteq> - (2 ^ 63)" and "currentVector v \<noteq> 0"
  shows "abs_i64 (currentVector v - commit_delta c v) = abs_i64 (currentVector v) - commit_mag c v"
proof (cases "0 < sint (currentVector v)")
  case True
  then have "0 \<le> sint (currentVector v - commit_delta c v)"
    using assms by (simp add: sint_commit_residue)
  with True show ?thesis
    by (simp add: abs_i64_nonneg) (simp add: commit_delta_def slt_iff)
next
  case False
  then have "sint (currentVector v - commit_delta c v) \<le> 0"
    using assms by (auto simp: sint_commit_residue sgn_if)
  with False show ?thesis
    by (simp add: abs_i64_nonpos) (simp add: commit_delta_def slt_iff)
qed

lemma Commit_currentVector:
  "wf_vsa v \<Longrightarrow> sint c \<noteq> - (2 ^ 63) \<Longrightarrow> sint (currentVector v) \<noteq> - (2 ^ 63) \<Longrightarrow>
     c \<noteq> 0 \<Longrightarrow> currentVector v \<noteq> 0 \<Longrightarrow> currentVector (Commit c v) = currentVector v - commit_delta c v"
  using Commit_wf [of v c] by (simp add: Commit_eq currentVector_flat)

lemma Commit_Available:
  assumes "wf_vsa v" and "sint c \<noteq> - (2 ^ 63)" and "sint (currentVector v) \<noteq> - (2 ^ 63)"
  shows "Available (Commit c v) = Available v"
proof (cases "c = 0 \<or> currentVector v = 0")
  case False
  then show ?thesis
    using assms Commit_currentVector [OF assms] commit_residue [OF assms(2,3)] Commit_eq [OF assms(2,3)]
    by (simp add: Available_def)
qed (auto simp: Commit_net_0)

end
