(* ===== verification/VSA_Runs.thy ===== *)
theory VSA_Runs
  imports VSA_Props
begin

text \<open>
  The VSA as a state machine: sequences of calls in any order (the order in which the mutex and
  the atomic operations serialise them), the invariants of all reachable states, and the budget
  accounting that holds along every run.
\<close>

section \<open>Calls as steps\<close>

text \<open>
  One event per call. Outcomes are part of the event: whether a consumption was admitted, and
  how much a refund gave back. The aggregator ticks only while its stop channel is open.
\<close>

datatype vsa_event =
    EvUpdate chooser_env i64
  | EvConsume i64 bool
  | EvRefund i64 int
  | EvCommit i64
  | EvTick i64
  | EvClose

inductive vsa_step :: "vsa \<Rightarrow> vsa_event \<Rightarrow> vsa \<Rightarrow> bool" where
  step_update: "Update e d v = Some v' \<Longrightarrow> vsa_step v (EvUpdate e d) v'"
| step_consume: "TryConsume n v = Some (b, v') \<Longrightarrow> vsa_step v (EvConsume n b) v'"
| step_refund: "TryRefund n v = Some (b, v') \<Longrightarrow>
    vsa_step v (EvRefund n (if b then min (sint n) (sint (currentVector v)) else 0)) v'"
| step_commit: "vsa_step v (EvCommit c) (Commit c v)"
| step_tick: "stopCh v = Some False \<Longrightarrow> vsa_step v (EvTick t) (runAggregator_tick t v)"
| step_close: "vsa_step v EvClose (Close v)"

inductive_cases step_updateE: "vsa_step v (EvUpdate e d) v'"
inductive_cases step_consumeE: "vsa_step v (EvConsume n b) v'"
inductive_cases step_refundE: "vsa_step v (EvRefund n r) v'"
inductive_cases step_commitE: "vsa_step v (EvCommit c) v'"
inductive_cases step_tickE: "vsa_step v (EvTick t) v'"
inductive_cases step_closeE: "vsa_step v EvClose v'"

lemmas stepEs = step_updateE step_consumeE step_refundE step_commitE step_tickE step_closeE

inductive vsa_run :: "vsa \<Rightarrow> vsa_event list \<Rightarrow> vsa \<Rightarrow> bool" where
  run_nil: "vsa_run v [] v"
| run_snoc: "vsa_run v es v1 \<Longrightarrow> vsa_step v1 ev v2 \<Longrightarrow> vsa_run v (es @ [ev]) v2"

text \<open>Units taken from the budget by one event, and by a whole run.\<close>

fun event_usage :: "vsa_event \<Rightarrow> int" where
  "event_usage (EvConsume n b) = (if b then sint n else 0)"
| "event_usage (EvRefund n r) = - r"
| "event_usage ev = 0"

definition usage :: "vsa_event list \<Rightarrow> int" where
  "usage es = sum_list (map event_usage es)"

lemma usage_simps [simp]: "usage [] = 0" "usage (es @ [ev]) = usage es + event_usage ev"
  by (simp_all add: usage_def)

text \<open>
  Calls within the domain of the counter: no bare \<open>Update\<close>, no commit of the one value whose
  magnitude does not exist, and no amount so large that adding the guard distance overflows.
\<close>

fun in_domain :: "i64 \<Rightarrow> vsa_event \<Rightarrow> bool" where
  "in_domain guard (EvUpdate e d) = False"
| "in_domain guard (EvConsume n b) = fits (sint n + sint guard)"
| "in_domain guard (EvCommit c) = (sint c \<noteq> - (2 ^ 63))"
| "in_domain guard _ = True"

section \<open>Invariants of all runs\<close>

lemma tick_wf: "wf_vsa v \<Longrightarrow> wf_vsa (runAggregator_tick t v)"
  by (simp add: runAggregator_tick_def Let_def wf_defs)

lemma close_wf: "wf_vsa v \<Longrightarrow> wf_vsa (Close v)"
  by (simp add: Close_def wf_defs)

lemma tick_close_frame [simp]:
  "currentVector (runAggregator_tick t v) = currentVector v" "currentVector (Close v) = currentVector v"
  "scalar (runAggregator_tick t v) = scalar v" "scalar (Close v) = scalar v"
  "config (runAggregator_tick t v) = config v" "config (Close v) = config v"
  by (simp_all add: runAggregator_tick_def Close_def Let_def currentVector_def config_def)

lemma groupScan_frame: "tryConsumeGate n v = Some (b, v1) \<Longrightarrow> v1 = v\<lparr>groupRR := groupRR v1\<rparr>"
  by (auto simp: tryConsumeGate_def Let_def split: if_splits option.splits)

lemma TryConsume_outcome:
  assumes "wf_vsa v" and "TryConsume n v = Some (b, v')"
  shows "shifted v (if b then n else 0) v'"
proof (cases "sint n \<le> 0")
  case True
  with assms show ?thesis by (auto simp: TryConsume_nonpos shifted_def)
next
  case pos: False
  show ?thesis
  proof (cases "fastPath n v")
    case True
    with assms pos TryConsume_fast [of v n] show ?thesis by auto
  next
    case False
    then obtain b1 v1 where gate: "tryConsumeGate n v = Some (b1, v1)"
      using assms(2) pos by (auto simp: TryConsume_def sle_iff split: option.splits)
    note frame = groupScan_frame [OF gate]
    show ?thesis
    proof (cases b1)
      case True
      with TryConsume_admit [OF assms(1) _ False] gate frame assms(2) pos show ?thesis by fastforce
    next
      case b1: False
      then have "TryConsume n v = Some (False, v1)"
        using TryConsume_deny [of n v v1] False gate pos by simp
      moreover have "shifted v 0 v1"
        using assms(1) by (subst frame) (simp add: shifted_def)
      ultimately show ?thesis using assms(2) by simp
    qed
  qed
qed

lemma TryRefund_outcome:
  assumes "wf_vsa v" and "TryRefund n v = Some (b, v')"
  shows "shifted v (if b then - (if currentVector v <s n then currentVector v else n) else 0) v'"
proof (cases "sint n \<le> 0 \<or> sint (currentVector v) \<le> 0")
  case True
  with assms show ?thesis by (auto simp: TryRefund_noop shifted_def)
next
  case False
  with TryRefund_shifted [of v n] assms show ?thesis by auto
qed

lemma step_wf:
  assumes "vsa_step v ev v'" and "wf_vsa v"
  shows "wf_vsa v' \<and> config v' = config v"
  using assms
proof (induction rule: vsa_step.induct)
  case (step_update e d v v')
  then show ?case using Update_shifted [of v e d] by (auto simp: shifted_def)
next
  case (step_consume n v b v')
  then show ?case using TryConsume_outcome by (fastforce simp: shifted_def)
next
  case (step_refund n v b v')
  then show ?case using TryRefund_outcome by (fastforce simp: shifted_def)
qed (simp_all add: Commit_wf tick_wf close_wf)

lemma run_wf: "vsa_run v es v' \<Longrightarrow> wf_vsa v \<Longrightarrow> wf_vsa v' \<and> config v' = config v"
  by (induction rule: vsa_run.induct) (auto dest: step_wf)

section \<open>The budget\<close>

text \<open>
  The budget invariant relates a state to the initial budget and the units used so far: the net
  lies between zero and the scalar, and the units used are exactly what availability lost.
\<close>

definition budget :: "int \<Rightarrow> int \<Rightarrow> vsa \<Rightarrow> bool" where
  "budget S0 u v \<longleftrightarrow>
     wf_vsa v \<and> exact_gate v \<and> 0 \<le> sint (currentVector v) \<and> sint (currentVector v) \<le> sint (scalar v)
     \<and> sint (scalar v) \<le> S0 \<and> S0 - u = sint (scalar v) - sint (currentVector v)"

lemma budget_Available: "budget S0 u v \<Longrightarrow> sint (Available v) = S0 - u"
  using sint_range [of "scalar v"]
  by (subst sint_Available) (auto simp: budget_def spec_defs fits_def)

lemma shifted_budget:
  assumes "budget S0 u v" and "shifted v d v'" and "0 \<le> sint (currentVector v) + sint d"
    and "sint (currentVector v) + sint d \<le> sint (scalar v)"
  shows "budget S0 (u + sint d) v'"
proof -
  have "sint (currentVector v') = sint (currentVector v) + sint d"
    using assms sint_range [of "scalar v"]
    by (simp add: shifted_def) (intro sint_add_fits, simp add: fits_def)
  with assms config_exact_gate [of v' v] show ?thesis
    by (simp add: budget_def shifted_def)
qed

lemma consume_budget:
  assumes "budget S0 u v" and "fits (sint n + sint (fastPathGuard v))"
  obtains v' where "0 < sint n" and "sint n \<le> S0 - u"
      and "TryConsume n v = Some (True, v')" and "budget S0 (u + sint n) v'" and "config v' = config v"
  | "\<not> (0 < sint n \<and> sint n \<le> S0 - u)" and "TryConsume n v = Some (False, v)"
proof -
  have wf: "wf_vsa v" "exact_gate v" using assms by (simp_all add: budget_def)
  note av = budget_Available [OF assms(1)]
  show thesis
  proof (cases rule: TryConsume_exact [OF wf assms(2)])
    case (1 v')
    then have "budget S0 (u + sint n) v'"
      using assms(1) av by (intro shifted_budget [OF assms(1)]) (auto simp: budget_def)
    with 1 av that(1) show thesis by (simp add: shifted_def)
  next
    case 2
    with av that(2) show thesis by simp
  qed
qed

lemma refund_budget:
  assumes "budget S0 u v" and "TryRefund n v = Some (b, v')"
  shows "budget S0 (u - (if b then min (sint n) (sint (currentVector v)) else 0)) v'"
proof (cases "sint n \<le> 0 \<or> sint (currentVector v) \<le> 0")
  case True
  with assms show ?thesis by (auto simp: TryRefund_noop)
next
  case False
  let ?m = "if currentVector v <s n then currentVector v else n"
  have m: "sint ?m = min (sint n) (sint (currentVector v))"
    by (simp add: slt_iff)
  then have mm: "sint (- ?m) = - min (sint n) (sint (currentVector v))"
    using False sint_range [of "currentVector v"] by (subst sint_minus_fits) (auto simp: fits_def)
  from False assms obtain "b" "shifted v (- ?m) v'"
    using TryRefund_outcome [of v n b v'] TryRefund_shifted [of v n] by (auto simp: budget_def)
  then have "budget S0 (u + sint (- ?m)) v'"
    using assms(1) False by (intro shifted_budget [OF assms(1)]) (auto simp: mm budget_def)
  with \<open>b\<close> mm show ?thesis by simp
qed

lemma commit_budget:
  assumes "budget S0 u v" and "sint c \<noteq> - (2 ^ 63)"
  shows "budget S0 u (Commit c v)"
proof (cases "c = 0 \<or> currentVector v = 0")
  case True
  with assms show ?thesis by (auto simp: Commit_net_0)
next
  case False
  let ?N = "sint (currentVector v)" and ?m = "min \<bar>sint c\<bar> (sint (currentVector v))"
  have wf: "wf_vsa v" and N: "?N \<noteq> - (2 ^ 63)" "0 < ?N" and le: "?N \<le> sint (scalar v)"
    using assms False by (auto simp: budget_def order_less_le sym [of "sint _" 0])
  have cv: "sint (currentVector (Commit c v)) = ?N - ?m"
    using False N by (simp add: Commit_currentVector [OF wf assms(2)] sint_commit_residue [OF assms(2)])
  have "scalar (Commit c v) = scalar v - commit_mag c v"
    using False N by (simp add: Commit_eq [OF assms(2)])
  moreover have "sint (scalar v - commit_mag c v) = sint (scalar v) - ?m"
    using N le sint_range [of "scalar v"] abs_ge_zero [of "sint c"]
    by (subst sint_diff_fits) (simp_all add: sint_commit_mag [OF assms(2)] fits_def min_def, linarith)
  ultimately show ?thesis
    using assms(1) cv Commit_wf [OF wf] config_exact_gate [of "Commit c v" v] abs_ge_zero [of "sint c"]
    by (auto simp: budget_def min_def)
qed

lemma step_budget:
  assumes "vsa_step v ev v'" and "budget S0 u v" and "in_domain (fastPathGuard v) ev"
  shows "budget S0 (u + event_usage ev) v'"
  using assms
proof (cases ev)
  case (EvConsume n b)
  with assms have "TryConsume n v = Some (b, v')" by (auto elim: stepEs)
  with EvConsume show ?thesis
    using consume_budget [OF assms(2), of n] assms(2,3) by (fastforce elim: consume_budget)
next
  case (EvRefund n r)
  with assms(1,2) show ?thesis by (auto elim!: stepEs dest: refund_budget)
next
  case (EvTick t)
  with assms(1,2) show ?thesis
    using tick_wf by (auto elim!: stepEs simp: budget_def config_exact_gate [of "runAggregator_tick t v" v])
next
  case EvClose
  with assms(1,2) show ?thesis
    using close_wf by (auto elim!: stepEs simp: budget_def config_exact_gate [of "Close v" v])
qed (auto elim!: stepEs intro: commit_budget)

lemma run_budget:
  assumes "vsa_run v es v'" and "budget S0 0 v" and "\<forall>ev \<in> set es. in_domain (fastPathGuard v) ev"
  shows "budget S0 (usage es) v'"
  using assms
proof (induction rule: vsa_run.induct)
  case (run_snoc v es v1 ev v2)
  then have "fastPathGuard v1 = fastPathGuard v"
    using run_wf [of v es v1] by (auto simp: budget_def intro!: config_guard)
  with run_snoc show ?case by (simp add: step_budget)
qed simp

lemma New_budget:
  assumes "0 \<le> sint S" and "\<not> UseCachedGate opts" and "\<not> 1 <s GroupCount opts"
  shows "budget (sint S) 0 (NewWithOptions p S opts)"
proof -
  have "groupCount (NewWithOptions p S opts) = 0"
    using assms(3) by (simp add: construct_defs)
  then show ?thesis
    using assms wf_New by (simp add: budget_def exact_gate_def slt_iff)
qed


section \<open>Progress\<close>

text \<open>
  The grouped scan reads in range as long as the product of its round-robin counter and the
  stride stays below the signed overflow.
\<close>

lemma go_mod_range:
  assumes "0 \<le> sint a" and "0 < sint b"
  shows "0 \<le> sint (go_mod a b) \<and> sint (go_mod a b) < sint b"
proof -
  have eq: "sint a smod sint b = sint a mod sint b"
    using assms by (cases "sint a = 0") (simp_all add: signed_modulo_int_def sgn_if abs_if modulo_int_def
        signed_divide_int_def minus_mult_div_eq_mod [symmetric] mult.commute)
  have "0 \<le> sint a mod sint b" "sint a mod sint b < sint b"
    using assms by simp_all
  moreover then have "fits (sint a mod sint b)"
    using sint_range [of b] by (simp add: fits_def)
  ultimately show ?thesis by (simp add: go_mod_def eq sint_of_int_fits)
qed

lemma groupScan_returns:
  assumes "wf_vsa v" and "1 <s groupCount v" and "0 \<le> sint (groupRR v * groupStride v)"
  shows "groupScan v \<noteq> None"
proof -
  let ?len = "word_of_nat (length (stripes v)) :: i64"
  have len: "0 < sint ?len" "sint ?len \<le> 64" using assms(1) by (auto simp: wf_vsa_def)
  have st: "0 < sint (groupStride v)" "sint (groupStride v) \<le> 64" using assms by (simp_all add: wf_defs)
  define start where "start = go_mod (groupRR v * groupStride v) ?len"
  have start: "0 \<le> sint start" "sint start < sint ?len"
    using go_mod_range [OF assms(3) len(1)] by (simp_all add: start_def)
  define e where "e = (if ?len <s start + groupStride v then ?len else start + groupStride v)"
  have "sint (start + groupStride v) = sint start + sint (groupStride v)"
    using start st len by (intro sint_add_fits) (simp add: fits_def)
  then have "sint start < sint e" using start st by (simp add: e_def slt_iff)
  then have "e \<noteq> start" by auto
  moreover have "?len \<noteq> 0" using len by auto
  ultimately show ?thesis
    using start by (auto simp: groupScan_def Let_def slt_iff start_def e_def)
qed

lemma gate_returns:
  assumes "wf_vsa v" and "\<not> useCachedGate v \<and> 1 <s groupCount v \<longrightarrow> 0 \<le> sint (groupRR v * groupStride v)"
  shows "tryConsumeGate n v \<noteq> None"
  using assms groupScan_returns [of v]
  by (auto simp: tryConsumeGate_def Let_def split: option.splits)

lemma TryConsume_returns:
  assumes "wf_vsa v" and "\<not> useCachedGate v \<and> 1 <s groupCount v \<longrightarrow> 0 \<le> sint (groupRR v * groupStride v)"
  shows "TryConsume n v \<noteq> None"
proof (cases "sint n \<le> 0 \<or> fastPath n v")
  case True
  then show ?thesis
    using TryConsume_nonpos [of n v] TryConsume_fast [OF assms(1), of n]
    by (cases "sint n \<le> 0") auto
next
  case False
  obtain b v1 where g: "tryConsumeGate n v = Some (b, v1)"
    using gate_returns [OF assms] by fastforce
  show ?thesis
    using False g groupScan_frame [OF g] TryConsume_admit [OF assms(1), of n v1] TryConsume_deny [of n v v1]
    by (cases b) fastforce+
qed


section \<open>Properties\<close>

lemma shifted_alpha:
  "shifted v d v' \<Longrightarrow> fits (sint (currentVector v) + sint d) \<Longrightarrow>
     alpha v' = (sint (scalar v), sint (currentVector v) + sint d)"
  by (simp add: shifted_def alpha_def sint_add_fits)

text \<open>A concrete VSA that the witnesses share: budget ten, three units consumed.\<close>

lemma example_consume: "\<exists>v. TryConsume 3 (NewWithOptions 4 10 default_options) = Some (True, v)"
proof -
  have "map_option fst (TryConsume 3 (NewWithOptions 4 10 default_options)) = Some True"
    by code_simp
  then show ?thesis by auto
qed



text \<open>
  C2. TryConsume implements the specified check-and-consume. With the exact gate it returns,
  admits exactly when the amount is positive and at most the availability, adds the amount to
  the net on admission and changes nothing the specification sees on denial. The fast path
  is covered: it never admits more than the exact gate would.
\<close>

theorem try_consume_refines:
  assumes "wf_vsa v" and "exact_gate v" and "sint (currentVector v) \<noteq> - (2 ^ 63)"
    and "fits (spec_available (alpha v))" and "fits (sint n + sint (fastPathGuard v))"
  shows "\<exists>b v'. TryConsume n v = Some (b, v') \<and> (b, alpha v') = spec_consume (sint n) (alpha v) \<and> wf_vsa v'"
proof (cases rule: TryConsume_exact [OF assms(1,2,5)])
  case (1 v')
  have av: "sint n \<le> spec_available (alpha v)"
    using 1 sint_Available [OF assms(3,4)] by simp
  then have "alpha v' = (sint (scalar v), sint (currentVector v) + sint n)"
    using 1 sint_range [of "scalar v"] sint_range [of "currentVector v"]
    by (intro shifted_alpha) (auto simp: fits_def spec_defs abs_if split: if_splits)
  with 1 av show ?thesis by (auto simp: spec_defs shifted_def)
next
  case 2
  with assms sint_Available [OF assms(3,4)] show ?thesis by (auto simp: spec_defs)
qed

theorem try_consume_refines_witness:
  "\<exists>b v'. TryConsume 4 (NewWithOptions 4 10 default_options) = Some (b, v') \<and> b
     \<and> alpha v' = (10, 4)"
proof -
  let ?v = "NewWithOptions 4 10 default_options"
  have h: "exact_gate ?v" "sint (currentVector ?v) \<noteq> - (2 ^ 63)" "fits (spec_available (alpha ?v))"
    "fits (sint (4 :: i64) + sint (fastPathGuard ?v))"
    by code_simp+
  have "spec_consume (sint (4 :: i64)) (alpha ?v) = (True, (10, 4))"
    by code_simp
  then show ?thesis using try_consume_refines [OF wf_New h] by auto
qed

text \<open>
  Commit invariance. Committing any amount leaves Available unchanged, for every state
  reachable by any calls and without any bound on the scalar; the two excluded values are the ones
  whose magnitude does not exist in 64 bits.
\<close>

theorem commit_keeps_availability:
  assumes "vsa_run (NewWithOptions p S opts) es v" and "sint c \<noteq> - (2 ^ 63)"
    and "sint (currentVector v) \<noteq> - (2 ^ 63)"
  shows "Available (Commit c v) = Available v"
  using run_wf [OF assms(1) wf_New] assms(2,3) by (simp add: Commit_Available)

theorem commit_keeps_availability_witness:
  "\<exists>v. TryConsume 3 (NewWithOptions 4 10 default_options) = Some (True, v)
     \<and> Available (Commit 2 v) = Available v"
proof -
  let ?v0 = "NewWithOptions 4 10 default_options"
  obtain v1 where v1: "TryConsume 3 ?v0 = Some (True, v1)"
    using example_consume by blast
  then have run: "vsa_run ?v0 [EvConsume 3 True] v1"
    using run_snoc [OF run_nil step_consume [OF v1]] by simp
  have "currentVector v1 = 3"
    using TryConsume_outcome [OF wf_New v1] by (simp add: shifted_def)
  with commit_keeps_availability [OF run, of 2] v1 show ?thesis by auto
qed

text \<open>
  C3. Commit implements its specification: it moves the smaller of the requested and the
  outstanding magnitude from the net into the scalar, towards zero net, whatever the sign of the
  (possibly stale) argument.
\<close>

theorem commit_refines:
  assumes "wf_vsa v" and "sint c \<noteq> - (2 ^ 63)" and "sint (currentVector v) \<noteq> - (2 ^ 63)"
    and "fits (sint (scalar v) - min \<bar>sint c\<bar> \<bar>sint (currentVector v)\<bar>)"
  shows "alpha (Commit c v) = spec_commit (sint c) (alpha v)"
proof (cases "c = 0 \<or> currentVector v = 0")
  case False
  have "sint (scalar v - commit_mag c v) = sint (scalar v) - min \<bar>sint c\<bar> \<bar>sint (currentVector v)\<bar>"
    using assms by (subst sint_diff_fits) (simp_all add: sint_commit_mag)
  with False assms show ?thesis
    using Commit_currentVector [OF assms(1-3)] sint_commit_residue [OF assms(2,3)]
    by (simp add: spec_defs Let_def) (simp add: Commit_eq)
qed (auto simp: Commit_net_0 spec_defs Let_def)

theorem commit_refines_witness:
  "\<exists>v. TryConsume 3 (NewWithOptions 4 10 default_options) = Some (True, v)
     \<and> alpha (Commit (- 2) v) = (8, 1)"
proof -
  let ?v0 = "NewWithOptions 4 10 default_options"
  obtain v1 where v1: "TryConsume 3 ?v0 = Some (True, v1)"
    using example_consume by blast
  have v: "wf_vsa v1" "currentVector v1 = 3" "scalar v1 = 10"
    using TryConsume_outcome [OF wf_New v1] by (simp_all add: shifted_def)
  then have "alpha (Commit (- 2) v1) = spec_commit (sint (- 2 :: i64)) (alpha v1)"
    by (intro commit_refines) (simp_all add: fits_def)
  with v v1 show ?thesis by (auto simp: spec_defs)
qed

text \<open>
  C4. TryRefund implements its specification in every well-formed state: it returns, gives back the
  smaller of the requested amount and the pending consumption, and is a no-op when nothing
  positive is pending or requested. The net never becomes negative.
\<close>

theorem try_refund_refines:
  assumes "wf_vsa v"
  shows "\<exists>b v'. TryRefund n v = Some (b, v') \<and> (b, alpha v') = spec_refund (sint n) (alpha v) \<and> wf_vsa v'"
proof (cases "sint n \<le> 0 \<or> sint (currentVector v) \<le> 0")
  case True
  then have "spec_refund (sint n) (alpha v) = (False, alpha v)"
    by (simp add: spec_refund_def alpha_def not_less [symmetric])
  with TryRefund_noop [OF True] assms show ?thesis by (intro exI [of _ False] exI [of _ v]) simp
next
  case False
  define m where "m = - (if currentVector v <s n then currentVector v else n)"
  have m: "sint m = - min (sint n) (sint (currentVector v))"
    using False sint_range [of "currentVector v"] sint_range [of n]
    unfolding m_def by (subst sint_minus_fits) (auto simp: fits_def slt_iff)
  obtain v' where v': "TryRefund n v = Some (True, v')" "shifted v m v'"
    using False TryRefund_shifted [OF assms, of n] by (auto simp: m_def)
  have "fits (sint (currentVector v) + sint m)"
    using False sint_range [of "currentVector v"] by (simp add: m fits_def min_def)
  from shifted_alpha [OF v'(2) this] have "(True, alpha v') = spec_refund (sint n) (alpha v)"
    using False by (simp add: m spec_refund_def alpha_def [of v])
  with v' show ?thesis by (auto simp: shifted_def)
qed

theorem try_refund_refines_witness:
  "\<exists>b v'. TryRefund 5 (NewWithOptions 4 10 default_options) = Some (b, v') \<and> \<not> b"
  using try_refund_refines [OF wf_New, of 5 4 10 default_options] by (auto simp: spec_defs)


text \<open>
  C5. No run-time panic. From the constructor on, whatever calls were made before, Update and
  TryRefund return in every state, and so does TryConsume unless the grouped scan is on and
  its round-robin counter has overflowed the signed range: every stripe and group index the code
  computes is in bounds.
\<close>

theorem no_panic:
  assumes "vsa_run (NewWithOptions p S opts) es v"
  shows "Update e d v \<noteq> None \<and> TryRefund n v \<noteq> None
    \<and> ((useCachedGate v \<or> \<not> 1 <s groupCount v \<or> 0 \<le> sint (groupRR v * groupStride v))
         \<longrightarrow> TryConsume n v \<noteq> None)"
proof -
  have wf: "wf_vsa v" using run_wf [OF assms wf_New] by simp
  have "TryRefund n v \<noteq> None"
    using TryRefund_shifted [OF wf, of n] TryRefund_noop [of n v]
    by (cases "0 < sint n \<and> 0 < sint (currentVector v)") auto
  then show ?thesis
    using Update_shifted [OF wf, of e d] TryConsume_returns [OF wf, of n] by auto
qed

theorem no_panic_witness:
  "\<exists>v. vsa_run (NewWithOptions 4 10 default_options) [EvConsume 3 True] v \<and> TryConsume 9 v \<noteq> None"
proof -
  obtain v1 where v1: "TryConsume 3 (NewWithOptions 4 10 default_options) = Some (True, v1)"
    using example_consume by blast
  then have run: "vsa_run (NewWithOptions 4 10 default_options) [EvConsume 3 True] v1"
    using run_snoc [OF run_nil step_consume [OF v1]] by simp
  have "config v1 = config (NewWithOptions 4 10 default_options)"
    using run_wf [OF run wf_New] by simp
  moreover have "groupCount (NewWithOptions 4 10 default_options) = 0" by code_simp
  ultimately have "\<not> 1 <s groupCount v1" by (simp add: config_def slt_iff)
  with no_panic [OF run, of undefined 0 9] run show ?thesis by blast
qed

text \<open>
  C7. The optimised aggregates are exact. After any sequence of calls, Update included, the
  vector computed from the hierarchical group sums equals the flat sum of the stripes minus the
  committed offset, and the approximate net that the fast path reads equals it too.
\<close>

theorem aggregates_exact:
  assumes "vsa_run (NewWithOptions p S opts) es v"
  shows "currentVector v = sum_list (stripes v) - committedOffset v \<and> approxNet v = currentVector v"
  using run_wf [OF assms wf_New] by (simp add: currentVector_flat approxNet_exact)

theorem aggregates_exact_witness:
  "\<exists>v. vsa_run (NewWithOptions 4 10 (default_options\<lparr>HierarchicalGroups := 3\<rparr>)) [EvConsume 3 True] v
     \<and> currentVector v = sum_list (stripes v) - committedOffset v \<and> approxNet v = currentVector v"
proof -
  let ?v0 = "NewWithOptions 4 10 (default_options\<lparr>HierarchicalGroups := 3\<rparr>)"
  have "map_option fst (TryConsume 3 ?v0) = Some True" by code_simp
  then obtain v1 where "TryConsume 3 ?v0 = Some (True, v1)" by auto
  then have "vsa_run ?v0 [EvConsume 3 True] v1"
    using run_snoc [OF run_nil step_consume] by fastforce
  with aggregates_exact [OF this] show ?thesis by blast
qed

text \<open>
  C6. The shape of a VSA. Whatever the processor count, the options and the calls made, a VSA has the
  8, 16, 32 or 64 stripes that the constructor chose; its mask is one less, so that every masked
  number is the index of a stripe; with hierarchical sums, there is one sum per group and every
  stripe belongs to one of them; and no call changes its configuration.
\<close>

theorem vsa_shape:
  assumes "vsa_run (NewWithOptions p S opts) es v"
  shows "length (stripes v) = unat (stripeCount p opts) \<and> length (stripes v) \<in> {8, 16, 32, 64}
    \<and> unat (mask_v v) = length (stripes v) - 1 \<and> unat (x AND mask_v v) < length (stripes v)
    \<and> (0 <s hGroups v \<longrightarrow> length (hGroupSum v) = unat (hGroups v)
         \<and> (\<forall>i < length (stripes v). i div unat (hStride v) < length (hGroupSum v)))
    \<and> config v = config (NewWithOptions p S opts)"
proof -
  have wf: "wf_vsa v" and cfg: "config v = config (NewWithOptions p S opts)" using run_wf [OF assms wf_New] by simp_all
  have len: "length (stripes v) \<in> {8, 16, 32, 64}" using wf by (simp add: wf_vsa_def)
  moreover have "length (stripes (NewWithOptions p S opts)) = unat (stripeCount p opts)" by (simp add: construct_defs)
  then have "word_of_nat (length (stripes v)) = stripeCount p opts"
    using cfg unat_stripe_counts [OF stripeCount_cases] by (simp add: config_def)
  then have "unat (stripeCount p opts) = length (stripes v)" using len by (auto simp flip: \<open>_ = stripeCount p opts\<close>)
  moreover have "unat (mask_v v) = length (stripes v) - 1" using wf len by (auto simp: wf_vsa_def)
  moreover have "i div unat (hStride v) < length (hGroupSum v)" if "0 <s hGroups v" "i < length (stripes v)" for i
    using wf that by (intro less_mult_imp_div_less) (auto simp: wf_defs)
  moreover have "length (hGroupSum v) = unat (hGroups v)" if "0 <s hGroups v" using wf that by (simp add: wf_defs)
  ultimately show ?thesis using masked_index [OF wf] cfg by simp
qed

theorem vsa_shape_witness:
  "\<exists>v. vsa_run (NewWithOptions 12 10 (default_options\<lparr>HierarchicalGroups := 3\<rparr>)) [EvConsume 3 True] v
     \<and> length (stripes v) = 16 \<and> unat (7 AND mask_v v) < 16"
proof -
  let ?v0 = "NewWithOptions 12 10 (default_options\<lparr>HierarchicalGroups := 3\<rparr>)"
  have "map_option fst (TryConsume 3 ?v0) = Some True" by code_simp
  then obtain v1 where "TryConsume 3 ?v0 = Some (True, v1)" by auto
  then have run: "vsa_run ?v0 [EvConsume 3 True] v1"
    using run_snoc [OF run_nil step_consume] by fastforce
  have "stripeCount 12 (default_options\<lparr>HierarchicalGroups := 3\<rparr>) = 16" by code_simp
  with vsa_shape [OF run, of 7] run show ?thesis by auto
qed

text \<open>
  nextPow2 returns the least power of two that is at least its argument, for every argument
  from 1 up to the largest power of two the type holds.
\<close>

theorem nextPow2_least:
  assumes "1 \<le> sint x" and "sint x \<le> 2 ^ 62"
  shows "\<exists>k. nextPow2 x = 2 ^ k \<and> k \<le> 62 \<and> sint x \<le> 2 ^ k \<and> (\<forall>j. sint x \<le> 2 ^ j \<longrightarrow> k \<le> j)"
proof (cases "sint x = 1")
  case True
  then show ?thesis by (intro exI [of _ 0]) (simp add: nextPow2_1)
next
  case False
  then obtain n where n: "2 ^ n < sint x" "sint x \<le> 2 ^ Suc n"
    using pow2_bracket [of "sint x"] assms by auto
  have "(2 :: int) ^ n < 2 ^ 62" using n assms by linarith
  then have "n < 62" by (rule power_less_imp_less_exp [rotated]) simp
  moreover have "Suc n \<le> j" if "sint x \<le> 2 ^ j" for j
  proof -
    have "(2 :: int) ^ n < 2 ^ j" using n that by linarith
    then show ?thesis by simp
  qed
  ultimately show ?thesis
    using nextPow2_eq [OF n] n by (intro exI [of _ "Suc n"]) auto
qed

theorem nextPow2_least_witness: "nextPow2 9 = 16"
proof -
  have "\<exists>k. nextPow2 9 = 2 ^ k \<and> k \<le> 62 \<and> sint (9 :: i64) \<le> 2 ^ k \<and> (\<forall>j. sint (9 :: i64) \<le> 2 ^ j \<longrightarrow> k \<le> j)"
    by (rule nextPow2_least) simp_all
  then obtain k where k: "nextPow2 9 = 2 ^ k" "(9 :: int) \<le> 2 ^ k" "\<forall>j. (9 :: int) \<le> 2 ^ j \<longrightarrow> k \<le> j"
    by auto
  have "k \<le> 4" using k(3) by (elim allE [of _ 4]) simp
  moreover have "\<not> k \<le> 3"
  proof
    assume "k \<le> 3"
    then have "(2 :: int) ^ k \<le> 2 ^ 3" by (intro power_increasing) simp_all
    with k(2) show False by simp
  qed
  ultimately have "k = 4" by simp
  with k(1) show ?thesis by simp
qed

text \<open>
  The cached gate is safe as long as the cache is fresh enough: if the outstanding net exceeds
  the cached one in magnitude by at most the slack, an admitted amount was really available.
\<close>

theorem cached_gate_safe:
  assumes "wf_vsa v" and "useCachedGate v" and "\<not> 0 <s fastPathGuard v"
    and "sint (cachedNet v) \<noteq> - (2 ^ 63)"
    and "fits (sint (scalar v) - \<bar>sint (cachedNet v)\<bar>)"
    and "fits (sint (scalar v) - \<bar>sint (cachedNet v)\<bar> - sint (cacheSlack v))"
    and "\<bar>sint (currentVector v)\<bar> \<le> \<bar>sint (cachedNet v)\<bar> + sint (cacheSlack v)"
    and "TryConsume n v = Some (True, v')"
  shows "0 < sint n \<and> sint n \<le> spec_available (alpha v)"
proof -
  have pos: "0 < sint n"
    using assms(8) TryConsume_nonpos [of n v] by (cases "sint n \<le> 0") auto
  have "\<not> fastPath n v" using assms(3) by (simp add: fastPath_def)
  then have "n \<le>s scalar v - abs_i64 (cachedNet v) - cacheSlack v"
    using assms(2,8) pos by (auto simp: TryConsume_def tryConsumeGate_def sle_iff split: if_splits)
  then have "sint n \<le> sint (scalar v) - \<bar>sint (cachedNet v)\<bar> - sint (cacheSlack v)"
    using assms(4-6) by (simp add: sle_iff sint_diff_fits sint_abs_i64)
  with pos assms(7) show ?thesis by (simp add: spec_defs)
qed

theorem cached_gate_safe_witness:
  "\<exists>v'. TryConsume 1 (NewWithOptions 4 1 (default_options\<lparr>UseCachedGate := True\<rparr>)) = Some (True, v')
     \<and> 0 < sint (1 :: i64) \<and> sint (1 :: i64) \<le>
        spec_available (alpha (NewWithOptions 4 1 (default_options\<lparr>UseCachedGate := True\<rparr>)))"
proof -
  let ?v = "NewWithOptions 4 1 (default_options\<lparr>UseCachedGate := True\<rparr>)"
  have "map_option fst (TryConsume 1 ?v) = Some True" by code_simp
  then obtain v' where v': "TryConsume 1 ?v = Some (True, v')" by auto
  have h: "useCachedGate ?v" "\<not> 0 <s fastPathGuard ?v" "sint (cachedNet ?v) \<noteq> - (2 ^ 63)"
    "fits (sint (scalar ?v) - \<bar>sint (cachedNet ?v)\<bar>)"
    "fits (sint (scalar ?v) - \<bar>sint (cachedNet ?v)\<bar> - sint (cacheSlack ?v))"
    "\<bar>sint (currentVector ?v)\<bar> \<le> \<bar>sint (cachedNet ?v)\<bar> + sint (cacheSlack ?v)"
    by code_simp+
  show ?thesis using cached_gate_safe [OF wf_New h v'] v' by blast
qed

text \<open>
  The cached gate has no exact fallback: with a stale cache it oversubscribes. A budget of one
  unit admits two requests between two refreshes, although docs/invariants.md says the slack and
  the fallback to the full scan prevent it.
\<close>

theorem cached_gate_oversubscribes:
  "\<exists>v1 v2. TryConsume 1 (NewWithOptions 4 1 (default_options\<lparr>UseCachedGate := True\<rparr>)) = Some (True, v1)
     \<and> TryConsume 1 v1 = Some (True, v2) \<and> sint (Available v2) = - 1"
proof -
  let ?v = "NewWithOptions 4 1 (default_options\<lparr>UseCachedGate := True\<rparr>)"
  have "Option.bind (TryConsume 1 ?v) (\<lambda>(b1, v1). map_option (\<lambda>(b2, v2). (b1, b2, sint (Available v2)))
      (TryConsume 1 v1)) = Some (True, True, - 1)"
    by code_simp
  then show ?thesis by (auto simp: bind_eq_Some_conv)
qed

text \<open>
  The grouped scan oversubscribes: its estimate can miss consumption held in the groups it
  did not read, and the exact check is made only when the estimate denies. A budget of
  five units admits five units twice.
\<close>

theorem grouped_scan_oversubscribes:
  "\<exists>v1 v2. TryConsume 5 (NewWithOptions 4 5 (default_options\<lparr>GroupCount := 2\<rparr>)) = Some (True, v1)
     \<and> TryConsume 5 v1 = Some (True, v2) \<and> sint (Available v2) = - 5"
proof -
  let ?v = "NewWithOptions 4 5 (default_options\<lparr>GroupCount := 2\<rparr>)"
  have "Option.bind (TryConsume 5 ?v) (\<lambda>(b1, v1). map_option (\<lambda>(b2, v2). (b1, b2, sint (Available v2)))
      (TryConsume 5 v1)) = Some (True, True, - 5)"
    by code_simp
  then show ?thesis by (auto simp: bind_eq_Some_conv)
qed

text \<open>
  The fast path's comparison overflows: for an amount within the guard distance of the
  largest integer the sum of amount and guard wraps to a negative number, and the request is
  admitted although only five units are available.
\<close>

theorem fast_path_overflow:
  "\<exists>v'. TryConsume (2 ^ 63 - 1) (NewWithOptions 4 5 (default_options\<lparr>FastPathGuard := 1\<rparr>)) = Some (True, v')
     \<and> sint (Available v') = 5 - (2 ^ 63 - 1)"
proof -
  have "map_option (\<lambda>(b, v). (b, sint (Available v)))
      (TryConsume 9223372036854775807 (NewWithOptions 4 5 (default_options\<lparr>FastPathGuard := 1\<rparr>)))
    = Some (True, 5 - 9223372036854775807)"
    by code_simp
  then show ?thesis by auto
qed

end
