(* ===== verification/Goroutines.thy ===== *)
theory Goroutines
  imports Main
begin

text \<open>
  Goroutines on a shared object with a mutex. The code of a call is a tree of atomic operations
  (\<open>sync/atomic\<close> loads, stores and additions), and goroutines take their operations in any order.
  For an object whose writers work under the mutex, every behaviour is one of a machine in which a
  call happens at one instant between its start and its return.
\<close>

section \<open>Code\<close>

text \<open>
  \<open>Act u k\<close> changes the memory by \<open>u\<close> and goes on with what \<open>k\<close> says for the new memory, in one
  atomic step.
\<close>

datatype ('s, 'r) prog =
    Ret 'r
  | Act "'s \<Rightarrow> 's" "'s \<Rightarrow> ('s, 'r) prog"
  | Lock "('s, 'r) prog"
  | Unlock "('s, 'r) prog"
  | Panic

definition load :: "('s \<Rightarrow> 'a) \<Rightarrow> ('a \<Rightarrow> ('s, 'r) prog) \<Rightarrow> ('s, 'r) prog" where
  "load r k = Act id (\<lambda>s. k (r s))"

definition modify :: "('s \<Rightarrow> 's) \<Rightarrow> ('s, 'r) prog \<Rightarrow> ('s, 'r) prog" where
  "modify u p = Act u (\<lambda>_. p)"

section \<open>Interleaving\<close>

record ('s, 'c, 'r) machine =
  mem :: 's
  owner :: "nat option"
  goroutine :: "nat \<Rightarrow> ('c \<times> ('s, 'r) prog) option"

definition go_init :: "'s \<Rightarrow> ('s, 'c, 'r) machine" where
  "go_init s = \<lparr>mem = s, owner = None, goroutine = (\<lambda>_. None)\<rparr>"

text \<open>Starts and returns of calls are visible; the rest is not.\<close>

datatype ('c, 'r) visible = Call nat 'c | Return nat 'c 'r

inductive go_step :: "('c \<Rightarrow> ('s, 'r) prog) \<Rightarrow> ('s, 'c, 'r) machine \<Rightarrow> ('c, 'r) visible list \<Rightarrow> ('s, 'c, 'r) machine \<Rightarrow> bool"
  for code where
  go_call: "goroutine m i = None \<Longrightarrow> go_step code m [Call i c] (m\<lparr>goroutine := (goroutine m)(i \<mapsto> (c, code c))\<rparr>)"
| go_return: "goroutine m i = Some (c, Ret r) \<Longrightarrow>
    go_step code m [Return i c r] (m\<lparr>goroutine := (goroutine m)(i := None)\<rparr>)"
| go_act: "goroutine m i = Some (c, Act u k) \<Longrightarrow>
    go_step code m [] (m\<lparr>mem := u (mem m), goroutine := (goroutine m)(i \<mapsto> (c, k (u (mem m))))\<rparr>)"
| go_lock: "goroutine m i = Some (c, Lock p) \<Longrightarrow> owner m = None \<Longrightarrow>
    go_step code m [] (m\<lparr>owner := Some i, goroutine := (goroutine m)(i \<mapsto> (c, p))\<rparr>)"
| go_unlock: "goroutine m i = Some (c, Unlock p) \<Longrightarrow> owner m = Some i \<Longrightarrow>
    go_step code m [] (m\<lparr>owner := None, goroutine := (goroutine m)(i \<mapsto> (c, p))\<rparr>)"

inductive go_run :: "('c \<Rightarrow> ('s, 'r) prog) \<Rightarrow> ('s, 'c, 'r) machine \<Rightarrow> ('c, 'r) visible list \<Rightarrow> ('s, 'c, 'r) machine \<Rightarrow> bool"
  for code m0 where
  go_nil: "go_run code m0 [] m0"
| go_snoc: "go_run code m0 tr m \<Longrightarrow> go_step code m l m' \<Longrightarrow> go_run code m0 (tr @ l) m'"

section \<open>Calls at one instant\<close>

datatype ('c, 'r) status = Idle | Pending 'c | Answered 'c 'r

record ('s, 'c, 'r) object =
  amem :: 's
  status :: "nat \<Rightarrow> ('c, 'r) status"

definition at_init :: "'s \<Rightarrow> ('s, 'c, 'r) object" where
  "at_init s = \<lparr>amem = s, status = (\<lambda>_. Idle)\<rparr>"

text \<open>
  A writer takes effect as a whole between its start and its return. Nothing is said of the answer of
  a reader.
\<close>

inductive at_step :: "('c \<Rightarrow> 's \<Rightarrow> ('r \<times> 's) option) \<Rightarrow> ('c \<Rightarrow> bool) \<Rightarrow> ('s, 'c, 'r) object
    \<Rightarrow> ('c, 'r) visible list \<Rightarrow> ('s, 'c, 'r) object \<Rightarrow> bool" for seq reader where
  at_call: "status a i = Idle \<Longrightarrow> at_step seq reader a [Call i c] (a\<lparr>status := (status a)(i := Pending c)\<rparr>)"
| at_exec: "status a i = Pending c \<Longrightarrow> \<not> reader c \<Longrightarrow> seq c (amem a) = Some (r, s) \<Longrightarrow>
    at_step seq reader a [] (a\<lparr>amem := s, status := (status a)(i := Answered c r)\<rparr>)"
| at_read: "status a i = Pending c \<Longrightarrow> reader c \<Longrightarrow>
    at_step seq reader a [] (a\<lparr>status := (status a)(i := Answered c r)\<rparr>)"
| at_return: "status a i = Answered c r \<Longrightarrow>
    at_step seq reader a [Return i c r] (a\<lparr>status := (status a)(i := Idle)\<rparr>)"

inductive at_run :: "('c \<Rightarrow> 's \<Rightarrow> ('r \<times> 's) option) \<Rightarrow> ('c \<Rightarrow> bool) \<Rightarrow> ('s, 'c, 'r) object
    \<Rightarrow> ('c, 'r) visible list \<Rightarrow> ('s, 'c, 'r) object \<Rightarrow> bool" for seq reader a0 where
  at_nil: "at_run seq reader a0 [] a0"
| at_snoc: "at_run seq reader a0 tr a \<Longrightarrow> at_step seq reader a l a' \<Longrightarrow> at_run seq reader a0 (tr @ l) a'"

section \<open>Code that works under the mutex\<close>

text \<open>What the code of a critical section does when nothing else changes the memory.\<close>

primrec lone :: "('s, 'r) prog \<Rightarrow> 's \<Rightarrow> ('r \<times> 's) option" where
  "lone (Ret r) s = None"
| "lone (Act u k) s = lone (k (u s)) (u s)"
| "lone (Lock p) s = None"
| "lone (Unlock p) s = (case p of Ret r \<Rightarrow> Some (r, s) | _ \<Rightarrow> None)"
| "lone Panic s = None"

text \<open>A critical section keeps what is fixed about the memory, and returns after its end.\<close>

primrec guarded :: "('s \<Rightarrow> bool) \<Rightarrow> ('s, 'r) prog \<Rightarrow> bool" where
  "guarded good (Ret r) = False"
| "guarded good (Act u k) = (\<forall>s. good s \<longrightarrow> good (u s) \<and> guarded good (k (u s)))"
| "guarded good (Lock p) = False"
| "guarded good (Unlock p) = (\<exists>r. p = Ret r)"
| "guarded good Panic = True"

text \<open>Before the lock, a writer only reads; the section then does what the sequential call does.\<close>

primrec entry :: "('s \<Rightarrow> bool) \<Rightarrow> ('s \<Rightarrow> ('r \<times> 's) option) \<Rightarrow> ('s, 'r) prog \<Rightarrow> bool" where
  "entry good f (Ret r) = (\<forall>s. good s \<longrightarrow> f s = Some (r, s))"
| "entry good f (Act u k) = (u = id \<and> (\<forall>s. good s \<longrightarrow> entry good f (k s)))"
| "entry good f (Lock p) = (guarded good p \<and> (\<forall>s. good s \<longrightarrow> lone p s = f s))"
| "entry good f (Unlock p) = False"
| "entry good f Panic = False"

primrec reads :: "('s, 'r) prog \<Rightarrow> bool" where
  "reads (Ret r) = True"
| "reads (Act u k) = (u = id \<and> (\<forall>s. reads (k s)))"
| "reads (Lock p) = False"
| "reads (Unlock p) = False"
| "reads Panic = True"

lemma prog_load [simp]:
  "lone (load r k) s = lone (k (r s)) s" "reads (load r k) \<longleftrightarrow> (\<forall>s. reads (k (r s)))"
  "guarded good (load r k) \<longleftrightarrow> (\<forall>s. good s \<longrightarrow> guarded good (k (r s)))"
  "entry good f (load r k) \<longleftrightarrow> (\<forall>s. good s \<longrightarrow> entry good f (k (r s)))"
  by (simp_all add: load_def)

lemma prog_modify [simp]:
  "lone (modify u p) s = lone p (u s)" "guarded good (modify u p) \<longleftrightarrow> (\<forall>s. good s \<longrightarrow> good (u s) \<and> guarded good p)"
  by (simp_all add: modify_def)

section \<open>Goroutines that run to their end\<close>

text \<open>Code outside every critical section, when nothing else changes the memory.\<close>

primrec solo :: "('s, 'r) prog \<Rightarrow> 's \<Rightarrow> ('r \<times> 's) option" where
  "solo (Ret r) s = Some (r, s)"
| "solo (Act u k) s = solo (k (u s)) (u s)"
| "solo (Lock p) s = None"
| "solo (Unlock p) s = None"
| "solo Panic s = None"

lemma solo_load [simp]: "solo (load r k) s = solo (k (r s)) s"
  by (simp add: load_def)

lemma solo_modify [simp]: "solo (modify u p) s = solo p (u s)"
  by (simp add: modify_def)

abbreviation at_work :: "'s \<Rightarrow> nat option \<Rightarrow> (nat \<Rightarrow> ('c \<times> ('s, 'r) prog) option) \<Rightarrow> ('s, 'c, 'r) machine" where
  "at_work s ow g \<equiv> \<lparr>mem = s, owner = ow, goroutine = g\<rparr>"

lemma run_act:
  assumes "go_run code m0 tr (at_work s ow g)" and "g i = Some (c, Act u k)"
  shows "go_run code m0 tr (at_work (u s) ow (g(i \<mapsto> (c, k (u s)))))"
  using go_snoc [OF assms(1) go_act [of "at_work s ow g" i c u k]] assms(2) by simp

lemma run_read:
  assumes "go_run code m0 tr (at_work s ow g)"
  shows "g i = Some (c, Act id k) \<Longrightarrow> go_run code m0 tr (at_work s ow (g(i \<mapsto> (c, k s))))"
    and "g i = Some (c, load r l) \<Longrightarrow> go_run code m0 tr (at_work s ow (g(i \<mapsto> (c, l (r s)))))"
  using run_act [OF assms, of i c id] by (simp_all add: load_def del: fun_upd_apply)

lemma run_call:
  assumes "go_run code m0 tr (at_work s ow g)" and "g i = None"
  shows "go_run code m0 (tr @ [Call i c]) (at_work s ow (g(i \<mapsto> (c, code c))))"
  using go_snoc [OF assms(1) go_call [of "at_work s ow g" i code c]] assms(2) by simp

lemma run_return:
  assumes "go_run code m0 tr (at_work s ow g)" and "g i = Some (c, Ret r)"
  shows "go_run code m0 (tr @ [Return i c r]) (at_work s ow (g(i := None)))"
  using go_snoc [OF assms(1) go_return [of "at_work s ow g" i c r]] assms(2) by simp

lemma run_lone:
  assumes "lone p s = Some (r, s')" and "go_run code m0 tr (at_work s (Some i) g)" and "g i = Some (c, p)"
  shows "go_run code m0 tr (at_work s' None (g(i \<mapsto> (c, Ret r))))"
  using assms
proof (induction p arbitrary: s g)
  case (Act u k)
  then have step: "go_run code m0 tr (at_work (u s) (Some i) (g(i \<mapsto> (c, k (u s)))))" using run_act by fastforce
  have "lone (k (u s)) (u s) = Some (r, s')" using Act.prems(1) by simp
  from Act.IH [OF rangeI this step fun_upd_same] show ?case by (simp only: fun_upd_upd)
next
  case (Unlock p)
  then have "p = Ret r" "s' = s" by (auto split: prog.splits)
  then show ?case
    using go_snoc [OF Unlock.prems(2) go_unlock [of "at_work s (Some i) g" i c p]] Unlock.prems(3) by (simp del: fun_upd_apply)
qed simp_all

lemma run_solo:
  assumes "solo p s = Some (r, s')" and "go_run code m0 tr (at_work s ow g)" and "g i = Some (c, p)"
  shows "go_run code m0 tr (at_work s' ow (g(i \<mapsto> (c, Ret r))))"
  using assms
proof (induction p arbitrary: s g)
  case (Ret x)
  then show ?case by (simp add: fun_upd_idem)
next
  case (Act u k)
  then have step: "go_run code m0 tr (at_work (u s) ow (g(i \<mapsto> (c, k (u s)))))" using run_act by fastforce
  have "solo (k (u s)) (u s) = Some (r, s')" using Act.prems(1) by simp
  from Act.IH [OF rangeI this step fun_upd_same] show ?case by (simp only: fun_upd_upd)
qed simp_all

text \<open>A goroutine that waits for a free lock gets through its section.\<close>

lemma run_section:
  assumes "lone p s = Some (r, s')" and "go_run code m0 tr (at_work s None g)" and "g i = Some (c, Lock p)"
  shows "go_run code m0 tr (at_work s' None (g(i \<mapsto> (c, Ret r))))"
proof -
  have "go_run code m0 tr (at_work s (Some i) (g(i \<mapsto> (c, p))))"
    using go_snoc [OF assms(2) go_lock [of "at_work s None g" i c p]] assms(3) by simp
  from run_lone [OF assms(1) this] show ?thesis by simp
qed

text \<open>While the lock is free, a writer can always go on to its return, with the sequential answer.\<close>

lemma entry_returns:
  assumes "entry good f p" and "good s" and "f s = Some (r, s')"
    and "go_run code m0 tr (at_work s None g)" and "g i = Some (c, p)"
  shows "go_run code m0 tr (at_work s' None (g(i \<mapsto> (c, Ret r))))"
  using assms
proof (induction p arbitrary: g)
  case (Ret x)
  then show ?case by (simp add: fun_upd_idem)
next
  case (Act u k)
  then have u: "u s = s" "entry good f (k s)" by simp_all
  then have step: "go_run code m0 tr (at_work s None (g(i \<mapsto> (c, k s))))" using run_act [OF Act.prems(4,5)] by simp
  from Act.IH [OF rangeI u(2) Act.prems(2,3) step fun_upd_same] show ?case by (simp only: fun_upd_upd)
next
  case (Lock p)
  then have "lone p s = Some (r, s')" by simp
  from run_section [OF this Lock.prems(4,5)] show ?case .
qed simp_all

section \<open>Atomicity\<close>

locale locked_object =
  fixes code :: "'c \<Rightarrow> ('s, 'r) prog" and seq :: "'c \<Rightarrow> 's \<Rightarrow> ('r \<times> 's) option"
    and reader :: "'c \<Rightarrow> bool" and good :: "'s \<Rightarrow> bool"
  assumes writer_code: "\<not> reader c \<Longrightarrow> entry good (seq c) (code c)"
    and reader_code: "reader c \<Longrightarrow> reads (code c)"
begin

definition outside :: "'c \<Rightarrow> ('s, 'r) prog \<Rightarrow> ('c, 'r) status \<Rightarrow> bool" where
  "outside c p st \<longleftrightarrow>
     st = Pending c \<and> (if reader c then reads p else entry good (seq c) p) \<or> (\<exists>r. p = Ret r \<and> st = Answered c r)"

definition sim :: "('s, 'c, 'r) machine \<Rightarrow> ('s, 'c, 'r) object \<Rightarrow> bool" where
  "sim m a \<longleftrightarrow>
     good (mem m) \<and> good (amem a) \<and> (owner m = None \<longrightarrow> mem m = amem a)
     \<and> (\<forall>i. goroutine m i = None \<longrightarrow> status a i = Idle \<and> owner m \<noteq> Some i)
     \<and> (\<forall>i c p. goroutine m i = Some (c, p) \<longrightarrow>
          (if owner m = Some i
           then status a i = Pending c \<and> \<not> reader c \<and> guarded good p \<and> lone p (mem m) = seq c (amem a)
           else outside c p (status a i)))"

lemma simD:
  assumes "sim m a"
  shows "good (mem m)" "good (amem a)" "owner m = None \<Longrightarrow> mem m = amem a"
    and "goroutine m i = None \<Longrightarrow> status a i = Idle" "goroutine m i = None \<Longrightarrow> owner m \<noteq> Some i"
    and "goroutine m i = Some (c, p) \<Longrightarrow> owner m \<noteq> Some i \<Longrightarrow> outside c p (status a i)"
    and "goroutine m i = Some (c, p) \<Longrightarrow> owner m = Some i \<Longrightarrow>
      status a i = Pending c \<and> \<not> reader c \<and> guarded good p \<and> lone p (mem m) = seq c (amem a)"
  using assms by (auto simp: sim_def)

text \<open>A step of one goroutine leaves the others as they are.\<close>

lemma sim_goroutine:
  assumes "sim m a" and "good (mem m')" and "good (amem a')" and "owner m' = None \<Longrightarrow> mem m' = amem a'"
    and "\<And>j. j \<noteq> i \<Longrightarrow> (owner m' = Some j \<longleftrightarrow> owner m = Some j) \<and> goroutine m' j = goroutine m j \<and> status a' j = status a j"
    and "\<And>j. owner m = Some j \<Longrightarrow> j \<noteq> i \<Longrightarrow> mem m' = mem m \<and> amem a' = amem a"
    and "case goroutine m' i of None \<Rightarrow> status a' i = Idle \<and> owner m' \<noteq> Some i
      | Some (c, p) \<Rightarrow> if owner m' = Some i
          then status a' i = Pending c \<and> \<not> reader c \<and> guarded good p \<and> lone p (mem m') = seq c (amem a')
          else outside c p (status a' i)"
  shows "sim m' a'"
  unfolding sim_def
proof (intro conjI allI impI)
  fix j
  show "status a' j = Idle" "owner m' \<noteq> Some j" if "goroutine m' j = None"
    using that assms(5) [of j] assms(7) simD(4,5) [OF assms(1), of j] by (cases "j = i"; auto)+
  fix c p
  assume "goroutine m' j = Some (c, p)"
  then show "if owner m' = Some j
      then status a' j = Pending c \<and> \<not> reader c \<and> guarded good p \<and> lone p (mem m') = seq c (amem a')
      else outside c p (status a' j)"
    using assms(5,6) [of j] assms(7) simD(6,7) [OF assms(1), of j c p] by (cases "j = i") auto
qed (use assms in auto)

lemma step_sim:
  assumes "go_step code m l m'" and "sim m a" and "at_run seq reader a0 tr a"
  shows "\<exists>a'. at_run seq reader a0 (tr @ l) a' \<and> sim m' a'"
  using assms(1)
proof cases
  case (go_call i c)
  let ?a = "a\<lparr>status := (status a)(i := Pending c)\<rparr>"
  have "at_run seq reader a0 (tr @ l) ?a"
    using at_snoc [OF assms(3) at_call] simD(4) [OF assms(2) go_call(3)] go_call(1) by metis
  moreover have "outside c (code c) (Pending c)" using writer_code reader_code by (simp add: outside_def)
  then have "sim m' ?a"
    by (intro sim_goroutine [OF assms(2), where i = i]) (use simD(1-3,5) [OF assms(2)] go_call in auto)
  ultimately show ?thesis by blast
next
  case (go_return i c r)
  then have out: "owner m \<noteq> Some i" "outside c (Ret r) (status a i)" using simD(6,7) [OF assms(2)] by fastforce+
  let ?a = "\<lparr>amem = amem a, status = (status a)(i := Idle)\<rparr>"
  consider "status a i = Answered c r" | "status a i = Pending c" "reader c"
    | "status a i = Pending c" "\<not> reader c" "seq c (amem a) = Some (r, amem a)"
    using out(2) simD(2) [OF assms(2)] by (auto simp: outside_def split: if_splits)
  then have "\<exists>a1. at_run seq reader a0 tr a1 \<and> status a1 i = Answered c r \<and> a1\<lparr>status := (status a1)(i := Idle)\<rparr> = ?a"
  proof cases
    case 1
    then show ?thesis using assms(3) by (intro exI [of _ a]) simp
  next
    case 2
    from at_snoc [OF assms(3) at_read [where reader = reader and r = r, OF 2]] show ?thesis
      by (intro exI [of _ "a\<lparr>status := (status a)(i := Answered c r)\<rparr>"]) simp
  next
    case 3
    from at_snoc [OF assms(3) at_exec [where reader = reader and seq = seq, OF 3]] show ?thesis
      by (intro exI [of _ "a\<lparr>amem := amem a, status := (status a)(i := Answered c r)\<rparr>"]) simp
  qed
  then have "at_run seq reader a0 (tr @ l) ?a" using at_snoc at_return go_return(1) by metis
  moreover have "sim m' ?a"
    by (intro sim_goroutine [OF assms(2), where i = i]) (use simD(1-3) [OF assms(2)] go_return out(1) in auto)
  ultimately show ?thesis by blast
next
  case (go_act i c u k)
  let ?s = "u (mem m)"
  have good: "good ?s" and own: "owner m = Some i \<Longrightarrow> status a i = Pending c \<and> \<not> reader c \<and> guarded good (k ?s) \<and> lone (k ?s) ?s = seq c (amem a)"
    and other: "owner m \<noteq> Some i \<Longrightarrow> ?s = mem m \<and> outside c (k ?s) (status a i)"
    using simD(1) [OF assms(2)] simD(6,7) [OF assms(2) go_act(3)]
    by (cases "owner m = Some i"; auto simp: outside_def split: if_splits)+
  have "sim m' a"
    by (intro sim_goroutine [OF assms(2), where i = i]) (use simD(2,3) [OF assms(2)] go_act good own other in auto)
  then show ?thesis using assms(3) go_act(1) by auto
next
  case (go_lock i c p)
  then have "outside c (Lock p) (status a i)" using simD(6) [OF assms(2)] by simp
  then have "status a i = Pending c" "\<not> reader c" "guarded good p" "lone p (mem m) = seq c (amem a)"
    using simD(1,3) [OF assms(2)] go_lock(4) by (auto simp: outside_def split: if_splits)
  then have "sim m' a"
    by (intro sim_goroutine [OF assms(2), where i = i]) (use simD(1-3) [OF assms(2)] go_lock in auto)
  then show ?thesis using assms(3) go_lock(1) by auto
next
  case (go_unlock i c p)
  from simD(7) [OF assms(2) go_unlock(3,4)] obtain r where r: "p = Ret r" "status a i = Pending c" "\<not> reader c"
    "seq c (amem a) = Some (r, mem m)" by auto
  let ?a = "a\<lparr>amem := mem m, status := (status a)(i := Answered c r)\<rparr>"
  have "sim m' ?a"
    by (intro sim_goroutine [OF assms(2), where i = i]) (use simD(1) [OF assms(2)] go_unlock r(1) in \<open>auto simp: outside_def\<close>)
  then show ?thesis
    using at_snoc [OF assms(3) at_exec [where reader = reader and seq = seq, OF r(2-4)]] go_unlock(1) by auto
qed

theorem linearizable:
  assumes "go_run code (go_init s) tr m" and "good s"
  shows "\<exists>a. at_run seq reader (at_init s) tr a \<and> sim m a"
  using assms(1)
proof induction
  case go_nil
  have "sim (go_init s) (at_init s)" using assms(2) by (simp add: sim_def go_init_def at_init_def)
  then show ?case using at_nil by blast
next
  case (go_snoc tr m l m')
  then show ?case using step_sim by blast
qed

end

end
