(* ===== verification/VSA_Threads.thy ===== *)
theory VSA_Threads
  imports VSA_Runs Goroutines
begin

text \<open>
  The calls of vsa.go as the atomic operations they are made of, for goroutines that share a VSA:
  every load of a stripe or a sum, every addition and the two ends of the critical section are steps
  of their own. Fields that only the constructor writes are read together with the operation before
  which the code reads them. The fields \<open>rr\<close> and \<open>groupRR\<close> are plain fields, which the code uses
  under the mutex only.
\<close>

section \<open>The code of the calls\<close>

datatype vsa_call =
    CConsume i64
  | CRefund i64
  | CCommit i64
  | CAvailable
  | CState
  | CCheckCommit i64

datatype vsa_answer =
    Flag bool
  | Nothing
  | Amount i64
  | Pair_of i64 i64
  | Check bool i64

type_synonym vsa_prog = "(vsa, vsa_answer) prog"

text \<open>A loop that adds up atomic loads.\<close>

fun sum_loads :: "('s \<Rightarrow> i64) list \<Rightarrow> i64 \<Rightarrow> (i64 \<Rightarrow> ('s, 'r) prog) \<Rightarrow> ('s, 'r) prog" where
  "sum_loads [] acc k = k acc"
| "sum_loads (r # rs) acc k = load r (\<lambda>x. sum_loads rs (acc + x) k)"

definition vector_loads :: "vsa \<Rightarrow> (vsa \<Rightarrow> i64) list" where
  "vector_loads v =
     (if 0 <s hGroups v then map (\<lambda>i w. hGroupSum w ! i) [0..<unat (hGroups v)]
      else map (\<lambda>i w. stripes w ! i) [0..<length (stripes v)])"

definition currentVector_code :: "(i64 \<Rightarrow> vsa_prog) \<Rightarrow> vsa_prog" where
  "currentVector_code k =
     Act id (\<lambda>v. sum_loads (vector_loads v) 0 (\<lambda>sum. load committedOffset (\<lambda>off. k (sum - off))))"

text \<open>The three additions of a reservation.\<close>

definition add_stripe :: "i64 \<Rightarrow> i64 \<Rightarrow> vsa \<Rightarrow> vsa" where
  "add_stripe idx d v = v\<lparr>stripes := (stripes v)[unat idx := stripes v ! unat idx + d]\<rparr>"

definition add_group :: "i64 \<Rightarrow> i64 \<Rightarrow> vsa \<Rightarrow> vsa" where
  "add_group g d v = v\<lparr>hGroupSum := (hGroupSum v)[unat g := hGroupSum v ! unat g + d]\<rparr>"

definition add_approx :: "i64 \<Rightarrow> vsa \<Rightarrow> vsa" where
  "add_approx d v = v\<lparr>approxNet := approxNet v + d\<rparr>"

definition addStripe_code :: "i64 \<Rightarrow> i64 \<Rightarrow> vsa_prog \<Rightarrow> vsa_prog" where
  "addStripe_code idx d p =
     Act id (\<lambda>v.
       if unat idx < length (stripes v) then
         modify (add_stripe idx d) (Act id (\<lambda>v.
           if 0 <s hGroups v then
             if hStride v = 0 then Panic
             else let g = go_div idx (hStride v)
                  in if unat g < length (hGroupSum v) then modify (add_group g d) (modify (add_approx d) p) else Panic
           else modify (add_approx d) p))
       else Panic)"

text \<open>The exact gate, and the gate with its cached and grouped variants.\<close>

definition exact_gate_code :: "i64 \<Rightarrow> vsa_prog \<Rightarrow> vsa_prog \<Rightarrow> vsa_prog" where
  "exact_gate_code n admit deny =
     load scalar (\<lambda>s. currentVector_code (\<lambda>net. if s - abs_i64 net <s n then deny else admit))"

definition gate_code :: "i64 \<Rightarrow> vsa_prog \<Rightarrow> vsa_prog \<Rightarrow> vsa_prog" where
  "gate_code n admit deny =
     Act id (\<lambda>v.
       if useCachedGate v then
         load scalar (\<lambda>s. load cachedNet (\<lambda>c. if s - abs_i64 c - cacheSlack v <s n then deny else admit))
       else if 1 <s groupCount v then
         let len = word_of_nat (length (stripes v)) :: i64;
             start = go_mod (groupRR v * groupStride v) len;
             end = start + groupStride v;
             end = (if len <s end then len else end)
         in if len = 0 \<or> end - start = 0 \<or> (start <s end \<and> start <s 0) then Panic
            else modify (\<lambda>w. w\<lparr>groupRR := groupRR w + 1\<rparr>)
              (sum_loads (map (\<lambda>i w. stripes w ! i) [unat start..<unat end]) 0 (\<lambda>partial.
                 load committedOffset (\<lambda>off.
                   let netEst = go_div (partial * len) (end - start) - off
                   in load scalar (\<lambda>s.
                        if s - abs_i64 netEst - cacheSlack v <s n then exact_gate_code n admit deny else admit))))
       else exact_gate_code n admit deny)"

text \<open>The reservation under the mutex, with the round-robin index.\<close>

definition reserve_code :: "i64 \<Rightarrow> vsa_prog" where
  "reserve_code d =
     Act id (\<lambda>v. modify (\<lambda>w. w\<lparr>rr := rr w + 1\<rparr>) (addStripe_code (rr v AND mask_v v) d (Unlock (Ret (Flag True)))))"

definition TryConsume_code :: "i64 \<Rightarrow> vsa_prog" where
  "TryConsume_code n =
     (if n \<le>s 0 then Ret (Flag False)
      else let slow = Lock (gate_code n (reserve_code n) (Unlock (Ret (Flag False))))
           in Act id (\<lambda>v.
                if 0 <s fastPathGuard v then
                  load scalar (\<lambda>s. load approxNet (\<lambda>approx.
                    if n + fastPathGuard v \<le>s s - abs_i64 approx then
                      Act (\<lambda>w. w\<lparr>chooser := chooser w + 1\<rparr>) (\<lambda>w. addStripe_code (chooser w AND mask_v w) n (Ret (Flag True)))
                    else slow))
                else slow))"

definition TryRefund_code :: "i64 \<Rightarrow> vsa_prog" where
  "TryRefund_code n =
     (if n \<le>s 0 then Ret (Flag False)
      else Lock (currentVector_code (\<lambda>net.
             if net \<le>s 0 then Unlock (Ret (Flag False)) else reserve_code (- (if net <s n then net else n)))))"

definition Commit_code :: "i64 \<Rightarrow> vsa_prog" where
  "Commit_code committedVector =
     (if committedVector = 0 then Ret Nothing
      else Lock (currentVector_code (\<lambda>net.
             if net = 0 then Unlock (Ret Nothing)
             else let mag = abs_i64 committedVector;
                      mag = (if abs_i64 net <s mag then abs_i64 net else mag);
                      delta = (if 0 <s net then mag else - mag)
                  in modify (\<lambda>w. w\<lparr>scalar := scalar w + - abs_i64 delta\<rparr>)
                       (modify (\<lambda>w. w\<lparr>committedOffset := committedOffset w + delta\<rparr>)
                         (modify (add_approx (- delta)) (Unlock (Ret Nothing)))))))"

text \<open>The readers take no lock.\<close>

definition Available_code :: vsa_prog where
  "Available_code = load scalar (\<lambda>s. currentVector_code (\<lambda>net. Ret (Amount (s - abs_i64 net))))"

definition State_code :: vsa_prog where
  "State_code = load scalar (\<lambda>s. currentVector_code (\<lambda>net. Ret (Pair_of s net)))"

definition CheckCommit_code :: "i64 \<Rightarrow> vsa_prog" where
  "CheckCommit_code threshold =
     currentVector_code (\<lambda>net. Ret (if threshold \<le>s abs_i64 net then Check True net else Check False 0))"

fun vsa_code :: "vsa_call \<Rightarrow> vsa_prog" where
  "vsa_code (CConsume n) = TryConsume_code n"
| "vsa_code (CRefund n) = TryRefund_code n"
| "vsa_code (CCommit c) = Commit_code c"
| "vsa_code CAvailable = Available_code"
| "vsa_code CState = State_code"
| "vsa_code (CCheckCommit t) = CheckCommit_code t"

section \<open>The calls at one instant\<close>

fun vsa_seq :: "vsa_call \<Rightarrow> vsa \<Rightarrow> (vsa_answer \<times> vsa) option" where
  "vsa_seq (CConsume n) v = map_option (\<lambda>(b, v'). (Flag b, v')) (TryConsume n v)"
| "vsa_seq (CRefund n) v = map_option (\<lambda>(b, v'). (Flag b, v')) (TryRefund n v)"
| "vsa_seq (CCommit c) v = Some (Nothing, Commit c v)"
| "vsa_seq CAvailable v = Some (Amount (Available v), v)"
| "vsa_seq CState v = Some (Pair_of (scalar v) (currentVector v), v)"
| "vsa_seq (CCheckCommit t) v = Some (case CheckCommit t v of (b, x) \<Rightarrow> Check b x, v)"

fun lock_free :: "vsa_call \<Rightarrow> bool" where
  "lock_free CAvailable = True"
| "lock_free CState = True"
| "lock_free (CCheckCommit t) = True"
| "lock_free c = False"

text \<open>The fast path is off.\<close>

definition no_fast_path :: "vsa \<Rightarrow> bool" where
  "no_fast_path v \<longleftrightarrow> \<not> 0 <s fastPathGuard v"

section \<open>The code under the mutex\<close>

lemma lone_sum: "lone (sum_loads rs acc k) s = lone (k (foldl (+) acc (map (\<lambda>r. r s) rs))) s"
  by (induction rs arbitrary: acc) simp_all

lemma guarded_sum: "(\<And>x. guarded good (k x)) \<Longrightarrow> guarded good (sum_loads rs acc k)"
  by (induction rs arbitrary: acc) simp_all

lemma reads_sum: "(\<And>x. reads (k x)) \<Longrightarrow> reads (sum_loads rs acc k)"
  by (induction rs arbitrary: acc) simp_all

lemma vector_loads_sum: "foldl (+) 0 (map (\<lambda>r. r v) (vector_loads v)) - committedOffset v = currentVector v"
proof -
  have "map (\<lambda>r. r v) (map (\<lambda>i w. stripes w ! i) [0..<length (stripes v)]) = stripes v"
    by (simp add: comp_def map_nth)
  then show ?thesis by (simp add: vector_loads_def currentVector_def comp_def)
qed

lemma lone_currentVector [simp]: "lone (currentVector_code k) v = lone (k (currentVector v)) v"
  by (simp add: currentVector_code_def lone_sum vector_loads_sum)

lemma guarded_currentVector: "(\<And>x. guarded good (k x)) \<Longrightarrow> guarded good (currentVector_code k)"
  by (simp add: currentVector_code_def guarded_sum)

lemma reads_currentVector: "(\<And>x. reads (k x)) \<Longrightarrow> reads (currentVector_code k)"
  by (simp add: currentVector_code_def reads_sum)

lemma no_fast_path_writes [simp]:
  "no_fast_path (add_stripe i d v) = no_fast_path v" "no_fast_path (add_group g d v) = no_fast_path v"
  "no_fast_path (add_approx d v) = no_fast_path v" "no_fast_path (v\<lparr>rr := x\<rparr>) = no_fast_path v"
  "no_fast_path (v\<lparr>groupRR := y\<rparr>) = no_fast_path v" "no_fast_path (v\<lparr>scalar := z\<rparr>) = no_fast_path v"
  "no_fast_path (v\<lparr>committedOffset := z\<rparr>) = no_fast_path v" "no_fast_path (v\<lparr>approxNet := z\<rparr>) = no_fast_path v"
  by (simp_all add: no_fast_path_def add_stripe_def add_group_def add_approx_def)

lemmas write_defs = add_stripe_def add_group_def add_approx_def

lemma lone_reserve: "lone (reserve_code d) v = map_option (Pair (Flag True)) (addStripe (rr v AND mask_v v) d (v\<lparr>rr := rr v + 1\<rparr>))"
  by (simp add: reserve_code_def addStripe_code_def addStripe_def write_defs Let_def)

lemma guarded_reserve: "guarded no_fast_path (reserve_code d)"
  by (simp add: reserve_code_def addStripe_code_def Let_def)

lemma lone_exact_gate:
  "lone (exact_gate_code n admit deny) v = (if n \<le>s scalar v - abs_i64 (currentVector v) then lone admit v else lone deny v)"
  by (simp add: exact_gate_code_def sle_iff slt_iff)

lemma guarded_exact_gate: "guarded good admit \<Longrightarrow> guarded good deny \<Longrightarrow> guarded good (exact_gate_code n admit deny)"
  by (simp add: exact_gate_code_def guarded_currentVector)

lemma lone_gate:
  "lone (gate_code n admit deny) v =
     (case tryConsumeGate n v of None \<Rightarrow> None | Some (b, v') \<Rightarrow> if b then lone admit v' else lone deny v')"
  by (auto simp: gate_code_def tryConsumeGate_def groupScan_def lone_sum lone_exact_gate Let_def comp_def sle_iff slt_iff
      currentVector_def)

lemma guarded_gate:
  assumes "guarded no_fast_path admit" "guarded no_fast_path deny"
  shows "guarded no_fast_path (gate_code n admit deny)"
  using assms by (simp add: gate_code_def Let_def guarded_sum guarded_exact_gate)

lemma lock_free_reads: "lock_free c \<Longrightarrow> reads (vsa_code c)"
  by (cases c) (simp_all add: Available_code_def State_code_def CheckCommit_code_def reads_currentVector)

lemma lone_slow:
  assumes "\<not> n \<le>s 0" and "\<not> fastPath n v"
  shows "lone (gate_code n (reserve_code n) (Unlock (Ret (Flag False)))) v = vsa_seq (CConsume n) v"
  using assms by (auto simp: lone_gate lone_reserve TryConsume_def option.map_comp comp_def split: option.split)

lemma writer_entry: "\<not> lock_free c \<Longrightarrow> entry no_fast_path (vsa_seq c) (vsa_code c)"
proof (cases c)
  case (CConsume n)
  have "lone (gate_code n (reserve_code n) (Unlock (Ret (Flag False)))) v = vsa_seq (CConsume n) v"
    if "\<not> n \<le>s 0" "no_fast_path v" for v
    using lone_slow [OF that(1)] that(2) by (simp add: fastPath_def no_fast_path_def)
  then have "entry no_fast_path (vsa_seq (CConsume n)) (Lock (gate_code n (reserve_code n) (Unlock (Ret (Flag False)))))"
    if "\<not> n \<le>s 0" using that by (simp add: guarded_gate guarded_reserve)
  moreover have "entry no_fast_path (vsa_seq (CConsume n)) (Ret (Flag False))" if "n \<le>s 0"
    using that by (simp add: TryConsume_def)
  ultimately show ?thesis
    using CConsume by (simp add: TryConsume_code_def Let_def no_fast_path_def del: entry.simps(1,3))
next
  case (CRefund n)
  have "lone (currentVector_code (\<lambda>net. if net \<le>s 0 then Unlock (Ret (Flag False)) else reserve_code (- (if net <s n then net else n)))) v
      = vsa_seq (CRefund n) v" if "\<not> n \<le>s 0" for v
    using that by (auto simp: lone_reserve TryRefund_def Let_def option.map_comp comp_def)
  then show ?thesis
    using CRefund by (auto simp: TryRefund_code_def TryRefund_def guarded_currentVector guarded_reserve)
next
  case (CCommit c)
  then show ?thesis
    by (auto simp: Commit_code_def Commit_def Let_def guarded_currentVector write_defs intro!: guarded_currentVector)
qed simp_all

interpretation vsa_threads: locked_object vsa_code vsa_seq lock_free no_fast_path
  by unfold_locales (simp_all add: writer_entry lock_free_reads)

section \<open>What the goroutines were granted\<close>

text \<open>
  The units granted by the returns of a trace, the refunds it asked for, and what a call that has not
  returned still adds to them.
\<close>

fun granted :: "(vsa_call, vsa_answer) visible \<Rightarrow> int" where
  "granted (Return i (CConsume n) (Flag True)) = max 0 (sint n)"
| "granted l = 0"

fun refund_asked :: "(vsa_call, vsa_answer) visible \<Rightarrow> int" where
  "refund_asked (Call i (CRefund n)) = max 0 (sint n)"
| "refund_asked l = 0"

fun held :: "(vsa_call, vsa_answer) status \<Rightarrow> int" where
  "held (Answered (CConsume n) (Flag True)) = max 0 (sint n)"
| "held (Pending (CRefund n)) = max 0 (sint n)"
| "held st = 0"

lemma held_nonneg: "0 \<le> held st"
  by (cases st rule: held.cases) simp_all

definition held_all :: "(nat \<Rightarrow> (vsa_call, vsa_answer) status) \<Rightarrow> int" where
  "held_all st = (\<Sum>i \<in> {i. st i \<noteq> Idle}. held (st i))"

lemma held_update:
  assumes "finite {i. st i \<noteq> Idle}"
  shows "held_all (st(i := x)) = held_all st - held (st i) + held x" and "finite {j. (st(i := x)) j \<noteq> Idle}"
proof -
  let ?F = "insert i {i. st i \<noteq> Idle}"
  have sub: "{j. (st(i := x)) j \<noteq> Idle} \<subseteq> ?F" by auto
  then show "finite {j. (st(i := x)) j \<noteq> Idle}" using assms by (meson finite.insertI finite_subset)
  have all: "held_all f = (\<Sum>j \<in> ?F. held (f j))" if "{j. f j \<noteq> Idle} \<subseteq> ?F" for f
    unfolding held_all_def using that assms by (intro sum.mono_neutral_left) auto
  have "(\<Sum>j \<in> ?F - {i}. held ((st(i := x)) j)) = (\<Sum>j \<in> ?F - {i}. held (st j))" by (intro sum.cong) auto
  then show "held_all (st(i := x)) = held_all st - held (st i) + held x"
    unfolding all [OF sub] all [OF subset_insertI]
    using assms by (simp add: sum.remove [of ?F i] del: Diff_insert_absorb insert_Diff_single)
qed

definition from_trace :: "(vsa_call, vsa_answer) visible list \<Rightarrow> vsa_event \<Rightarrow> bool" where
  "from_trace tr ev = (case ev of EvConsume n b \<Rightarrow> True | EvRefund n r \<Rightarrow> True | EvCommit c \<Rightarrow> \<exists>i. Call i (CCommit c) \<in> set tr | _ \<Rightarrow> False)"

text \<open>The calls of a run at one instant, as a run of the VSA.\<close>

definition accounted :: "vsa \<Rightarrow> (vsa_call, vsa_answer) visible list \<Rightarrow> (vsa, vsa_call, vsa_answer) object \<Rightarrow> vsa_event list \<Rightarrow> bool" where
  "accounted v0 tr a es \<longleftrightarrow>
     vsa_run v0 es (amem a) \<and> finite {i. status a i \<noteq> Idle}
     \<and> sum_list (map granted tr) + held_all (status a) \<le> usage es + sum_list (map refund_asked tr)
     \<and> (\<forall>i c. status a i = Pending c \<longrightarrow> Call i c \<in> set tr) \<and> (\<forall>ev \<in> set es. from_trace tr ev)"

lemma exec_event:
  assumes "\<not> lock_free c" and "vsa_seq c v = Some (r, v')"
  shows "\<exists>ev. vsa_step v ev v' \<and> held (Answered c r) - held (Pending c) \<le> event_usage ev
    \<and> (\<forall>tr. Call i c \<in> set tr \<longrightarrow> from_trace tr ev)"
proof (cases c)
  case (CConsume n)
  then obtain b where b: "TryConsume n v = Some (b, v')" "r = Flag b" using assms(2) by auto
  then have "b \<Longrightarrow> 0 < sint n" by (auto simp: TryConsume_def sle_iff split: if_splits)
  then show ?thesis
    using step_consume [OF b(1)] b(2) CConsume by (intro exI [of _ "EvConsume n b"]) (auto simp: from_trace_def)
next
  case (CRefund n)
  then obtain b where b: "TryRefund n v = Some (b, v')" "r = Flag b" using assms(2) by auto
  then show ?thesis
    using step_refund [OF b(1)] CRefund by (intro exI) (auto simp: from_trace_def)
next
  case (CCommit d)
  then show ?thesis
    using step_commit [of v d] assms(2) by (intro exI [of _ "EvCommit d"]) (auto simp: from_trace_def)
qed (use assms in simp_all)

lemma accounted_step:
  assumes "at_step vsa_seq lock_free a l a'" and "accounted v0 tr a es"
  shows "\<exists>es'. accounted v0 (tr @ l) a' es'"
proof -
  have fin: "finite {i. status a i \<noteq> Idle}" and run: "vsa_run v0 es (amem a)"
    and le: "sum_list (map granted tr) + held_all (status a) \<le> usage es + sum_list (map refund_asked tr)"
    and pend: "\<And>i c. status a i = Pending c \<Longrightarrow> Call i c \<in> set tr" and tr: "\<forall>ev \<in> set es. from_trace tr ev"
    using assms(2) by (auto simp: accounted_def)
  have from_more: "from_trace (tr @ l) ev" if "from_trace tr ev" for ev
    using that by (auto simp: from_trace_def split: vsa_event.splits)
  from assms(1) show ?thesis
  proof cases
    case (at_call i c)
    have "granted (Call i c) = 0" "held (Pending c) = refund_asked (Call i c)" by (cases c; simp)+
    then have "accounted v0 (tr @ l) a' es"
      using at_call fin run le pend tr from_more held_update [OF fin, of i "Pending c"] by (auto simp: accounted_def)
    then show ?thesis ..
  next
    case (at_exec i c r s)
    obtain ev where ev: "vsa_step (amem a) ev s" "held (Answered c r) - held (Pending c) \<le> event_usage ev" "from_trace tr ev"
      using exec_event [OF at_exec(4,5), of i] pend [OF at_exec(3)] by blast
    have "accounted v0 (tr @ l) a' (es @ [ev])"
      using at_exec fin run_snoc [OF run ev(1)] le pend tr ev(2,3) held_update [OF fin, of i "Answered c r"]
      by (auto simp: accounted_def)
    then show ?thesis ..
  next
    case (at_read i c r)
    then have "held (Answered c r) = 0" "held (Pending c) = 0" by (cases c; simp)+
    then have "accounted v0 (tr @ l) a' es"
      using at_read fin run le pend tr held_update [OF fin, of i "Answered c r"] by (auto simp: accounted_def)
    then show ?thesis ..
  next
    case (at_return i c r)
    have "granted (Return i c r) = held (Answered c r)" "refund_asked (Return i c r) = 0"
      by (cases "Return i c r" rule: granted.cases; simp)+
    then have "accounted v0 (tr @ l) a' es"
      using at_return fin run le pend tr from_more held_update [OF fin, of i Idle] by (auto simp: accounted_def)
    then show ?thesis ..
  qed
qed

lemma at_run_accounted:
  assumes "at_run vsa_seq lock_free (at_init v0) tr a"
  shows "\<exists>es. accounted v0 tr a es"
  using assms
proof induction
  case at_nil
  have "accounted v0 [] (at_init v0) []" by (simp add: accounted_def at_init_def run_nil held_all_def)
  then show ?case ..
next
  case (at_snoc tr a l a')
  then show ?case using accounted_step by blast
qed

end
