(* ===== verification/Thread_Props.thy ===== *)
theory Thread_Props
  imports VSA_Threads
begin

text \<open>
  What holds of a VSA under any interleaving of the atomic operations of any number of goroutines,
  and the two races of its lock-free parts with a commit.
\<close>

lemma New_no_fast_path: "\<not> 0 <s FastPathGuard opts \<Longrightarrow> no_fast_path (NewWithOptions p S opts)"
  by (simp add: no_fast_path_def construct_defs)

lemma New_guard_off: "\<not> 0 <s FastPathGuard opts \<Longrightarrow> fastPathGuard (NewWithOptions p S opts) = 0"
  by (simp add: construct_defs)

section \<open>Runs\<close>

lemma go_start: "go_run code (go_init s) [] (at_work s None (\<lambda>_. None))"
  using go_nil [of code "go_init s"] by (simp add: go_init_def)

text \<open>A call of a writer from its start to its return, while the lock is free and the fast path is off.\<close>

lemma whole_call:
  assumes "go_run vsa_code m0 tr (at_work v None g)" and "g i = None" and "\<not> lock_free c" and "no_fast_path v"
    and "vsa_seq c v = Some (r, v')"
  shows "go_run vsa_code m0 (tr @ [Call i c, Return i c r]) (at_work v' None g)"
proof -
  have "go_run vsa_code m0 (tr @ [Call i c]) (at_work v' None (g(i \<mapsto> (c, vsa_code c), i \<mapsto> (c, Ret r))))"
    by (rule entry_returns [OF writer_entry [OF assms(3)] assms(4,5) run_call [OF assms(1,2)]]) simp
  from run_return [OF this, of i c r] show ?thesis using assms(2) by (simp add: fun_upd_idem)
qed

text \<open>Two requests that overlap: the second one is served first.\<close>

lemma overlapping_run:
  assumes "no_fast_path v0" and "TryConsume b v0 = Some (rb, v1)" and "no_fast_path v1" and "TryConsume a v1 = Some (ra, v2)"
  shows "go_run vsa_code (go_init v0)
    [Call 0 (CConsume a), Call 1 (CConsume b), Return 1 (CConsume b) (Flag rb), Return 0 (CConsume a) (Flag ra)]
    (at_work v2 None (\<lambda>_. None))"
proof -
  let ?g = "[0 \<mapsto> (CConsume a, vsa_code (CConsume a))] :: nat \<Rightarrow> (vsa_call \<times> vsa_prog) option"
  have "go_run vsa_code (go_init v0) [Call 0 (CConsume a)] (at_work v0 None ?g)"
    using run_call [OF go_start [of vsa_code v0], of 0 "CConsume a"] by simp
  from whole_call [OF this, of 1 "CConsume b" "Flag rb" v1] assms(1,2)
  have "go_run vsa_code (go_init v0) [Call 0 (CConsume a), Call 1 (CConsume b), Return 1 (CConsume b) (Flag rb)] (at_work v1 None ?g)"
    by simp
  from entry_returns [OF writer_entry assms(3) _ this, of "CConsume a" "Flag ra" v2 0] assms(4)
  have "go_run vsa_code (go_init v0) [Call 0 (CConsume a), Call 1 (CConsume b), Return 1 (CConsume b) (Flag rb)]
      (at_work v2 None [0 \<mapsto> (CConsume a, Ret (Flag ra))])"
    by simp
  from run_return [OF this, of 0 "CConsume a" "Flag ra"] show ?thesis by (simp add: fun_upd_idem)
qed

abbreviation contended_vsa :: vsa where
  "contended_vsa \<equiv> NewWithOptions 4 10 default_options"

lemma example_overlap:
  obtains v where "go_run vsa_code (go_init contended_vsa)
    [Call 0 (CConsume 3), Call 1 (CConsume 9), Return 1 (CConsume 9) (Flag True), Return 0 (CConsume 3) (Flag False)]
    (at_work v None (\<lambda>_. None))"
proof -
  have "case TryConsume 9 contended_vsa of None \<Rightarrow> False
    | Some (b, v1) \<Rightarrow> b \<and> no_fast_path v1 \<and> map_option fst (TryConsume 3 v1) = Some False" by code_simp
  then obtain v1 v2 where "TryConsume 9 contended_vsa = Some (True, v1)" "no_fast_path v1" "TryConsume 3 v1 = Some (False, v2)"
    by (auto split: option.splits)
  moreover have "no_fast_path contended_vsa" by code_simp
  ultimately show thesis using that overlapping_run by blast
qed

section \<open>Properties\<close>

text \<open>
  C8. Calls are atomic. Let any number of goroutines call TryConsume, TryRefund, Commit and the
  lock-free readers on a VSA without the fast path and without the cached gate, and let their atomic
  loads and additions and the mutex operations interleave in any way. Then the starts and returns
  that can be observed are those of a machine in which each TryConsume, TryRefund and Commit happens
  at one instant between its start and its return, as the sequential model says; and whenever the
  mutex is free, the memory is that of this machine.
\<close>

theorem goroutines_linearizable:
  assumes "go_run vsa_code (go_init (NewWithOptions p S opts)) tr m"
    and "\<not> 0 <s FastPathGuard opts" and "\<not> UseCachedGate opts"
  shows "\<exists>a. at_run vsa_seq lock_free (at_init (NewWithOptions p S opts)) tr a \<and> (owner m = None \<longrightarrow> mem m = amem a)"
  using vsa_threads.linearizable [OF assms(1) New_no_fast_path [OF assms(2)]] vsa_threads.simD(3) by blast

theorem goroutines_linearizable_witness:
  "\<exists>v a. go_run vsa_code (go_init contended_vsa)
     [Call 0 (CConsume 3), Call 1 (CConsume 9), Return 1 (CConsume 9) (Flag True), Return 0 (CConsume 3) (Flag False)]
     (at_work v None (\<lambda>_. None))
   \<and> at_run vsa_seq lock_free (at_init contended_vsa)
     [Call 0 (CConsume 3), Call 1 (CConsume 9), Return 1 (CConsume 9) (Flag True), Return 0 (CConsume 3) (Flag False)] a
   \<and> amem a = v"
proof -
  obtain v where run: "go_run vsa_code (go_init contended_vsa)
    [Call 0 (CConsume 3), Call 1 (CConsume 9), Return 1 (CConsume 9) (Flag True), Return 0 (CConsume 3) (Flag False)]
    (at_work v None (\<lambda>_. None))" by (rule example_overlap)
  have "\<not> 0 <s FastPathGuard default_options" "\<not> UseCachedGate default_options" by code_simp+
  from goroutines_linearizable [OF run this] run show ?thesis by auto
qed



section \<open>Races with a commit\<close>

text \<open>A new VSA whose whole budget is consumed and then committed.\<close>

lemma consume_then_commit:
  assumes "0 < sint S" and "fits (sint S + sint (fastPathGuard (NewWithOptions p S opts)))"
    and "\<not> UseCachedGate opts" and "\<not> 1 <s GroupCount opts"
  obtains v where "TryConsume S (NewWithOptions p S opts) = Some (True, v)" and "scalar v = S" and "wf_vsa v"
    and "config v = config (NewWithOptions p S opts)" and "wf_vsa (Commit S v)" and "scalar (Commit S v) = 0"
    and "currentVector (Commit S v) = 0" and "approxNet (Commit S v) = 0" and "config (Commit S v) = config (NewWithOptions p S opts)"
proof -
  let ?v0 = "NewWithOptions p S opts"
  have b0: "budget (sint S) 0 ?v0" using New_budget [of S opts p] assms by simp
  from consume_budget [OF b0 assms(2)] assms(1) obtain v where v: "TryConsume S ?v0 = Some (True, v)" by auto
  have sh: "shifted ?v0 S v" using TryConsume_outcome [OF wf_New v] by simp
  then have vec: "currentVector v = S" "scalar v = S" "wf_vsa v" "config v = config ?v0" by (simp_all add: shifted_def)
  have S: "S \<noteq> 0" "sint S \<noteq> - (2 ^ 63)" "0 <s S" "abs_i64 S = S" using assms(1) by (auto simp: slt_iff abs_i64_nonneg)
  have c: "commit_mag S v = S" "commit_delta S v = S" using S by (simp_all add: commit_mag_def commit_delta_def vec(1) slt_iff)
  have eq: "Commit S v = v\<lparr>scalar := 0, committedOffset := committedOffset v + S, approxNet := approxNet v - S\<rparr>"
    using Commit_eq [of S v] S vec c by simp
  have wf: "wf_vsa (Commit S v)" by (rule Commit_wf [OF vec(3)])
  have "currentVector (Commit S v) = 0" using Commit_currentVector [OF vec(3), of S] S vec(1) c by simp
  moreover from this have "approxNet (Commit S v) = 0" using approxNet_exact [OF wf] by simp
  moreover have "scalar (Commit S v) = 0" by (simp add: eq)
  moreover have "config (Commit S v) = config ?v0" using vec(4) by simp
  ultimately show thesis using that [OF v vec(2-4) wf] by blast
qed

text \<open>A commit takes the lock whether the fast path is on or not.\<close>

lemma whole_commit:
  assumes "go_run vsa_code m0 tr (at_work v None g)" and "g i = None"
  shows "go_run vsa_code m0 (tr @ [Call i (CCommit c), Return i (CCommit c) Nothing]) (at_work (Commit c v) None g)"
proof -
  have "entry (\<lambda>_. True) (vsa_seq (CCommit c)) (vsa_code (CCommit c))"
    by (auto simp: Commit_code_def Commit_def Let_def write_defs intro!: guarded_currentVector)
  from entry_returns [OF this _ _ run_call [OF assms] fun_upd_same]
  have "go_run vsa_code m0 (tr @ [Call i (CCommit c)]) (at_work (Commit c v) None (g(i \<mapsto> (CCommit c, Ret Nothing))))"
    by (simp only: fun_upd_upd vsa_seq.simps)
  from run_return [OF this, of i "CCommit c" Nothing] show ?thesis using assms(2) by (simp add: fun_upd_idem)
qed

lemma solo_addStripe: "solo (addStripe_code idx d (Ret r)) v = map_option (Pair r) (addStripe idx d v)"
  by (simp add: addStripe_code_def addStripe_def write_defs Let_def)

text \<open>
  The two loads of the fast path with a whole commit between them: the scalar is the old one, the
  approximate net the new one.
\<close>

definition fast_rest :: "i64 \<Rightarrow> i64 \<Rightarrow> i64 \<Rightarrow> vsa_prog" where
  "fast_rest g n s =
     load approxNet (\<lambda>approx.
       if n + g \<le>s s - abs_i64 approx
       then Act (\<lambda>w. w\<lparr>chooser := chooser w + 1\<rparr>) (\<lambda>w. addStripe_code (chooser w AND mask_v w) n (Ret (Flag True)))
       else Lock (gate_code n (reserve_code n) (Unlock (Ret (Flag False)))))"

lemma fast_loads_scalar:
  assumes "go_run vsa_code m0 tr (at_work v None g)" and "g i = None" and "\<not> n \<le>s 0" and "0 <s fastPathGuard v"
  shows "go_run vsa_code m0 (tr @ [Call i (CConsume n)])
    (at_work v None (g(i \<mapsto> (CConsume n, fast_rest (fastPathGuard v) n (scalar v)))))"
proof -
  let ?c = "CConsume n" and ?slow = "Lock (gate_code n (reserve_code n) (Unlock (Ret (Flag False))))"
  let ?k = "\<lambda>v. if 0 <s fastPathGuard v then load scalar (fast_rest (fastPathGuard v) n) else ?slow"
  have "vsa_code ?c = Act id ?k"
    using assms(3) unfolding vsa_code.simps TryConsume_code_def Let_def fast_rest_def [abs_def] by simp
  with run_call [OF assms(1,2), of ?c]
  have "go_run vsa_code m0 (tr @ [Call i ?c]) (at_work v None (g(i \<mapsto> (?c, Act id ?k))))" by simp
  from run_read(1) [OF this fun_upd_same] assms(4)
  have "go_run vsa_code m0 (tr @ [Call i ?c]) (at_work v None (g(i \<mapsto> (?c, load scalar (fast_rest (fastPathGuard v) n)))))"
    by (simp only: fun_upd_upd if_True)
  from run_read(2) [OF this fun_upd_same] show ?thesis by (simp only: fun_upd_upd)
qed

lemma fast_rest_admits:
  assumes "go_run vsa_code m0 tr (at_work v ow g)" and "g i = Some (CConsume n, fast_rest gd n s)"
    and "n + gd \<le>s s - abs_i64 (approxNet v)" and "wf_vsa v"
  shows "\<exists>v'. go_run vsa_code m0 (tr @ [Return i (CConsume n) (Flag True)]) (at_work v' ow (g(i := None)))"
proof -
  let ?v = "v\<lparr>chooser := chooser v + 1\<rparr>"
  have "wf_vsa ?v" using assms(4) by (simp add: wf_defs)
  then obtain v' where "addStripe (chooser ?v AND mask_v ?v) n ?v = Some v'"
    using addStripe_shifted [OF _ masked_index] by metis
  then have "solo (fast_rest gd n s) v = Some (Flag True, v')" using assms(3) by (simp add: fast_rest_def solo_addStripe)
  from run_return [OF run_solo [OF this assms(1,2)], of i "CConsume n" "Flag True"] show ?thesis by auto
qed

text \<open>A request that the fast path does not admit takes the lock, and the whole call is the sequential one.\<close>

lemma whole_slow_call:
  assumes "go_run vsa_code m0 tr (at_work v None g)" and "g i = None" and "\<not> n \<le>s 0" and "0 <s fastPathGuard v"
    and "\<not> fastPath n v" and "vsa_seq (CConsume n) v = Some (r, v')"
  shows "go_run vsa_code m0 (tr @ [Call i (CConsume n), Return i (CConsume n) r]) (at_work v' None g)"
proof -
  let ?c = "CConsume n" and ?sec = "gate_code n (reserve_code n) (Unlock (Ret (Flag False)))"
  have no: "\<not> n + fastPathGuard v \<le>s scalar v - abs_i64 (approxNet v)" using assms(4,5) by (simp add: fastPath_def)
  from run_read(2) [OF fast_loads_scalar [OF assms(1-4), unfolded fast_rest_def] fun_upd_same] no
  have wait: "go_run vsa_code m0 (tr @ [Call i ?c]) (at_work v None (g(i \<mapsto> (?c, Lock ?sec))))"
    by (simp only: fun_upd_upd if_False)
  have "lone ?sec v = Some (r, v')" using lone_slow [OF assms(3,5)] assms(6) by simp
  from run_section [OF this wait fun_upd_same]
  have "go_run vsa_code m0 (tr @ [Call i ?c]) (at_work v' None (g(i \<mapsto> (?c, Ret r))))" by (simp only: fun_upd_upd)
  from run_return [OF this, of i ?c r] show ?thesis using assms(2) by (simp add: fun_upd_idem)
qed

text \<open>
  C10. The guard does not bound what the fast path oversubscribes. For every budget and every guard
  below it there is an interleaving of three goroutines in which calls of TryConsume are granted twice
  the budget less the guard, without any refund: after the whole budget is consumed, a goroutine loads
  the scalar, a commit moves the consumed units from the net into the scalar, and the goroutine then
  loads the approximate net, which is zero again, and takes the sum for the availability.
\<close>

theorem fast_path_commit_race:
  assumes "0 < sint g" and "sint g < sint S" and "sint S + sint g < 2 ^ 63"
  shows "\<exists>tr m. go_run vsa_code (go_init (NewWithOptions p S (default_options\<lparr>FastPathGuard := g\<rparr>))) tr m
    \<and> sum_list (map granted tr) = 2 * sint S - sint g \<and> sum_list (map refund_asked tr) = 0"
proof -
  let ?opts = "default_options\<lparr>FastPathGuard := g\<rparr>" and ?n = "S - g"
  let ?v0 = "NewWithOptions p S ?opts" and ?c0 = "CConsume S" and ?c1 = "CConsume ?n" and ?c2 = "CCommit S"
  have g: "fastPathGuard ?v0 = g" "0 <s g" using assms(1) by (simp_all add: construct_defs slt_iff)
  have n: "sint ?n = sint S - sint g" using assms by (intro sint_diff_fits) (auto simp: fits_def)
  have pos: "\<not> S \<le>s 0" "\<not> ?n \<le>s 0" using assms n by (simp_all add: sle_iff)
  have fits: "fits (sint S + sint (fastPathGuard ?v0))" using assms g by (simp add: fits_def)
  obtain v where v: "TryConsume S ?v0 = Some (True, v)" "scalar v = S" "wf_vsa v" "config v = config ?v0"
    "wf_vsa (Commit S v)" "scalar (Commit S v) = 0" "currentVector (Commit S v) = 0" "approxNet (Commit S v) = 0"
    by (rule consume_then_commit [OF _ fits]) (use assms in \<open>auto simp: default_options_def slt_iff\<close>)
  have "sint (S + g) = sint S + sint g" using fits g(1) by (intro sint_add_fits) simp
  then have "\<not> fastPath S ?v0" using assms(1) by (simp add: fastPath_def g sle_iff approxNet_exact [OF wf_New])
  then have "go_run vsa_code (go_init ?v0) ([] @ [Call 0 ?c0, Return 0 ?c0 (Flag True)]) (at_work v None (\<lambda>_. None))"
    by (intro whole_slow_call [OF go_start]) (use pos g v(1) in simp_all)
  then have one: "go_run vsa_code (go_init ?v0) [Call 0 ?c0, Return 0 ?c0 (Flag True)] (at_work v None (\<lambda>_. None))" by simp
  have gv: "fastPathGuard v = g" using v(4) g(1) by (simp add: config_def)
  let ?w = "[1 \<mapsto> (?c1, fast_rest g ?n S)] :: nat \<Rightarrow> (vsa_call \<times> vsa_prog) option"
  have "go_run vsa_code (go_init ?v0) [Call 0 ?c0, Return 0 ?c0 (Flag True), Call 1 ?c1] (at_work v None ?w)"
    using fast_loads_scalar [OF one, where i = 1 and n = "?n"] pos(2) gv g(2) v(2) by simp
  from whole_commit [OF this, of 2 S]
  have "go_run vsa_code (go_init ?v0) [Call 0 ?c0, Return 0 ?c0 (Flag True), Call 1 ?c1, Call 2 ?c2, Return 2 ?c2 Nothing]
      (at_work (Commit S v) None ?w)" by simp
  from fast_rest_admits [OF this, of 1 ?n g S] v(5,8) obtain m where
    "go_run vsa_code (go_init ?v0) [Call 0 ?c0, Return 0 ?c0 (Flag True), Call 1 ?c1, Call 2 ?c2, Return 2 ?c2 Nothing, Return 1 ?c1 (Flag True)] m"
    by auto
  moreover have "sum_list (map granted [Call 0 ?c0, Return 0 ?c0 (Flag True), Call 1 ?c1, Call 2 ?c2, Return 2 ?c2 Nothing, Return 1 ?c1 (Flag True)])
      = 2 * sint S - sint g" using n assms by simp
  ultimately show ?thesis by fastforce
qed

theorem fast_path_commit_race_witness:
  "\<exists>tr m. go_run vsa_code (go_init (NewWithOptions 4 100 (default_options\<lparr>FastPathGuard := 20\<rparr>))) tr m
     \<and> sum_list (map granted tr) = 180"
proof -
  have "0 < sint (20 :: i64)" "sint (20 :: i64) < sint (100 :: i64)" "sint (100 :: i64) + sint (20 :: i64) < 2 ^ 63" by simp_all
  from fast_path_commit_race [OF this, of 4] show ?thesis by auto
qed

text \<open>
  The same commit tears a lock-free reading of availability: with the whole budget consumed, and no
  refund at any time, Available answers with the whole budget.
\<close>

lemma solo_currentVector: "solo (currentVector_code k) v = solo (k (currentVector v)) v"
proof -
  have "solo (sum_loads rs acc k) v = solo (k (foldl (+) acc (map (\<lambda>r. r v) rs))) v" for rs acc and k :: "i64 \<Rightarrow> vsa_prog"
    by (induction rs arbitrary: acc) simp_all
  then show ?thesis by (simp add: currentVector_code_def vector_loads_sum)
qed

lemma available_torn_read:
  assumes "0 < sint S"
  shows "\<exists>m. go_run vsa_code (go_init (NewWithOptions p S default_options))
    [Call 0 (CConsume S), Return 0 (CConsume S) (Flag True), Call 1 CAvailable, Call 2 (CCommit S), Return 2 (CCommit S) Nothing,
     Return 1 CAvailable (Amount S)] m"
proof -
  let ?v0 = "NewWithOptions p S default_options" and ?c0 = "CConsume S" and ?c2 = "CCommit S"
  let ?k = "\<lambda>s. currentVector_code (\<lambda>net. Ret (Amount (s - abs_i64 net)))"
  have off: "\<not> 0 <s FastPathGuard default_options" by code_simp
  have fits: "fits (sint S + sint (fastPathGuard ?v0))" using sint_range [of S] by (simp add: New_guard_off [OF off] fits_def)
  obtain v where v: "TryConsume S ?v0 = Some (True, v)" "scalar v = S" "currentVector (Commit S v) = 0"
    by (rule consume_then_commit [OF assms fits]) (auto simp: default_options_def slt_iff)
  have "go_run vsa_code (go_init ?v0) ([] @ [Call 0 ?c0, Return 0 ?c0 (Flag True)]) (at_work v None (\<lambda>_. None))"
    by (rule whole_call [OF go_start]) (use v(1) New_no_fast_path [OF off] in simp_all)
  from run_call [OF this, of 1 CAvailable]
  have "go_run vsa_code (go_init ?v0) [Call 0 ?c0, Return 0 ?c0 (Flag True), Call 1 CAvailable]
      (at_work v None [1 \<mapsto> (CAvailable, load scalar ?k)])" by (simp add: Available_code_def)
  from run_read(2) [OF this fun_upd_same] v(2)
  have "go_run vsa_code (go_init ?v0) [Call 0 ?c0, Return 0 ?c0 (Flag True), Call 1 CAvailable]
      (at_work v None [1 \<mapsto> (CAvailable, ?k S)])" by (simp only: fun_upd_upd)
  from whole_commit [OF this, of 2 S]
  have two: "go_run vsa_code (go_init ?v0) [Call 0 ?c0, Return 0 ?c0 (Flag True), Call 1 CAvailable, Call 2 ?c2, Return 2 ?c2 Nothing]
      (at_work (Commit S v) None [1 \<mapsto> (CAvailable, ?k S)])" by simp
  have "solo (?k S) (Commit S v) = Some (Amount S, Commit S v)" by (simp add: solo_currentVector v(3))
  from run_return [OF run_solo [OF this two fun_upd_same], of 1 CAvailable "Amount S"] show ?thesis by auto
qed

end
