(* ===== verification/Limiter.thy ===== *)
theory Limiter
  imports VSA_Runs
begin

text \<open>
  The admission contract that every limiter of the repository offers its callers, as a locale:
  a consumption is admitted exactly when it is positive and covered by what is available. The
  consequences for whole sequences of requests are proved once from the contract. The VSA
  provides it (vsa.go), and so does the plain atomic counter that the benchmarks compare it
  with (benchmarks/atomic_limiter.go).
\<close>

section \<open>The atomic counter\<close>

text \<open>
  The compare-and-swap loop. Between the load and the swap of each round another goroutine may
  have stored a different value; the list holds the values found by the successive swaps, and once
  it is used up the counter is left alone.
\<close>

fun AtomicLimiter_TryConsume_loop :: "i64 \<Rightarrow> i64 list \<Rightarrow> i64 \<Rightarrow> bool \<times> i64" where
  "AtomicLimiter_TryConsume_loop n [] old =
     (if old <s n then (False, old) else (True, old - n))"
| "AtomicLimiter_TryConsume_loop n (found # rest) old =
     (if old <s n then (False, old)
      else if found = old then (True, old - n)
      else AtomicLimiter_TryConsume_loop n rest found)"

definition AtomicLimiter_TryConsume :: "i64 \<Rightarrow> i64 list \<Rightarrow> i64 \<Rightarrow> bool \<times> i64" where
  "AtomicLimiter_TryConsume n found avail =
     (if n \<le>s 0 then (False, avail) else AtomicLimiter_TryConsume_loop n found avail)"

definition AtomicLimiter_Refund :: "i64 \<Rightarrow> i64 \<Rightarrow> i64" where
  "AtomicLimiter_Refund n avail = (if 0 <s n then avail + n else avail)"

definition NewAtomicLimiter :: "i64 \<Rightarrow> i64" where
  "NewAtomicLimiter initial = initial"

definition AtomicLimiter_Available :: "i64 \<Rightarrow> i64" where
  "AtomicLimiter_Available avail = avail"

section \<open>The contract\<close>

text \<open>A sequence of requests and the list of its outcomes.\<close>

fun attempts :: "(i64 \<Rightarrow> 's \<Rightarrow> (bool \<times> 's) option) \<Rightarrow> i64 list \<Rightarrow> 's \<Rightarrow> (bool list \<times> 's) option" where
  "attempts consume [] s = Some ([], s)"
| "attempts consume (n # ns) s =
     (case consume n s of
        None \<Rightarrow> None
      | Some (b, s') \<Rightarrow> map_option (\<lambda>(bs, s''). (b # bs, s'')) (attempts consume ns s'))"

fun admitted :: "i64 list \<Rightarrow> bool list \<Rightarrow> int" where
  "admitted (n # ns) (b # bs) = (if b then sint n else 0) + admitted ns bs"
| "admitted _ _ = 0"

locale limiter =
  fixes consume :: "i64 \<Rightarrow> 's \<Rightarrow> (bool \<times> 's) option"
    and avail :: "'s \<Rightarrow> int"
    and inv :: "'s \<Rightarrow> bool"
    and dom :: "i64 \<Rightarrow> bool"
  assumes admit: "inv s \<Longrightarrow> dom n \<Longrightarrow> 0 < sint n \<Longrightarrow> sint n \<le> avail s \<Longrightarrow>
      \<exists>s'. consume n s = Some (True, s') \<and> inv s' \<and> avail s' = avail s - sint n"
    and deny: "inv s \<Longrightarrow> dom n \<Longrightarrow> \<not> (0 < sint n \<and> sint n \<le> avail s) \<Longrightarrow>
      \<exists>s'. consume n s = Some (False, s') \<and> inv s' \<and> avail s' = avail s"
begin

lemma consume_step:
  assumes "inv s" and "dom n"
  obtains b s' where "consume n s = Some (b, s')" and "inv s'"
    and "b \<longleftrightarrow> 0 < sint n \<and> sint n \<le> avail s" and "avail s' = avail s - (if b then sint n else 0)"
  using admit [OF assms] deny [OF assms] by (cases "0 < sint n \<and> sint n \<le> avail s") auto

text \<open>Any sequence of requests returns and never admits more than was available.\<close>

lemma attempts_bounded:
  assumes "inv s" and "\<forall>n \<in> set ns. dom n" and "0 \<le> avail s"
  shows "\<exists>bs s'. attempts consume ns s = Some (bs, s') \<and> length bs = length ns \<and> inv s'
    \<and> avail s' = avail s - admitted ns bs \<and> 0 \<le> avail s'"
  using assms
proof (induction ns arbitrary: s)
  case (Cons n ns)
  from Cons.prems obtain b s1 where s1: "consume n s = Some (b, s1)" "inv s1"
    "b \<longleftrightarrow> 0 < sint n \<and> sint n \<le> avail s" "avail s1 = avail s - (if b then sint n else 0)"
    using consume_step [of s n] by auto
  then have "0 \<le> avail s1" using Cons.prems(3) by (cases b) auto
  with Cons.IH [OF s1(2)] Cons.prems(2) obtain bs s' where "attempts consume ns s1 = Some (bs, s')"
    "length bs = length ns" "inv s'" "avail s' = avail s1 - admitted ns bs" "0 \<le> avail s'"
    by auto
  with s1(1,4) show ?case by auto
qed simp

text \<open>Unit requests: exactly the available ones succeed, first come first served.\<close>

lemma unit_attempts:
  assumes "inv s" and "dom 1" and "0 \<le> avail s"
  shows "\<exists>s'. attempts consume (replicate m 1) s =
      Some (replicate (min m (nat (avail s))) True @ replicate (m - nat (avail s)) False, s')
    \<and> inv s' \<and> avail s' = avail s - int (min m (nat (avail s)))"
  using assms
proof (induction m arbitrary: s)
  case (Suc m)
  from Suc.prems obtain b s1 where s1: "consume 1 s = Some (b, s1)" "inv s1"
    "b \<longleftrightarrow> 0 < sint (1 :: i64) \<and> sint (1 :: i64) \<le> avail s" "avail s1 = avail s - (if b then sint (1 :: i64) else 0)"
    using consume_step [OF Suc.prems(1,2)] by blast
  show ?case
  proof (cases "1 \<le> avail s")
    case True
    with s1 have b: b "avail s1 = avail s - 1" by simp_all
    then have n: "nat (avail s) = Suc (nat (avail s1))" using True by simp
    from True b obtain s' where "attempts consume (replicate m 1) s1 =
        Some (replicate (min m (nat (avail s1))) True @ replicate (m - nat (avail s1)) False, s')"
      "inv s'" "avail s' = avail s1 - int (min m (nat (avail s1)))"
      using Suc.IH [of s1] s1(2) Suc.prems(2) by auto
    with s1(1) b n True show ?thesis by simp
  next
    case False
    with s1 Suc.prems(3) have b: "\<not> b" "avail s1 = 0" "avail s = 0" by auto
    then obtain s' where "attempts consume (replicate m 1) s1 = Some (replicate m False, s')"
      "inv s'" "avail s' = 0"
      using Suc.IH [of s1] s1(2) Suc.prems(2) by auto
    with s1(1) b show ?thesis by simp
  qed
qed simp

end

section \<open>Both limiters provide it\<close>

text \<open>The VSA with the exact gate and a guard distance of at most half the range.\<close>

definition vsa_inv :: "vsa \<Rightarrow> bool" where
  "vsa_inv v \<longleftrightarrow>
     budget (sint (scalar v)) (sint (currentVector v)) v
     \<and> 0 \<le> sint (fastPathGuard v) \<and> sint (fastPathGuard v) \<le> 2 ^ 62"

definition vsa_avail :: "vsa \<Rightarrow> int" where
  "vsa_avail v = sint (Available v)"

definition moderate :: "i64 \<Rightarrow> bool" where
  "moderate n \<longleftrightarrow> sint n < 2 ^ 62"

lemma budget_rebase: "budget S0 u v \<Longrightarrow> budget (sint (scalar v)) (sint (currentVector v)) v"
  by (simp add: budget_def)

lemma vsa_consume_contract:
  assumes "vsa_inv v" and "moderate n"
  obtains v' where "0 < sint n" and "sint n \<le> vsa_avail v" and "TryConsume n v = Some (True, v')"
      and "vsa_inv v'" and "vsa_avail v' = vsa_avail v - sint n"
  | "\<not> (0 < sint n \<and> sint n \<le> vsa_avail v)" and "TryConsume n v = Some (False, v)"
proof -
  let ?S = "sint (scalar v)" and ?u = "sint (currentVector v)"
  have b: "budget ?S ?u v" and g: "0 \<le> sint (fastPathGuard v)" "sint (fastPathGuard v) \<le> 2 ^ 62"
    using assms(1) by (simp_all add: vsa_inv_def)
  have f: "fits (sint n + sint (fastPathGuard v))"
    using assms(2) g sint_range [of n] by (simp add: moderate_def fits_def)
  show thesis
  proof (cases rule: consume_budget [OF b f])
    case (1 v')
    then have "vsa_inv v'"
      using g budget_rebase [OF 1(4)] config_guard [OF 1(5)] by (simp add: vsa_inv_def)
    with 1 that(1) show thesis
      using budget_Available [OF b] budget_Available [OF 1(4)] by (simp add: vsa_avail_def)
  next
    case 2
    with that(2) show thesis using budget_Available [OF b] by (simp add: vsa_avail_def)
  qed
qed

interpretation vsa_limiter: limiter TryConsume vsa_avail vsa_inv moderate
proof unfold_locales
  fix s n
  assume "vsa_inv s" and "moderate n"
  note contract = vsa_consume_contract [OF this]
  show "\<exists>s'. TryConsume n s = Some (True, s') \<and> vsa_inv s' \<and> vsa_avail s' = vsa_avail s - sint n"
    if "0 < sint n" "sint n \<le> vsa_avail s"
    using that by (auto intro: contract)
  show "\<exists>s'. TryConsume n s = Some (False, s') \<and> vsa_inv s' \<and> vsa_avail s' = vsa_avail s"
    if "\<not> (0 < sint n \<and> sint n \<le> vsa_avail s)"
    using that \<open>vsa_inv s\<close> by (auto intro: contract)
qed

text \<open>The atomic counter, undisturbed.\<close>

interpretation atomic_limiter:
  limiter "\<lambda>n a. Some (AtomicLimiter_TryConsume n [] a)" "\<lambda>a. sint (AtomicLimiter_Available a)"
    "\<lambda>_. True" "\<lambda>_. True"
proof unfold_locales
  fix s n :: i64
  show "\<exists>s'. Some (AtomicLimiter_TryConsume n [] s) = Some (True, s') \<and> True
      \<and> sint (AtomicLimiter_Available s') = sint (AtomicLimiter_Available s) - sint n"
    if "0 < sint n" "sint n \<le> sint (AtomicLimiter_Available s)"
    using that sint_range [of s]
    by (simp add: AtomicLimiter_TryConsume_def AtomicLimiter_Available_def int64)
      (intro sint_diff_fits, simp add: fits_def)
  show "\<exists>s'. Some (AtomicLimiter_TryConsume n [] s) = Some (False, s') \<and> True
      \<and> sint (AtomicLimiter_Available s') = sint (AtomicLimiter_Available s)"
    if "\<not> (0 < sint n \<and> sint n \<le> sint (AtomicLimiter_Available s))"
    using that by (auto simp: AtomicLimiter_TryConsume_def AtomicLimiter_Available_def int64)
qed

lemma vsa_inv_New:
  assumes "0 \<le> sint S" and "\<not> UseCachedGate opts" and "\<not> 1 <s GroupCount opts"
    and "sint (FastPathGuard opts) \<le> 2 ^ 62"
  shows "vsa_inv (NewWithOptions p S opts)"
proof -
  have "fastPathGuard (NewWithOptions p S opts) = (if 0 <s FastPathGuard opts then FastPathGuard opts else 0)"
    by (simp add: construct_defs)
  then show ?thesis
    using budget_rebase [OF New_budget [OF assms(1-3)]] assms(4) by (simp add: vsa_inv_def slt_iff)
qed

section \<open>Properties\<close>

text \<open>
  The last token cannot be taken twice. However many unit requests reach a new VSA with the
  exact gate, all of them return, exactly the first S are admitted and all later ones denied
  (fast path and hierarchical sums included).
\<close>

theorem last_token:
  assumes "0 \<le> sint S" and "\<not> UseCachedGate opts" and "\<not> 1 <s GroupCount opts"
    and "sint (FastPathGuard opts) \<le> 2 ^ 62"
  shows "\<exists>v. attempts TryConsume (replicate m 1) (NewWithOptions p S opts) =
      Some (replicate (min m (nat (sint S))) True @ replicate (m - nat (sint S)) False, v)
    \<and> sint (Available v) = sint S - int (min m (nat (sint S)))"
proof -
  have "sint (Available (NewWithOptions p S opts)) = sint S"
    using budget_Available [OF New_budget [OF assms(1-3)]] by simp
  then show ?thesis
    using vsa_limiter.unit_attempts [OF vsa_inv_New [OF assms], of p m] assms(1)
    by (auto simp: moderate_def vsa_avail_def)
qed

theorem last_token_witness:
  "\<exists>v. attempts TryConsume (replicate 3 1) (NewWithOptions 4 2 default_options) = Some ([True, True, False], v)
     \<and> sint (Available v) = 0"
proof -
  have h: "0 \<le> sint (2 :: i64)" "\<not> UseCachedGate default_options" "\<not> 1 <s GroupCount default_options"
    "sint (FastPathGuard default_options) \<le> 2 ^ 62"
    by code_simp+
  show ?thesis using last_token [OF h, of 3 4] by (simp add: numeral_eq_Suc)
qed

text \<open>
  C11. The VSA makes the same decisions as the atomic counter it is benchmarked against: for
  any sequence of requests both return the same outcomes and end with the same availability.
\<close>

lemma same_outcomes:
  assumes "vsa_inv v" and "vsa_avail v = sint a" and "\<forall>n \<in> set ns. moderate n"
  shows "\<exists>bs v' a'. attempts TryConsume ns v = Some (bs, v')
    \<and> attempts (\<lambda>n a. Some (AtomicLimiter_TryConsume n [] a)) ns a = Some (bs, a')
    \<and> vsa_avail v' = sint a'"
  using assms
proof (induction ns arbitrary: v a)
  case (Cons n ns)
  obtain b v1 where v1: "TryConsume n v = Some (b, v1)" "vsa_inv v1"
    "b \<longleftrightarrow> 0 < sint n \<and> sint n \<le> vsa_avail v" "vsa_avail v1 = vsa_avail v - (if b then sint n else 0)"
    using vsa_limiter.consume_step [OF Cons.prems(1), of n] Cons.prems(3) by auto
  obtain b' a1 where a1: "AtomicLimiter_TryConsume n [] a = (b', a1)"
    "b' \<longleftrightarrow> 0 < sint n \<and> sint n \<le> sint a" "sint a1 = sint a - (if b' then sint n else 0)"
    using atomic_limiter.consume_step [of n a] by (auto simp: AtomicLimiter_Available_def)
  have "b' = b" "vsa_avail v1 = sint a1"
    using v1 a1 Cons.prems(2) by auto
  with Cons.IH [OF v1(2), of a1] Cons.prems(3) v1(1) a1(1) show ?case by auto
qed auto



text \<open>
  The compare-and-swap loop is safe under interference: whatever values other goroutines
  store meanwhile, the call returns, and if it succeeds it took a positive amount out of a value
  that covered it, so the counter never becomes negative.
\<close>

lemma cas_loop_safe:
  assumes "AtomicLimiter_TryConsume_loop n found a = (b, a')" and "0 < sint n"
  shows "if b then \<exists>old \<in> set (a # found). sint n \<le> sint old \<and> sint a' = sint old - sint n
    else \<exists>old \<in> set (a # found). sint old < sint n \<and> a' = old"
  using assms
proof (induction n found a rule: AtomicLimiter_TryConsume_loop.induct)
  case (1 n old)
  then show ?case
    using sint_range [of old] by (auto simp: int64 fits_def split: if_splits intro!: sint_diff_fits)
next
  case (2 n found rest old)
  show ?case
  proof (cases "old <s n \<or> found = old")
    case True
    with 2 show ?thesis
      using sint_range [of old] by (auto simp: int64 fits_def split: if_splits intro!: sint_diff_fits)
  next
    case False
    with 2 have "if b then \<exists>old \<in> set (found # rest). sint n \<le> sint old \<and> sint a' = sint old - sint n
      else \<exists>old \<in> set (found # rest). sint old < sint n \<and> a' = old" by auto
    then show ?thesis by (cases b) auto
  qed
qed

theorem cas_never_negative:
  assumes "AtomicLimiter_TryConsume n found a = (True, a')"
  shows "0 < sint n \<and> (\<exists>old \<in> set (a # found). sint n \<le> sint old \<and> sint a' = sint old - sint n)
    \<and> 0 \<le> sint a'"
proof -
  have pos: "0 < sint n" and loop: "AtomicLimiter_TryConsume_loop n found a = (True, a')"
    using assms by (auto simp: AtomicLimiter_TryConsume_def sle_iff split: if_splits)
  from cas_loop_safe [OF loop pos] pos show ?thesis by auto
qed

theorem cas_never_negative_witness: "AtomicLimiter_TryConsume 3 [7, 7] 9 = (True, 4) \<and> 0 \<le> sint (4 :: i64)"
proof -
  have h: "AtomicLimiter_TryConsume 3 [7, 7] 9 = (True, 4)" by code_simp
  from cas_never_negative [OF h] h show ?thesis by simp
qed

end
