(* ===== verification/Store.thy ===== *)
theory Store
  imports Limiter
begin

text \<open>
  The store of managed VSA instances (internal/ratelimiter/core/store.go). Instances live in a
  memory of their own and are referred to by address, because request handlers and the worker
  keep pointers to an instance beyond the lifetime of its entry in the store.
\<close>

section \<open>State and operations\<close>

type_synonym addr = nat

record managedVSA =
  inst :: addr
  lastAccessed :: i64
  armed :: bool

record store =
  counters :: "(string \<times> managedVSA) list"
  initialScalar :: i64
  vsaOptions :: options
  vsas :: "vsa list"

definition NewStoreWithOptions :: "i64 \<Rightarrow> options \<Rightarrow> store" where
  "NewStoreWithOptions scalar0 opts =
     \<lparr>counters = [], initialScalar = scalar0, vsaOptions = opts, vsas = []\<rparr>"

definition NewStore :: "i64 \<Rightarrow> store" where
  "NewStore scalar0 = NewStoreWithOptions scalar0 default_options"

text \<open>
  \<open>GetOrCreate\<close> in its atomic steps: the first load with the touch of an existing entry, the
  allocation of a fresh instance, and the publication with \<open>LoadOrStore\<close>, where another
  goroutine may have come first.
\<close>

definition getOrCreate_load :: "i64 \<Rightarrow> string \<Rightarrow> store \<Rightarrow> addr option \<times> store" where
  "getOrCreate_load now key st =
     (case map_of (counters st) key of
        Some managed \<Rightarrow>
          (Some (inst managed),
           st\<lparr>counters := al_update key (managed\<lparr>lastAccessed := now\<rparr>) (counters st)\<rparr>)
      | None \<Rightarrow> (None, st))"

definition getOrCreate_alloc :: "i64 \<Rightarrow> store \<Rightarrow> addr \<times> store" where
  "getOrCreate_alloc gomaxprocs st =
     (length (vsas st),
      st\<lparr>vsas := vsas st @ [NewWithOptions gomaxprocs (initialScalar st) (vsaOptions st)]\<rparr>)"

definition getOrCreate_publish :: "i64 \<Rightarrow> string \<Rightarrow> addr \<Rightarrow> store \<Rightarrow> addr \<times> store" where
  "getOrCreate_publish now key a st =
     (case map_of (counters st) key of
        Some managed \<Rightarrow>
          (inst managed,
           st\<lparr>counters := al_update key (managed\<lparr>lastAccessed := now\<rparr>) (counters st)\<rparr>)
      | None \<Rightarrow>
          (a, st\<lparr>counters := al_update key \<lparr>inst = a, lastAccessed = now, armed = True\<rparr> (counters st)\<rparr>))"

definition GetOrCreate :: "i64 \<Rightarrow> i64 \<Rightarrow> string \<Rightarrow> store \<Rightarrow> addr \<times> store" where
  "GetOrCreate gomaxprocs now key st =
     (case getOrCreate_load now key st of
        (Some a, st1) \<Rightarrow> (a, st1)
      | (None, st1) \<Rightarrow>
          let (a, st2) = getOrCreate_alloc gomaxprocs st1 in getOrCreate_publish now key a st2)"

definition Delete :: "string \<Rightarrow> store \<Rightarrow> store" where
  "Delete key st =
     (case map_of (counters st) key of
        Some managed \<Rightarrow>
          st\<lparr>counters := al_delete key (counters st),
             vsas := (vsas st)[inst managed := Close (vsas st ! inst managed)]\<rparr>
      | None \<Rightarrow> st)"

text \<open>
  \<open>ForEach\<close> applies a callback to every entry. The callbacks of the worker thread an accumulator
  and may update the entry they are given.
\<close>

fun ForEach :: "(string \<Rightarrow> managedVSA \<Rightarrow> 'a \<Rightarrow> managedVSA \<times> 'a) \<Rightarrow> (string \<times> managedVSA) list \<Rightarrow> 'a
    \<Rightarrow> (string \<times> managedVSA) list \<times> 'a" where
  "ForEach f [] acc = ([], acc)"
| "ForEach f ((key, v) # rest) acc =
     (let (v', acc1) = f key v acc; (rest', acc2) = ForEach f rest acc1 in ((key, v') # rest', acc2))"

fun closeInstances :: "(string \<times> managedVSA) list \<Rightarrow> vsa list \<Rightarrow> vsa list" where
  "closeInstances [] mem = mem"
| "closeInstances ((key, managed) # rest) mem =
     closeInstances rest (mem[inst managed := Close (mem ! inst managed)])"

definition CloseAll :: "store \<Rightarrow> store" where
  "CloseAll st = st\<lparr>vsas := closeInstances (counters st) (vsas st)\<rparr>"

section \<open>Well-formed stores\<close>

text \<open>
  Keys are unique, every entry points to an allocated instance, no two entries share one, and
  every instance is a well-formed VSA.
\<close>

definition wf_store :: "store \<Rightarrow> bool" where
  "wf_store st \<longleftrightarrow>
     distinct (map fst (counters st)) \<and> distinct (map (inst \<circ> snd) (counters st))
     \<and> (\<forall>(key, managed) \<in> set (counters st). inst managed < length (vsas st))
     \<and> (\<forall>v \<in> set (vsas st). wf_vsa v)"

text \<open>The instance a key currently refers to.\<close>

definition lookup :: "store \<Rightarrow> string \<Rightarrow> vsa option" where
  "lookup st key = map_option (\<lambda>managed. vsas st ! inst managed) (map_of (counters st) key)"

lemma wf_store_entry:
  "wf_store st \<Longrightarrow> map_of (counters st) key = Some managed \<Longrightarrow>
     inst managed < length (vsas st) \<and> wf_vsa (vsas st ! inst managed)"
  by (fastforce simp: wf_store_def dest: map_of_SomeD)

lemma lookup_wf: "wf_store st \<Longrightarrow> lookup st key = Some v \<Longrightarrow> wf_vsa v"
  by (auto simp: lookup_def dest: wf_store_entry)

lemma wf_store_new: "wf_store (NewStoreWithOptions scalar0 opts)"
  by (simp add: wf_store_def NewStoreWithOptions_def)

lemma insts_al_update_same:
  "map_of ps key = Some managed \<Longrightarrow> inst managed' = inst managed \<Longrightarrow> distinct (map fst ps) \<Longrightarrow>
     map (inst \<circ> snd) (al_update key managed' ps) = map (inst \<circ> snd) ps"
  by (induction ps) (auto split: if_splits)

lemma al_update_fresh: "map_of ps key = None \<Longrightarrow> al_update key v ps = ps @ [(key, v)]"
  by (induction ps) (auto split: if_splits)

lemma wf_store_update_entry:
  assumes "wf_store st" and "map_of (counters st) key = Some managed" and "inst managed' = inst managed"
  shows "wf_store (st\<lparr>counters := al_update key managed' (counters st)\<rparr>)"
proof -
  have "inst m < length (vsas st)" if "(k, m) \<in> set (al_update key managed' (counters st))" for k m
  proof -
    have "inst m \<in> set (map (inst \<circ> snd) (al_update key managed' (counters st)))"
      using that by force
    also have "\<dots> = set (map (inst \<circ> snd) (counters st))"
      using assms by (simp only: insts_al_update_same wf_store_def)
    finally show ?thesis using assms(1) by (force simp: wf_store_def)
  qed
  then show ?thesis
    using assms insts_al_update_same [OF assms(2,3)] distinct_al_update [of "counters st" key managed']
    by (auto simp: wf_store_def)
qed

lemma wf_store_alloc: "wf_store st \<Longrightarrow> getOrCreate_alloc p st = (a, st') \<Longrightarrow> wf_store st'"
  by (fastforce simp: wf_store_def getOrCreate_alloc_def wf_New)

text \<open>Touching or creating one entry leaves what every other key refers to unchanged.\<close>

lemma lookup_update_entry:
  "map_of (counters st) key = Some managed \<Longrightarrow> inst managed' = inst managed \<Longrightarrow>
     lookup (st\<lparr>counters := al_update key managed' (counters st)\<rparr>) k = lookup st k"
  by (simp add: lookup_def)


lemma lookup_new_entry:
  assumes "wf_store st" and "map_of (counters st) key = None" and "getOrCreate_alloc p st = (a, st1)"
  shows "lookup (st1\<lparr>counters := al_update key \<lparr>inst = a, lastAccessed = now, armed = True\<rparr> (counters st1)\<rparr>) k
    = (if k = key then Some (NewWithOptions p (initialScalar st) (vsaOptions st)) else lookup st k)"
  using assms(3) wf_store_entry [OF assms(1), of k]
  by (cases "map_of (counters st) k") (auto simp: lookup_def getOrCreate_alloc_def nth_append)

lemma wf_store_new_entry:
  assumes "wf_store st" and "map_of (counters st) key = None" and "getOrCreate_alloc p st = (a, st1)"
  shows "wf_store (st1\<lparr>counters := al_update key \<lparr>inst = a, lastAccessed = now, armed = True\<rparr> (counters st1)\<rparr>)"
proof -
  have "key \<notin> fst ` set (counters st)"
    using assms(2) by (simp add: map_of_eq_None_iff)
  then show ?thesis
    using assms by (fastforce simp: wf_store_def getOrCreate_alloc_def al_update_fresh wf_New)
qed

text \<open>The memory does not move: what an address holds is unchanged by the store's own operations.\<close>

lemma GetOrCreate_spec:
  assumes "wf_store st" and "GetOrCreate p now key st = (a, st')"
  shows "wf_store st'"
    and "\<exists>managed. map_of (counters st') key = Some managed \<and> inst managed = a \<and> lastAccessed managed = now"
    and "lookup st' k = (if k = key \<and> lookup st key = None
           then Some (NewWithOptions p (initialScalar st) (vsaOptions st)) else lookup st k)"
    and "initialScalar st' = initialScalar st" and "vsaOptions st' = vsaOptions st"
proof -
  have "wf_store st' \<and> (\<exists>managed. map_of (counters st') key = Some managed \<and> inst managed = a \<and> lastAccessed managed = now)
    \<and> lookup st' k = (if k = key \<and> lookup st key = None
           then Some (NewWithOptions p (initialScalar st) (vsaOptions st)) else lookup st k)
    \<and> initialScalar st' = initialScalar st \<and> vsaOptions st' = vsaOptions st"
  proof (cases "map_of (counters st) key")
    case (Some managed)
    let ?m = "managed\<lparr>lastAccessed := now\<rparr>"
    have st': "st' = st\<lparr>counters := al_update key ?m (counters st)\<rparr>" "a = inst managed"
      using assms(2) Some by (simp_all add: GetOrCreate_def getOrCreate_load_def)
    have "lookup st key \<noteq> None" using Some by (simp add: lookup_def)
    with st' show ?thesis
      using wf_store_update_entry [OF assms(1) Some, of ?m] lookup_update_entry [OF Some, of ?m k]
      by simp
  next
    case None
    obtain b st1 where al: "getOrCreate_alloc p st = (b, st1)" by fastforce
    then have c: "counters st1 = counters st" "initialScalar st1 = initialScalar st" "vsaOptions st1 = vsaOptions st"
      by (auto simp: getOrCreate_alloc_def)
    have st': "st' = st1\<lparr>counters := al_update key \<lparr>inst = b, lastAccessed = now, armed = True\<rparr> (counters st1)\<rparr>" "a = b"
      using assms(2) None al c by (auto simp: GetOrCreate_def getOrCreate_load_def getOrCreate_publish_def)
    have "lookup st key = None" using None by (simp add: lookup_def)
    with st' c show ?thesis
      using wf_store_new_entry [OF assms(1) None al] lookup_new_entry [OF assms(1) None al, of now k]
      by simp
  qed
  then show "wf_store st'"
    and "\<exists>managed. map_of (counters st') key = Some managed \<and> inst managed = a \<and> lastAccessed managed = now"
    and "lookup st' k = (if k = key \<and> lookup st key = None
           then Some (NewWithOptions p (initialScalar st) (vsaOptions st)) else lookup st k)"
    and "initialScalar st' = initialScalar st" and "vsaOptions st' = vsaOptions st"
    by simp_all
qed

lemma GetOrCreate_addr:
  assumes "wf_store st" and "GetOrCreate p now key st = (a, st')"
  shows "a < length (vsas st')" and "lookup st' key = Some (vsas st' ! a)" and "wf_vsa (vsas st' ! a)"
  using GetOrCreate_spec(1,2) [OF assms] wf_store_entry [of st' key]
  by (auto simp: lookup_def)

section \<open>Writing through a pointer\<close>

definition write_vsa :: "addr \<Rightarrow> vsa \<Rightarrow> store \<Rightarrow> store" where
  "write_vsa a v st = st\<lparr>vsas := (vsas st)[a := v]\<rparr>"

lemma wf_store_write: "wf_store st \<Longrightarrow> wf_vsa v \<Longrightarrow> wf_store (write_vsa a v st)"
  using set_update_subset_insert [of "vsas st" a v]
  by (auto simp: wf_store_def write_vsa_def)

lemma same_inst_same_key:
  assumes "wf_store st" and "map_of (counters st) k = Some m" and "map_of (counters st) k' = Some m'"
    and "inst m = inst m'"
  shows "k = k'"
proof -
  have "(k, m) \<in> set (counters st)" "(k', m') \<in> set (counters st)"
    using assms by (simp_all add: map_of_SomeD)
  moreover have "inj_on (inst \<circ> snd) (set (counters st))"
    using assms(1) by (simp add: wf_store_def distinct_map)
  ultimately show ?thesis
    using assms(4) inj_onD [of "inst \<circ> snd" "set (counters st)" "(k, m)" "(k', m')"] by simp
qed

lemma lookup_write:
  assumes "wf_store st" and "map_of (counters st) key = Some managed"
  shows "lookup (write_vsa (inst managed) v st) k = (if k = key then Some v else lookup st k)"
proof (cases "map_of (counters st) k")
  case (Some m)
  have "inst m \<noteq> inst managed" if "k \<noteq> key"
    using that same_inst_same_key [OF assms(1) Some assms(2)] by blast
  with Some assms(2) wf_store_entry [OF assms] show ?thesis
    by (cases "k = key") (simp_all add: lookup_def write_vsa_def)
qed (use assms in \<open>auto simp: lookup_def write_vsa_def\<close>)

section \<open>Deletion\<close>

lemma lookup_Delete:
  assumes "wf_store st"
  shows "lookup (Delete key st) k = (if k = key then None else lookup st k)"
proof (cases "map_of (counters st) key")
  case (Some managed)
  show ?thesis
  proof (cases "map_of (counters st) k")
    case (Some m)
    have "inst m \<noteq> inst managed" if "k \<noteq> key"
      using that same_inst_same_key [OF assms Some \<open>map_of (counters st) key = Some managed\<close>] by blast
    with Some \<open>map_of (counters st) key = Some managed\<close> show ?thesis
      by (cases "k = key") (simp_all add: lookup_def Delete_def)
  qed (use Some in \<open>auto simp: lookup_def Delete_def\<close>)
qed (auto simp: lookup_def Delete_def)

lemma wf_store_Delete: "wf_store st \<Longrightarrow> wf_store (Delete key st)"
proof -
  assume wf: "wf_store st"
  show ?thesis
  proof (cases "map_of (counters st) key")
    case (Some managed)
    let ?st = "write_vsa (inst managed) (Close (vsas st ! inst managed)) st"
    have "wf_store ?st"
      using wf wf_store_entry [OF wf Some] by (intro wf_store_write close_wf) simp_all
    then have "wf_store (?st\<lparr>counters := al_delete key (counters ?st)\<rparr>)"
      by (auto simp: wf_store_def al_delete_def intro: distinct_al_delete [unfolded al_delete_def] distinct_map_filter)
    then show ?thesis using Some by (simp add: Delete_def write_vsa_def wf_store_def)
  qed (use wf in \<open>simp add: Delete_def\<close>)
qed


section \<open>Concurrent creation\<close>

text \<open>
  The atomic steps of other goroutines that may fall between the steps of one \<open>GetOrCreate\<close>:
  loads, allocations and publications for any key, and writes to instances. Deletion of the key
  is not among them.
\<close>

inductive store_step :: "string \<Rightarrow> store \<Rightarrow> store \<Rightarrow> bool" for key :: string where
  step_load: "getOrCreate_load now k st = (r, st') \<Longrightarrow> store_step key st st'"
| step_alloc: "getOrCreate_alloc p st = (a, st') \<Longrightarrow> store_step key st st'"
| step_publish: "getOrCreate_publish now k a st = (r, st') \<Longrightarrow> store_step key st st'"
| step_write: "store_step key st (write_vsa a v st)"
| step_delete: "k \<noteq> key \<Longrightarrow> store_step key st (Delete k st)"

lemma store_step_inst:
  "store_step key st st' \<Longrightarrow> map_of (counters st) key = Some m \<Longrightarrow>
     \<exists>m'. map_of (counters st') key = Some m' \<and> inst m' = inst m"
  by (induction rule: store_step.induct)
    (auto simp: getOrCreate_load_def getOrCreate_alloc_def getOrCreate_publish_def write_vsa_def
      Delete_def split: option.splits)

lemma store_steps_inst:
  "(store_step key)\<^sup>*\<^sup>* st st' \<Longrightarrow> map_of (counters st) key = Some m \<Longrightarrow>
     \<exists>m'. map_of (counters st') key = Some m' \<and> inst m' = inst m"
  by (induction rule: rtranclp_induct) (auto dest: store_step_inst)

section \<open>Properties\<close>

text \<open>
  GetOrCreate is a find-or-insert: it keeps the store well-formed, records the access time,
  returns the instance the key refers to (a new one with the configured budget if the key was
  absent) and leaves every other key's instance untouched.
\<close>

theorem get_or_create_find_or_insert:
  assumes "wf_store st" and "GetOrCreate p now key st = (a, st')"
  shows "wf_store st'
    \<and> (\<exists>m. map_of (counters st') key = Some m \<and> inst m = a \<and> lastAccessed m = now)
    \<and> lookup st' key = Some (case lookup st key of Some v \<Rightarrow> v
        | None \<Rightarrow> NewWithOptions p (initialScalar st) (vsaOptions st))
    \<and> (\<forall>k. k \<noteq> key \<longrightarrow> lookup st' k = lookup st k)"
  using GetOrCreate_spec [OF assms] by (auto split: option.splits)

theorem get_or_create_find_or_insert_witness:
  "lookup (snd (GetOrCreate 4 7 ''alice'' (NewStore 10))) ''alice''
     = Some (NewWithOptions 4 10 default_options)"
proof -
  obtain a st' where g: "GetOrCreate 4 7 ''alice'' (NewStore 10) = (a, st')" by fastforce
  have "wf_store (NewStore 10)" by (simp add: NewStore_def wf_store_new)
  from get_or_create_find_or_insert [OF this g] g show ?thesis
    by (simp add: NewStore_def NewStoreWithOptions_def lookup_def)
qed



end
