(* ===== verification/GoFmt.thy ===== *)
theory GoFmt
  imports Complex_Main Prelude
begin

text \<open>
  Floating-point numbers and the formatting verbs of package fmt that the program uses. A float64 is
  the rational number it denotes; every operation rounds its exact result to 53 bits, ties to even.
  The numbers that occur lie between \<open>2^-64\<close> and \<open>2^64\<close> in magnitude, so overflow, subnormal numbers
  and the special values play no part.
\<close>

section \<open>Rounding\<close>

function int_bits :: "int \<Rightarrow> nat" where
  "int_bits n = (if n \<le> 0 then 0 else Suc (int_bits (n div 2)))"
  by auto
termination
  by (relation "measure nat") auto

declare int_bits.simps [simp del]

text \<open>The integer nearest to \<open>num / den\<close>, ties to even.\<close>

definition half_even :: "int \<Rightarrow> int \<Rightarrow> int" where
  "half_even num den =
     (let q = num div den; r = num mod den in if den < 2 * r \<or> (2 * r = den \<and> odd q) then q + 1 else q)"

definition scaled :: "int \<Rightarrow> int \<Rightarrow> int \<Rightarrow> int \<times> int" where
  "scaled a q e = (a * 2 ^ nat (- e), q * 2 ^ nat e)"

definition f64_exp :: "int \<Rightarrow> int \<Rightarrow> int" where
  "f64_exp a q =
     (let e = int (int_bits a) - int (int_bits q) - 53; (num, den) = scaled a q e
      in if 2 ^ 53 * den \<le> num then e + 1 else e)"

definition pow2 :: "int \<Rightarrow> rat" where
  "pow2 e = (if 0 \<le> e then 2 ^ nat e else 1 / 2 ^ nat (- e))"

definition f64 :: "rat \<Rightarrow> rat" where
  "f64 x =
     (let (p, q) = quotient_of x; a = \<bar>p\<bar>
      in if p = 0 then 0
         else let e = f64_exp a q; (num, den) = scaled a q e
              in of_int (sgn p * half_even num den) * pow2 e)"

definition f64_of_int :: "i64 \<Rightarrow> rat" where
  "f64_of_int n = f64 (of_int (sint n))"

section \<open>Durations\<close>

text \<open>\<open>Duration.Seconds\<close>, and Go's conversion of a float to an integer, which drops the fraction.\<close>

definition Duration_Seconds :: "i64 \<Rightarrow> rat" where
  "Duration_Seconds d = f64 (f64_of_int (go_div d 1000000000) + f64 (f64_of_int (go_mod d 1000000000) / 1000000000))"

definition int_of_f64 :: "rat \<Rightarrow> i64" where
  "int_of_f64 x = word_of_int (if 0 \<le> x then \<lfloor>x\<rfloor> else - \<lfloor>- x\<rfloor>)"

section \<open>Verbs\<close>

definition pad_left :: "nat \<Rightarrow> string \<Rightarrow> string" where
  "pad_left w s = replicate (w - length s) CHR '' '' @ s"

definition pad_right :: "nat \<Rightarrow> string \<Rightarrow> string" where
  "pad_right w s = s @ replicate (w - length s) CHR '' ''"

definition zero_pad :: "nat \<Rightarrow> string \<Rightarrow> string" where
  "zero_pad w s = replicate (w - length s) CHR ''0'' @ s"

text \<open>\<open>%.nf\<close>: the exact value rounded to \<open>prec\<close> decimals, ties to even.\<close>

definition sprintf_f :: "nat \<Rightarrow> rat \<Rightarrow> string" where
  "sprintf_f prec x =
     (let (p, q) = quotient_of x; n = nat (half_even (\<bar>p\<bar> * 10 ^ prec) q);
          ds = nat_digits (n div 10 ^ prec) @ (if prec = 0 then '''' else CHR ''.'' # zero_pad prec (nat_digits (n mod 10 ^ prec)))
      in if p < 0 then CHR ''-'' # ds else ds)"

text \<open>
  \<open>%g\<close>: the shortest decimal that reads back as the same float64, found by trying one to seventeen
  digits. \<open>dec_exp\<close> is the \<open>k\<close> with \<open>10^(k - 1) \<le> num / den < 10^k\<close>; an exponent is printed when
  \<open>k - 1\<close> is below -4 or at least 6.
\<close>

definition dec_exp :: "int \<Rightarrow> int \<Rightarrow> int" where
  "dec_exp num den =
     (if den \<le> num then int (length (nat_digits (nat (num div den))))
      else case find (\<lambda>k. den \<le> num * 10 ^ k) [1..<400] of None \<Rightarrow> 0 | Some k \<Rightarrow> 1 - int k)"

definition shortest_digits :: "rat \<Rightarrow> int \<Rightarrow> int \<Rightarrow> int \<times> nat" where
  "shortest_digits x num den =
     (let k = dec_exp num den;
          digits = \<lambda>n. half_even (num * 10 ^ nat (int n - k)) (den * 10 ^ nat (k - int n));
          ok = \<lambda>n. f64 (of_int (digits n) * 10 ^ nat (k - int n) / 10 ^ nat (int n - k)) = x
      in case find ok [1..<17] of None \<Rightarrow> (digits 17, 17) | Some n \<Rightarrow> (digits n, n))"

definition sprintf_g :: "rat \<Rightarrow> string" where
  "sprintf_g x =
     (let (p, q) = quotient_of x; a = \<bar>p\<bar>; (m, n) = shortest_digits \<bar>x\<bar> a q; ds0 = nat_digits (nat m);
          k = dec_exp a q + int (length ds0) - int n;
          ds = rev (dropWhile (\<lambda>c. c = CHR ''0'') (rev ds0)); nd = int (length ds);
          frac = \<lambda>ds. if ds = '''' then '''' else CHR ''.'' # ds;
          s = (if k - 1 < -4 \<or> 6 \<le> k - 1 then
                 take 1 ds @ frac (drop 1 ds) @ (if k - 1 < 0 then ''e-'' else ''e+'') @ zero_pad 2 (nat_digits (nat \<bar>k - 1\<bar>))
               else if 0 < k then take (nat k) (ds @ replicate (nat (k - nd)) CHR ''0'') @ frac (drop (nat k) ds)
               else ''0.'' @ replicate (nat (- k)) CHR ''0'' @ ds)
      in if p = 0 then ''0'' else if p < 0 then CHR ''-'' # s else s)"

section \<open>Durations\<close>

text \<open>A fraction of \<open>prec\<close> digits without its trailing zeros, and without the point when nothing is left.\<close>

definition fmtFrac :: "nat \<Rightarrow> nat \<Rightarrow> string" where
  "fmtFrac v prec =
     (let ds = rev (dropWhile (\<lambda>c. c = CHR ''0'') (rev (zero_pad prec (nat_digits (v mod 10 ^ prec)))))
      in if ds = '''' then '''' else CHR ''.'' # ds)"

definition Duration_String :: "i64 \<Rightarrow> string" where
  "Duration_String d =
     (let u = nat \<bar>sint d\<bar>;
          sub = \<lambda>prec unit. nat_digits (u div 10 ^ prec) @ fmtFrac u prec @ unit;
          s = (if u = 0 then ''0s''
               else if int u < 1000 then nat_digits u @ ''ns''
               else if int u < 1000000 then sub 3 [CHR 0xC2, CHR 0xB5, CHR ''s'']
               else if int u < 1000000000 then sub 6 ''ms''
               else let secs = u div 10 ^ 9; mins = secs div 60; hours = mins div 60
                    in (if 0 < hours then nat_digits hours @ ''h'' else '''')
                       @ (if 0 < mins then nat_digits (mins mod 60) @ ''m'' else '''')
                       @ nat_digits (secs mod 60) @ fmtFrac u 9 @ ''s'')
      in if sint d < 0 then CHR ''-'' # s else s)"

section \<open>Lemmas\<close>

lemma int_bits_mono: "a \<le> b \<Longrightarrow> int_bits a \<le> int_bits b"
proof (induction a arbitrary: b rule: int_bits.induct)
  case (1 a)
  have "a div 2 \<le> b div 2" using "1.prems" by (intro zdiv_mono1) simp_all
  with 1 show ?case by (subst (1 2) int_bits.simps) auto
qed

lemma half_even_le: "num \<le> k * den \<Longrightarrow> 0 < den \<Longrightarrow> half_even num den \<le> k"
proof -
  assume le: "num \<le> k * den" and den: "0 < den"
  have eq: "num = num div den * den + num mod den" by simp
  show "half_even num den \<le> k"
  proof (cases "num mod den = 0")
    case True
    with eq le den have "num div den * den \<le> k * den" by simp
    with den True show ?thesis by (simp add: half_even_def)
  next
    case False
    with den have "0 < num mod den" using pos_mod_sign [OF den, of num] by linarith
    with eq le have "num div den * den < k * den" by linarith
    with den have "num div den < k" by simp
    then show ?thesis by (simp add: half_even_def Let_def)
  qed
qed

lemma half_even_nonneg: "0 \<le> num \<Longrightarrow> 0 < den \<Longrightarrow> 0 \<le> half_even num den"
  using pos_imp_zdiv_nonneg_iff [of den num] by (simp add: half_even_def Let_def)

lemma pow2_pos: "0 < pow2 e"
  by (simp add: pow2_def)

lemma f64_0 [simp]: "f64 0 = 0"
  by (simp add: f64_def)

lemma f64_nonneg: "0 \<le> x \<Longrightarrow> 0 \<le> f64 x"
proof -
  assume x: "0 \<le> x"
  obtain p q where pq: "quotient_of x = (p, q)" by fastforce
  then have q: "0 < q" by (rule quotient_of_denom_pos)
  have "0 \<le> p" using x pq quotient_of_div [OF pq] q by (simp add: zero_le_divide_iff)
  then show ?thesis
    using q half_even_nonneg [of "p * 2 ^ nat (- f64_exp p q)" "q * 2 ^ nat (f64_exp p q)"] pow2_pos [of "f64_exp p q"]
    by (auto simp: f64_def pq scaled_def sgn_if Let_def intro!: mult_nonneg_nonneg)
qed

lemma f64_le_1: "x \<le> 1 \<Longrightarrow> f64 x \<le> 1"
proof (cases "x \<le> 0")
  case True
  obtain p q where pq: "quotient_of x = (p, q)" by fastforce
  then have q: "0 < q" by (rule quotient_of_denom_pos)
  have "p \<le> 0" using True pq quotient_of_div [OF pq] q by (simp add: divide_le_0_iff)
  then have "f64 x \<le> 0"
    using q half_even_nonneg [of "- p * 2 ^ nat (- f64_exp (- p) q)" "q * 2 ^ nat (f64_exp (- p) q)"] pow2_pos [of "f64_exp (- p) q"]
    by (auto simp: f64_def pq scaled_def sgn_if Let_def mult_le_0_iff mult_nonpos_nonneg intro!: mult_nonneg_nonneg)
  then show ?thesis by simp
next
  case False
  assume x: "x \<le> 1"
  obtain p q where pq: "quotient_of x = (p, q)" by fastforce
  then have q: "0 < q" by (rule quotient_of_denom_pos)
  have p: "0 < p" "p \<le> q" using False x quotient_of_div [OF pq] q by (simp_all add: divide_le_eq zero_less_divide_iff not_le)
  let ?e = "f64_exp p q"
  have e: "?e \<le> 0" using int_bits_mono [OF p(2)] by (simp add: f64_exp_def Let_def split: prod.splits)
  have "half_even (p * 2 ^ nat (- ?e)) q \<le> 2 ^ nat (- ?e)" using p q by (intro half_even_le) simp_all
  then have "of_int (half_even (p * 2 ^ nat (- ?e)) q) \<le> (2 :: rat) ^ nat (- ?e)" by (metis of_int_le_iff of_int_numeral of_int_power)
  then show ?thesis using p e by (auto simp: f64_def pq scaled_def pow2_def Let_def divide_le_eq)
qed

end
