(* ===== verification/Telemetry.thy ===== *)
theory Telemetry
  imports Complex_Main VSA_Props GoFmt
begin

text \<open>
  Process-wide bookkeeping: the event counters and thresholds of core/metrics.go, the mock
  persister of core/persistence.go, and the recording side of the churn telemetry
  (telemetry/churn). What is printed is in the theories \<open>Reports\<close> and \<open>Exporter\<close>. Calls into the Prometheus client library, whose
  code is not part of the repository, are recorded as a list of calls.
\<close>

section \<open>Commits and persisters\<close>

record commit =
  Key :: string
  Vector :: i64

text \<open>
  The \<open>Persister\<close> interface: a batch is accepted (\<open>True\<close>, a nil error) or rejected, and the
  persister's own state changes.
\<close>

type_synonym 'p commit_batch = "commit list \<Rightarrow> 'p \<Rightarrow> bool \<times> 'p"

record mockPersister =
  totalRequests :: i64
  totalWrites :: i64
  totalBatches :: i64

definition NewMockPersister :: mockPersister where
  "NewMockPersister = \<lparr>totalRequests = 0, totalWrites = 0, totalBatches = 0\<rparr>"

fun sumMagnitudes :: "commit list \<Rightarrow> i64 \<Rightarrow> i64" where
  "sumMagnitudes [] acc = acc"
| "sumMagnitudes (c # cs) acc =
     (let v = Vector c; v = (if v <s 0 then - v else v) in sumMagnitudes cs (acc + v))"

definition mock_CommitBatch :: "mockPersister commit_batch" where
  "mock_CommitBatch commits p =
     (if commits = [] then (True, p)
      else (True,
        p\<lparr>totalRequests := totalRequests p + sumMagnitudes commits 0,
          totalWrites := totalWrites p + word_of_nat (length commits),
          totalBatches := totalBatches p + 1\<rparr>))"

section \<open>Event counters and thresholds\<close>

record metrics =
  attempted :: i64
  admits :: i64
  refunds :: i64
  thresholds :: "(string \<times> string) list"

definition RecordAttempt :: "i64 \<Rightarrow> metrics \<Rightarrow> metrics" where
  "RecordAttempt n m = (if 0 <s n then m\<lparr>attempted := attempted m + n\<rparr> else m)"

definition RecordAdmit :: "i64 \<Rightarrow> metrics \<Rightarrow> metrics" where
  "RecordAdmit n m = (if 0 <s n then m\<lparr>admits := admits m + n\<rparr> else m)"

definition RecordRefund :: "i64 \<Rightarrow> metrics \<Rightarrow> metrics" where
  "RecordRefund n m = (if 0 <s n then m\<lparr>refunds := refunds m + n\<rparr> else m)"

definition SetThreshold :: "string \<Rightarrow> string \<Rightarrow> metrics \<Rightarrow> metrics" where
  "SetThreshold name value m = m\<lparr>thresholds := al_update name value (thresholds m)\<rparr>"

definition SetThresholdInt64 :: "string \<Rightarrow> i64 \<Rightarrow> metrics \<Rightarrow> metrics" where
  "SetThresholdInt64 name v m = SetThreshold name (sprintf_d v) m"

definition SetThresholdDuration :: "string \<Rightarrow> i64 \<Rightarrow> metrics \<Rightarrow> metrics" where
  "SetThresholdDuration name d m = SetThreshold name (Duration_String d) m"

definition SetThresholdFloat64 :: "string \<Rightarrow> rat \<Rightarrow> metrics \<Rightarrow> metrics" where
  "SetThresholdFloat64 name f m = SetThreshold name (sprintf_g f) m"

definition SetThresholdBool :: "string \<Rightarrow> bool \<Rightarrow> metrics \<Rightarrow> metrics" where
  "SetThresholdBool name b m = SetThreshold name (if b then ''true'' else ''false'') m"

definition getEventTotals :: "metrics \<Rightarrow> i64 \<times> i64 \<times> i64" where
  "getEventTotals m = (attempted m, admits m, refunds m)"

fun copyThresholds :: "(string \<times> string) list \<Rightarrow> (string \<times> string) list \<Rightarrow> (string \<times> string) list" where
  "copyThresholds [] out = out"
| "copyThresholds ((k, v) # rest) out = copyThresholds rest (al_update k v out)"

definition getThresholdSnapshot :: "metrics \<Rightarrow> (string \<times> string) list" where
  "getThresholdSnapshot m = copyThresholds (thresholds m) []"

definition resetEventTotals :: "metrics \<Rightarrow> metrics" where
  "resetEventTotals m = m\<lparr>attempted := 0, admits := 0, refunds := 0\<rparr>"

fun deleteKeys :: "string list \<Rightarrow> (string \<times> string) list \<Rightarrow> (string \<times> string) list" where
  "deleteKeys [] th = th"
| "deleteKeys (k # ks) th = deleteKeys ks (al_delete k th)"

definition resetThresholdsForTests :: "metrics \<Rightarrow> metrics" where
  "resetThresholdsForTests m = m\<lparr>thresholds := deleteKeys (map fst (thresholds m)) (thresholds m)\<rparr>"

section \<open>Churn recording\<close>

record keyAgg =
  ka_abs :: i64
  ka_net :: i64
  ka_lastUpdate :: i64

datatype prom_call =
    NaiveWritesInc
  | RowsPerBatchObserve i64
  | CommitsRowsAdd i64
  | CommitErrorsAdd i64
  | KeysTrackedSet i64
  | WriteReductionSet rat
  | ChurnRatioSet rat

record churn =
  modEnabled :: bool
  samplingThreshold :: u64
  agg :: "(u64 \<times> keyAgg) list"
  naiveWritesInternal :: i64
  naiveWritesAll :: i64
  commitRowsInternal :: i64
  sumAbsGlobal :: i64
  sumNetGlobal :: i64
  promCalls :: "prom_call list"

definition hashKey :: "string \<Rightarrow> u64" where
  "hashKey key = fnv64a (string_bytes key)"

definition sampled :: "churn \<Rightarrow> string \<Rightarrow> bool" where
  "sampled c key = (if samplingThreshold c = 0 then False else hashKey key \<le> samplingThreshold c)"

text \<open>
  The sampling threshold that \<open>Enable\<close> computes. Multiplying a float by two to the power 64 only
  changes its exponent and truncation is exact, so rational arithmetic gives the same result.
\<close>

definition sampling_threshold :: "rat \<Rightarrow> u64" where
  "sampling_threshold rate =
     (if rate \<le> 0 then 0
      else if 1 \<le> rate then NOT 0
      else let f = rate * 2 ^ 64; f = (if f < 1 then 1 else f) in word_of_int \<lfloor>f\<rfloor> - 1)"

definition getAgg :: "u64 \<Rightarrow> churn \<Rightarrow> keyAgg" where
  "getAgg h c =
     (case map_of (agg c) h of Some ka \<Rightarrow> ka | None \<Rightarrow> \<lparr>ka_abs = 0, ka_net = 0, ka_lastUpdate = 0\<rparr>)"

definition exporterRecordAdmit :: "i64 \<Rightarrow> u64 \<Rightarrow> churn \<Rightarrow> churn" where
  "exporterRecordAdmit now h c =
     (let ka = getAgg h c
      in c\<lparr>agg := al_update h (ka\<lparr>ka_abs := ka_abs ka + 1, ka_lastUpdate := now\<rparr>) (agg c),
           naiveWritesInternal := naiveWritesInternal c + 1,
           sumAbsGlobal := sumAbsGlobal c + 1\<rparr>)"

definition exporterRecordCommit :: "i64 \<Rightarrow> u64 \<Rightarrow> i64 \<Rightarrow> churn \<Rightarrow> churn" where
  "exporterRecordCommit now h vec c =
     (let ka = getAgg h c; v = (if vec <s 0 then - vec else vec)
      in c\<lparr>agg := al_update h (ka\<lparr>ka_net := ka_net ka + v, ka_lastUpdate := now\<rparr>) (agg c),
           sumNetGlobal := sumNetGlobal c + v\<rparr>)"

definition exporterObserveBatchInternal :: "i64 \<Rightarrow> churn \<Rightarrow> churn" where
  "exporterObserveBatchInternal sz c =
     (if 0 <s sz then c\<lparr>commitRowsInternal := commitRowsInternal c + sz\<rparr> else c)"

definition ObserveRequest :: "i64 \<Rightarrow> string \<Rightarrow> bool \<Rightarrow> churn \<Rightarrow> churn" where
  "ObserveRequest now key admitted c =
     (if \<not> modEnabled c then c
      else if admitted then
        let c1 = c\<lparr>promCalls := promCalls c @ [NaiveWritesInc], naiveWritesAll := naiveWritesAll c + 1\<rparr>
        in if key \<noteq> '''' \<and> sampled c1 key then exporterRecordAdmit now (hashKey key) c1 else c1
      else c)"

definition ObserveBatch :: "i64 \<Rightarrow> churn \<Rightarrow> churn" where
  "ObserveBatch sz c =
     (if \<not> modEnabled c \<or> sz \<le>s 0 then c
      else exporterObserveBatchInternal sz
             (c\<lparr>promCalls := promCalls c @ [RowsPerBatchObserve sz, CommitsRowsAdd sz]\<rparr>))"

definition ObserveCommit :: "i64 \<Rightarrow> string \<Rightarrow> i64 \<Rightarrow> churn \<Rightarrow> churn" where
  "ObserveCommit now key vec c =
     (if \<not> modEnabled c \<or> key = '''' \<or> vec = 0 then c
      else if sampled c key then exporterRecordCommit now (hashKey key) vec c else c)"

definition ObserveCommitError :: "i64 \<Rightarrow> churn \<Rightarrow> churn" where
  "ObserveCommitError n c =
     (if \<not> modEnabled c \<or> n \<le>s 0 then c else c\<lparr>promCalls := promCalls c @ [CommitErrorsAdd n]\<rparr>)"

section \<open>Lemmas\<close>

lemma magnitude_abs: "(if v <s 0 then - v else v) = abs_i64 v"
  by (simp add: abs_i64_def)

lemma sumMagnitudes_eq: "sumMagnitudes cs t = t + (\<Sum>c\<leftarrow>cs. abs_i64 (Vector c))"
  by (induction cs arbitrary: t) (simp_all add: Let_def magnitude_abs add.assoc)

lemma mock_accepts: "fst (mock_CommitBatch cs p)"
  by (simp add: mock_CommitBatch_def)

lemma mock_totalRequests:
  "totalRequests (snd (mock_CommitBatch cs p)) = totalRequests p + (\<Sum>c\<leftarrow>cs. abs_i64 (Vector c))"
  by (simp add: mock_CommitBatch_def sumMagnitudes_eq)

text \<open>The churn module never changes its own switches while recording.\<close>

lemma observe_frame [simp]:
  "modEnabled (ObserveRequest now key b c) = modEnabled c"
  "modEnabled (ObserveBatch sz c) = modEnabled c"
  "modEnabled (ObserveCommit now key vec c) = modEnabled c"
  "modEnabled (ObserveCommitError n c) = modEnabled c"
  "samplingThreshold (ObserveRequest now key b c) = samplingThreshold c"
  "samplingThreshold (ObserveBatch sz c) = samplingThreshold c"
  "samplingThreshold (ObserveCommit now key vec c) = samplingThreshold c"
  "samplingThreshold (ObserveCommitError n c) = samplingThreshold c"
  by (simp_all add: ObserveRequest_def ObserveBatch_def ObserveCommit_def ObserveCommitError_def
      exporterRecordAdmit_def exporterRecordCommit_def exporterObserveBatchInternal_def Let_def)

text \<open>Per-key magnitudes add up to the global sums.\<close>

lemma sum_al_update:
  assumes "distinct (map fst ps)"
  shows "(\<Sum>p\<leftarrow>al_update k x ps. f (snd p)) =
    (\<Sum>p\<leftarrow>ps. f (snd p)) - (case map_of ps k of None \<Rightarrow> 0 | Some y \<Rightarrow> f y) + (f x :: i64)"
  using assms by (induction ps) auto

definition agg_consistent :: "churn \<Rightarrow> bool" where
  "agg_consistent c \<longleftrightarrow>
     distinct (map fst (agg c)) \<and> sumAbsGlobal c = (\<Sum>p\<leftarrow>agg c. ka_abs (snd p))
     \<and> sumNetGlobal c = (\<Sum>p\<leftarrow>agg c. ka_net (snd p))
     \<and> naiveWritesInternal c = sumAbsGlobal c"

lemma exporterRecordAdmit_consistent: "agg_consistent c \<Longrightarrow> agg_consistent (exporterRecordAdmit now h c)"
  by (simp add: agg_consistent_def exporterRecordAdmit_def Let_def getAgg_def distinct_al_update
      sum_al_update split: option.split)

lemma exporterRecordCommit_consistent: "agg_consistent c \<Longrightarrow> agg_consistent (exporterRecordCommit now h vec c)"
  by (simp add: agg_consistent_def exporterRecordCommit_def Let_def getAgg_def distinct_al_update
      sum_al_update split: option.split)

end
