(* ===== verification/Worker.thy ===== *)
theory Worker
  imports Store Telemetry
begin

text \<open>
  The background worker (internal/ratelimiter/core/worker.go): the commit cycle with its
  watermarks and age bound, the final flush, the eviction cycle and the two loops. The persister
  is a parameter of every operation. \<open>clk\<close> gives the successive readings of the wall clock
  within one call.
\<close>

section \<open>State\<close>

record worker =
  commitThreshold :: i64
  lowCommitThreshold :: i64
  commitInterval :: i64
  commitMaxAge :: i64
  evictionAge :: i64
  evictionInterval :: i64

text \<open>What the worker acts on: the store, the persister and the telemetry.\<close>

record 'p system =
  sstore :: store
  spersister :: 'p
  schurn :: churn

text \<open>The three parallel slices that a scan fills.\<close>

record batch =
  commits :: "commit list"
  vsaToCommit :: "addr list"
  vectorsToCommit :: "i64 list"

definition empty_batch :: batch where
  "empty_batch = \<lparr>commits = [], vsaToCommit = [], vectorsToCommit = []\<rparr>"

definition NewWorker :: "i64 \<Rightarrow> i64 \<Rightarrow> i64 \<Rightarrow> i64 \<Rightarrow> i64 \<Rightarrow> i64 \<Rightarrow> worker" where
  "NewWorker threshold low interval maxAge evAge evInterval =
     \<lparr>commitThreshold = threshold, lowCommitThreshold = low, commitInterval = interval,
      commitMaxAge = maxAge, evictionAge = evAge, evictionInterval = evInterval\<rparr>"

section \<open>The commit cycle\<close>

definition append_commit :: "string \<Rightarrow> managedVSA \<Rightarrow> i64 \<Rightarrow> batch \<Rightarrow> batch" where
  "append_commit key v vec b =
     \<lparr>commits = commits b @ [\<lparr>Key = key, Vector = vec\<rparr>],
      vsaToCommit = vsaToCommit b @ [inst v],
      vectorsToCommit = vectorsToCommit b @ [vec]\<rparr>"

text \<open>The callback of the scan: whether to commit the entry, and its re-arming.\<close>

definition commitDecision :: "worker \<Rightarrow> i64 \<Rightarrow> i64 \<Rightarrow> managedVSA \<Rightarrow> bool \<times> managedVSA" where
  "commitDecision w now vec v =
     (let absVec = (if vec <s 0 then - vec else vec);
          commitByThreshold = (commitThreshold w \<le>s absVec);
          last = lastAccessed v;
          commitByMaxAge = (0 <s commitMaxAge w \<and> vec \<noteq> 0 \<and> commitMaxAge w \<le>s time_Sub now last);
          shouldCommit = (commitByThreshold \<and> (lowCommitThreshold w \<le>s 0 \<or> armed v));
          v1 = (if \<not> commitByThreshold \<and> 0 <s lowCommitThreshold w \<and> \<not> armed v
                   \<and> absVec \<le>s lowCommitThreshold w
                then v\<lparr>armed := True\<rparr> else v);
          shouldCommit = (if commitByMaxAge then True else shouldCommit)
      in (shouldCommit, if shouldCommit then v1\<lparr>armed := False\<rparr> else v1))"

definition collectCommit :: "worker \<Rightarrow> i64 \<Rightarrow> vsa list \<Rightarrow> string \<Rightarrow> managedVSA \<Rightarrow> batch \<Rightarrow> managedVSA \<times> batch" where
  "collectCommit w now mem key v b =
     (let vec = snd (State (mem ! inst v));
          (shouldCommit, v1) = commitDecision w now vec v
      in (v1, if shouldCommit then append_commit key v vec b else b))"

fun observeCommits :: "(nat \<Rightarrow> i64) \<Rightarrow> commit list \<Rightarrow> churn \<Rightarrow> churn" where
  "observeCommits clk [] c = c"
| "observeCommits clk (cm # cs) c =
     observeCommits (clk \<circ> Suc) cs (ObserveCommit (clk 0) (Key cm) (Vector cm) c)"

fun applyCommits :: "addr list \<Rightarrow> i64 list \<Rightarrow> vsa list \<Rightarrow> vsa list" where
  "applyCommits (a # as) (x # xs) mem = applyCommits as xs (mem[a := Commit x (mem ! a)])"
| "applyCommits _ _ mem = mem"

text \<open>The part after the scan, which \<open>runCommitCycle\<close> and \<open>runFinalFlush\<close> have in common.\<close>

definition persistBatch :: "'p commit_batch \<Rightarrow> (nat \<Rightarrow> i64) \<Rightarrow> batch \<Rightarrow> 'p system \<Rightarrow> 'p system" where
  "persistBatch cb clk b s =
     (if commits b = [] then s
      else case cb (commits b) (spersister s) of
             (False, p) \<Rightarrow> s\<lparr>spersister := p, schurn := ObserveCommitError 1 (schurn s)\<rparr>
           | (True, p) \<Rightarrow>
               s\<lparr>spersister := p,
                 schurn := observeCommits clk (commits b)
                   (ObserveBatch (word_of_nat (length (commits b))) (schurn s)),
                 sstore := (sstore s)\<lparr>vsas :=
                   applyCommits (vsaToCommit b) (vectorsToCommit b) (vsas (sstore s))\<rparr>\<rparr>)"

definition commitScan :: "worker \<Rightarrow> i64 \<Rightarrow> store \<Rightarrow> store \<times> batch" where
  "commitScan w now st =
     (let (cs, b) = ForEach (collectCommit w now (vsas st)) (counters st) empty_batch
      in (st\<lparr>counters := cs\<rparr>, b))"

definition runCommitCycle :: "'p commit_batch \<Rightarrow> worker \<Rightarrow> (nat \<Rightarrow> i64) \<Rightarrow> 'p system \<Rightarrow> 'p system" where
  "runCommitCycle cb w clk s =
     (let (st, b) = commitScan w (clk 0) (sstore s)
      in persistBatch cb (clk \<circ> Suc) b (s\<lparr>sstore := st\<rparr>))"

section \<open>The final flush\<close>

definition collectFlush :: "vsa list \<Rightarrow> string \<Rightarrow> managedVSA \<Rightarrow> batch \<Rightarrow> managedVSA \<times> batch" where
  "collectFlush mem key v b =
     (let vector = snd (State (mem ! inst v))
      in (v, if vector \<noteq> 0 then append_commit key v vector b else b))"

definition runFinalFlush :: "'p commit_batch \<Rightarrow> (nat \<Rightarrow> i64) \<Rightarrow> 'p system \<Rightarrow> 'p system" where
  "runFinalFlush cb clk s =
     (let st = sstore s; (cs, b) = ForEach (collectFlush (vsas st)) (counters st) empty_batch
      in persistBatch cb clk b (s\<lparr>sstore := st\<lparr>counters := cs\<rparr>\<rparr>))"

section \<open>Eviction\<close>

definition collectEvict :: "worker \<Rightarrow> i64 \<Rightarrow> string \<Rightarrow> managedVSA \<Rightarrow> string list \<Rightarrow> managedVSA \<times> string list" where
  "collectEvict w now key v keys =
     (v, if evictionAge w <s time_Sub now (lastAccessed v) then keys @ [key] else keys)"

definition evictKey :: "'p commit_batch \<Rightarrow> worker \<Rightarrow> i64 \<Rightarrow> string \<Rightarrow> 'p system \<Rightarrow> 'p system" where
  "evictKey cb w now key s =
     (case map_of (counters (sstore s)) key of
        None \<Rightarrow> s
      | Some managed \<Rightarrow>
          if time_Sub now (lastAccessed managed) \<le>s evictionAge w then s
          else let v = vsas (sstore s) ! inst managed; vector = snd (State v)
               in if vector \<noteq> 0 then
                    case cb [\<lparr>Key = key, Vector = vector\<rparr>] (spersister s) of
                      (False, p) \<Rightarrow> s\<lparr>spersister := p\<rparr>
                    | (True, p) \<Rightarrow>
                        s\<lparr>spersister := p,
                          sstore := Delete key (write_vsa (inst managed) (Commit vector v) (sstore s))\<rparr>
                  else s\<lparr>sstore := Delete key (sstore s)\<rparr>)"

fun evictKeys :: "'p commit_batch \<Rightarrow> worker \<Rightarrow> (nat \<Rightarrow> i64) \<Rightarrow> string list \<Rightarrow> 'p system \<Rightarrow> 'p system" where
  "evictKeys cb w clk [] s = s"
| "evictKeys cb w clk (key # keys) s = evictKeys cb w (clk \<circ> Suc) keys (evictKey cb w (clk 0) key s)"

definition runEvictionCycle :: "'p commit_batch \<Rightarrow> worker \<Rightarrow> (nat \<Rightarrow> i64) \<Rightarrow> 'p system \<Rightarrow> 'p system" where
  "runEvictionCycle cb w clk s =
     (let (cs, keysToEvict) = ForEach (collectEvict w (clk 0)) (counters (sstore s)) []
      in evictKeys cb w (clk \<circ> Suc) keysToEvict (s\<lparr>sstore := (sstore s)\<lparr>counters := cs\<rparr>\<rparr>))"

section \<open>The loops\<close>

text \<open>
  The two goroutines that \<open>Start\<close> launches and the stop channel that \<open>Stop\<close> closes. A \<open>select\<close>
  with both a tick and the closed channel ready may take either branch.
\<close>

record 'p running =
  rsys :: "'p system"
  commitLoopOn :: bool
  evictionLoopOn :: bool
  stopped :: bool

definition Start :: "'p system \<Rightarrow> 'p running" where
  "Start s = \<lparr>rsys = s, commitLoopOn = True, evictionLoopOn = True, stopped = False\<rparr>"

definition Stop :: "'p running \<Rightarrow> 'p running" where
  "Stop r = (if stopped r then r else r\<lparr>stopped := True\<rparr>)"

inductive worker_step :: "'p commit_batch \<Rightarrow> worker \<Rightarrow> 'p running \<Rightarrow> 'p running \<Rightarrow> bool"
  for cb :: "'p commit_batch" and w :: worker where
  commit_tick: "commitLoopOn r \<Longrightarrow> worker_step cb w r (r\<lparr>rsys := runCommitCycle cb w clk (rsys r)\<rparr>)"
| commit_stop: "commitLoopOn r \<Longrightarrow> stopped r \<Longrightarrow>
    worker_step cb w r (r\<lparr>rsys := runFinalFlush cb clk (rsys r), commitLoopOn := False\<rparr>)"
| eviction_tick: "evictionLoopOn r \<Longrightarrow> worker_step cb w r (r\<lparr>rsys := runEvictionCycle cb w clk (rsys r)\<rparr>)"
| eviction_stop: "evictionLoopOn r \<Longrightarrow> stopped r \<Longrightarrow> worker_step cb w r (r\<lparr>evictionLoopOn := False\<rparr>)"
| stop_call: "worker_step cb w r (Stop r)"

end
