(* ===== verification/Worker_Props.thy ===== *)
theory Worker_Props
  imports Worker
begin

text \<open>
  Lemmas on the worker: what a scan selects, what persisting a batch does to every key, and the
  conservation of usage between memory and the persister's ledger, proved once for any persister
  that keeps a ledger (locale \<open>ledger_persister\<close>).
\<close>

section \<open>Committing the whole net\<close>

lemma Commit_full:
  "Commit (currentVector v) v = v\<lparr>scalar := scalar v - abs_i64 (currentVector v),
     committedOffset := committedOffset v + currentVector v, approxNet := approxNet v - currentVector v\<rparr>"
proof (cases "currentVector v = 0")
  case False
  then show ?thesis
    by (cases "0 < sint (currentVector v)")
      (simp_all add: Commit_def Let_def slt_iff abs_i64_nonneg abs_i64_nonpos)
qed simp

lemma Commit_full_net [simp]: "currentVector (Commit (currentVector v) v) = 0"
  by (simp add: Commit_full) (simp add: currentVector_def)

lemma Commit_full_Available [simp]: "Available (Commit (currentVector v) v) = Available v"
  unfolding Available_def by (subst Commit_full_net) (simp add: Commit_full)

section \<open>Scans\<close>

lemma ForEach_select:
  assumes "\<And>key v b. f key v b = (g key v, if sel key v then append_commit key v (vec v) b else b)"
  shows "ForEach f cs b =
    (map (\<lambda>(k, v). (k, g k v)) cs,
     \<lparr>commits = commits b @ map (\<lambda>(k, v). \<lparr>Key = k, Vector = vec v\<rparr>) (filter (\<lambda>(k, v). sel k v) cs),
      vsaToCommit = vsaToCommit b @ map (inst \<circ> snd) (filter (\<lambda>(k, v). sel k v) cs),
      vectorsToCommit = vectorsToCommit b @ map (vec \<circ> snd) (filter (\<lambda>(k, v). sel k v) cs)\<rparr>)"
proof (induction cs arbitrary: b)
  case (Cons p cs)
  obtain k v where "p = (k, v)" by (cases p)
  then show ?case by (simp add: assms [of k v] Cons append_commit_def)
qed simp

text \<open>The batch of all entries that satisfy a selection, with their current vectors.\<close>

definition batch_of :: "(string \<Rightarrow> managedVSA \<Rightarrow> bool) \<Rightarrow> store \<Rightarrow> batch" where
  "batch_of sel st =
     (let es = filter (\<lambda>(k, v). sel k v) (counters st); vec = \<lambda>v. currentVector (vsas st ! inst v)
      in \<lparr>commits = map (\<lambda>(k, v). \<lparr>Key = k, Vector = vec v\<rparr>) es,
          vsaToCommit = map (inst \<circ> snd) es, vectorsToCommit = map (vec \<circ> snd) es\<rparr>)"

definition cycle_selects :: "worker \<Rightarrow> i64 \<Rightarrow> store \<Rightarrow> string \<Rightarrow> managedVSA \<Rightarrow> bool" where
  "cycle_selects w now st k v = fst (commitDecision w now (currentVector (vsas st ! inst v)) v)"

definition flush_selects :: "store \<Rightarrow> string \<Rightarrow> managedVSA \<Rightarrow> bool" where
  "flush_selects st k v \<longleftrightarrow> currentVector (vsas st ! inst v) \<noteq> 0"

definition rearm :: "worker \<Rightarrow> i64 \<Rightarrow> store \<Rightarrow> managedVSA \<Rightarrow> managedVSA" where
  "rearm w now st v = snd (commitDecision w now (currentVector (vsas st ! inst v)) v)"

lemma commitDecision_inst [simp]:
  "inst (snd (commitDecision w now vec v)) = inst v"
  "lastAccessed (snd (commitDecision w now vec v)) = lastAccessed v"
  by (simp_all add: commitDecision_def Let_def)

lemma rearm_keeps [simp]: "inst (rearm w now st v) = inst v" "lastAccessed (rearm w now st v) = lastAccessed v"
  by (simp_all add: rearm_def)

lemma commitScan_eq:
  "commitScan w now st =
     (st\<lparr>counters := map (\<lambda>(k, v). (k, rearm w now st v)) (counters st)\<rparr>, batch_of (cycle_selects w now st) st)"
proof -
  have collect: "collectCommit w now (vsas st) key v b = (rearm w now st v, if cycle_selects w now st key v
      then append_commit key v (currentVector (vsas st ! inst v)) b else b)" for key v b
    by (simp add: collectCommit_def rearm_def cycle_selects_def State_def Let_def split: prod.split)
  have "ForEach (collectCommit w now (vsas st)) (counters st) empty_batch =
    (map (\<lambda>(k, v). (k, rearm w now st v)) (counters st), batch_of (cycle_selects w now st) st)"
    using ForEach_select [of "collectCommit w now (vsas st)" "\<lambda>k v. rearm w now st v"
        "cycle_selects w now st" "\<lambda>v. currentVector (vsas st ! inst v)" "counters st" empty_batch]
    by (simp add: collect batch_of_def Let_def empty_batch_def)
  then show ?thesis by (simp add: commitScan_def)
qed

lemma runCommitCycle_eq:
  "runCommitCycle cb w clk s =
     persistBatch cb (clk \<circ> Suc) (batch_of (cycle_selects w (clk 0) (sstore s)) (sstore s))
       (s\<lparr>sstore := (sstore s)\<lparr>counters :=
          map (\<lambda>(k, v). (k, rearm w (clk 0) (sstore s) v)) (counters (sstore s))\<rparr>\<rparr>)"
  by (simp add: runCommitCycle_def commitScan_eq)

lemma runFinalFlush_eq:
  "runFinalFlush cb clk s = persistBatch cb clk (batch_of (flush_selects (sstore s)) (sstore s)) s"
proof -
  have collect: "collectFlush (vsas (sstore s)) key v b = (v, if flush_selects (sstore s) key v
      then append_commit key v (currentVector (vsas (sstore s) ! inst v)) b else b)" for key v b
    by (simp add: collectFlush_def flush_selects_def State_def)
  have "ForEach (collectFlush (vsas (sstore s))) (counters (sstore s)) empty_batch =
    (map (\<lambda>(k, v). (k, v)) (counters (sstore s)), batch_of (flush_selects (sstore s)) (sstore s))"
    using ForEach_select [of "collectFlush (vsas (sstore s))" "\<lambda>k v. v" "flush_selects (sstore s)"
        "\<lambda>v. currentVector (vsas (sstore s) ! inst v)" "counters (sstore s)" empty_batch]
    by (simp add: collect batch_of_def Let_def empty_batch_def)
  then show ?thesis by (simp add: runFinalFlush_def Let_def)
qed

lemma ForEach_collectEvict:
  "ForEach (collectEvict w now) cs keys =
     (cs, keys @ map fst (filter (\<lambda>(k, v). evictionAge w <s time_Sub now (lastAccessed v)) cs))"
proof (induction cs arbitrary: keys)
  case (Cons p cs)
  obtain k v where "p = (k, v)" by (cases p)
  then show ?case by (simp add: collectEvict_def [of w now k v] Cons)
qed simp

lemma runEvictionCycle_eq:
  "runEvictionCycle cb w clk s = evictKeys cb w (clk \<circ> Suc)
     (map fst (filter (\<lambda>(k, v). evictionAge w <s time_Sub (clk 0) (lastAccessed v)) (counters (sstore s)))) s"
  by (simp add: runEvictionCycle_def ForEach_collectEvict)

section \<open>Applying a batch\<close>

lemma length_applyCommits [simp]: "length (applyCommits as xs mem) = length mem"
  by (induction as xs mem rule: applyCommits.induct) simp_all

lemma nth_applyCommits:
  "distinct as \<Longrightarrow> set as \<subseteq> {..<length mem} \<Longrightarrow>
     applyCommits as (map f as) mem ! a = (if a \<in> set as then Commit (f a) (mem ! a) else mem ! a)"
proof (induction as arbitrary: mem)
  case (Cons x as)
  then show ?case by (cases "a = x") (auto simp: nth_list_update)
qed simp

lemma applyCommits_wf:
  "distinct as \<Longrightarrow> set as \<subseteq> {..<length mem} \<Longrightarrow> \<forall>v \<in> set mem. wf_vsa v \<Longrightarrow>
     \<forall>v \<in> set (applyCommits as (map f as) mem). wf_vsa v"
  unfolding all_set_conv_all_nth by (simp add: nth_applyCommits Commit_wf)

lemma selected_addresses:
  assumes "wf_store st"
  shows "distinct (vsaToCommit (batch_of sel st))" and "set (vsaToCommit (batch_of sel st)) \<subseteq> {..<length (vsas st)}"
    and "vectorsToCommit (batch_of sel st) = map (\<lambda>a. currentVector (vsas st ! a)) (vsaToCommit (batch_of sel st))"
  using assms
  by (auto simp: batch_of_def Let_def wf_store_def intro: distinct_map_filter)

text \<open>The store after a batch has been persisted and applied.\<close>

definition applied :: "(string \<Rightarrow> managedVSA \<Rightarrow> bool) \<Rightarrow> store \<Rightarrow> vsa list" where
  "applied sel st = applyCommits (vsaToCommit (batch_of sel st)) (vectorsToCommit (batch_of sel st)) (vsas st)"

lemma nth_applied:
  assumes "wf_store st"
  shows "applied sel st ! a = (if a \<in> set (vsaToCommit (batch_of sel st))
    then Commit (currentVector (vsas st ! a)) (vsas st ! a) else vsas st ! a)"
  using selected_addresses [OF assms, of sel] by (simp add: applied_def nth_applyCommits)

lemma applied_wf: "wf_store st \<Longrightarrow> v \<in> set (applied sel st) \<Longrightarrow> wf_vsa v"
  using selected_addresses [of st sel] applyCommits_wf by (fastforce simp: applied_def wf_store_def)

lemma selected_entry:
  assumes "wf_store st" and "map_of (counters st) k = Some m"
  shows "inst m \<in> set (vsaToCommit (batch_of sel st)) \<longleftrightarrow> sel k m"
proof
  assume "inst m \<in> set (vsaToCommit (batch_of sel st))"
  then obtain k' m' where "(k', m') \<in> set (counters st)" "sel k' m'" "inst m' = inst m"
    by (auto simp: batch_of_def Let_def)
  moreover from this have "map_of (counters st) k' = Some m'"
    using assms(1) by (simp add: wf_store_def)
  ultimately show "sel k m"
    using same_inst_same_key [OF assms(1) _ assms(2), of k' m'] assms(2) by auto
qed (use map_of_SomeD [OF assms(2)] in \<open>force simp: batch_of_def Let_def\<close>)

lemma map_of_map_entries: "map_of (map (\<lambda>(k, v). (k, g v)) ps) k = map_option g (map_of ps k)"
  by (induction ps) auto

text \<open>A map over the entries that keeps their instances keeps the store well-formed.\<close>

lemma wf_store_map_entries:
  assumes "wf_store st" and "\<And>m. inst (g m) = inst m" and "length mem = length (vsas st)"
    and "\<And>v. v \<in> set mem \<Longrightarrow> wf_vsa v"
  shows "wf_store (st\<lparr>counters := map (\<lambda>(k, m). (k, g m)) (counters st), vsas := mem\<rparr>)"
proof -
  have "fst \<circ> (\<lambda>(k, m). (k, g m)) = (fst :: string \<times> managedVSA \<Rightarrow> string)"
    and "(inst \<circ> snd) \<circ> (\<lambda>(k, m). (k, g m)) = (inst \<circ> snd :: string \<times> managedVSA \<Rightarrow> addr)"
    using assms(2) by (auto simp: fun_eq_iff)
  with assms show ?thesis by (auto simp: wf_store_def)
qed

section \<open>Persisting a batch\<close>

text \<open>The outcome of a batch for every key, when the persister accepts it and when it refuses.\<close>

lemma lookup_map_entries:
  assumes "\<And>m. inst (g m) = inst m"
  shows "lookup (st\<lparr>counters := map (\<lambda>(k, m). (k, g m)) (counters st)\<rparr>) k = lookup st k"
  using assms by (simp add: lookup_def map_of_map_entries option.map_comp comp_def)

lemma lookup_applied:
  assumes "wf_store st" and "\<And>m. inst (g m) = inst m"
  shows "lookup (st\<lparr>counters := map (\<lambda>(k, m). (k, g m)) (counters st), vsas := applied sel st\<rparr>) k =
    map_option (\<lambda>m. let v = vsas st ! inst m in if sel k m then Commit (currentVector v) v else v)
      (map_of (counters st) k)"
  using assms(2) selected_entry [OF assms(1), of k _ sel]
  by (cases "map_of (counters st) k") (simp_all add: lookup_def map_of_map_entries nth_applied [OF assms(1)] Let_def)

lemma persistBatch_accepted:
  assumes "commits b \<noteq> []" and "cb (commits b) (spersister s) = (True, p)"
  shows "spersister (persistBatch cb clk b s) = p"
    and "sstore (persistBatch cb clk b s) =
      (sstore s)\<lparr>vsas := applyCommits (vsaToCommit b) (vectorsToCommit b) (vsas (sstore s))\<rparr>"
  using assms by (simp_all add: persistBatch_def)

lemma persistBatch_refused:
  assumes "commits b \<noteq> []" and "cb (commits b) (spersister s) = (False, p)"
  shows "spersister (persistBatch cb clk b s) = p" and "sstore (persistBatch cb clk b s) = sstore s"
  using assms by (simp_all add: persistBatch_def)

text \<open>One statement for the cycle and the flush: a scan with a selection and a map on the entries.\<close>

definition scan_persist where
  "scan_persist cb clk sel g s = persistBatch cb clk (batch_of sel (sstore s))
     (s\<lparr>sstore := (sstore s)\<lparr>counters := map (\<lambda>(k, m). (k, g m)) (counters (sstore s))\<rparr>\<rparr>)"

lemma runCommitCycle_scan:
  "runCommitCycle cb w clk s = scan_persist cb (clk \<circ> Suc) (cycle_selects w (clk 0) (sstore s)) (rearm w (clk 0) (sstore s)) s"
  by (simp add: runCommitCycle_eq scan_persist_def)

lemma runFinalFlush_scan:
  "runFinalFlush cb clk s = scan_persist cb clk (flush_selects (sstore s)) (\<lambda>m. m) s"
  by (simp add: runFinalFlush_eq scan_persist_def)

definition accepted where
  "accepted cb sel s \<longleftrightarrow> fst (cb (commits (batch_of sel (sstore s))) (spersister s))"

lemma scan_persist_store:
  assumes "\<And>m. inst (g m) = inst m"
  shows "sstore (scan_persist cb clk sel g s) =
    (sstore s)\<lparr>counters := map (\<lambda>(k, m). (k, g m)) (counters (sstore s)),
       vsas := if accepted cb sel s \<or> commits (batch_of sel (sstore s)) = [] then applied sel (sstore s)
               else vsas (sstore s)\<rparr>"
proof (cases "commits (batch_of sel (sstore s)) = []")
  case True
  then have "vsaToCommit (batch_of sel (sstore s)) = []" by (simp add: batch_of_def Let_def)
  with True show ?thesis by (simp add: scan_persist_def persistBatch_def applied_def)
next
  case False
  obtain ok p where "cb (commits (batch_of sel (sstore s))) (spersister s) = (ok, p)" by fastforce
  with False show ?thesis
    by (cases ok) (simp_all add: scan_persist_def persistBatch_def accepted_def applied_def)
qed

lemma scan_persist_wf:
  assumes "wf_store (sstore s)" and "\<And>m. inst (g m) = inst m"
  shows "wf_store (sstore (scan_persist cb clk sel g s))"
proof -
  have "length (applied sel (sstore s)) = length (vsas (sstore s))" by (simp add: applied_def)
  then show ?thesis
    unfolding scan_persist_store [of g, OF assms(2)]
    using assms applied_wf [OF assms(1)]
    by (intro wf_store_map_entries) (auto simp: wf_store_def split: if_splits)
qed

lemma scan_persist_lookup:
  assumes "wf_store (sstore s)" and "\<And>m. inst (g m) = inst m"
  shows "lookup (sstore (scan_persist cb clk sel g s)) k =
    map_option (\<lambda>m. let v = vsas (sstore s) ! inst m
        in if sel k m \<and> accepted cb sel s then Commit (currentVector v) v else v)
      (map_of (counters (sstore s)) k)"
proof (cases "accepted cb sel s \<or> commits (batch_of sel (sstore s)) = []")
  case True
  have "\<not> sel k m" if "commits (batch_of sel (sstore s)) = []" "map_of (counters (sstore s)) k = Some m" for m
    using that map_of_SomeD by (fastforce simp: batch_of_def Let_def filter_empty_conv)
  with True show ?thesis
    unfolding scan_persist_store [of g, OF assms(2)]
    by (cases "map_of (counters (sstore s)) k") (auto simp: lookup_applied assms Let_def)
next
  case False
  then show ?thesis
    unfolding scan_persist_store [of g, OF assms(2)]
    by (simp add: lookup_map_entries assms(2)) (simp add: lookup_def Let_def)
qed

section \<open>Vectors per key\<close>

definition net :: "store \<Rightarrow> string \<Rightarrow> i64" where
  "net st k = (case lookup st k of None \<Rightarrow> 0 | Some v \<Rightarrow> currentVector v)"

abbreviation store_keys :: "store \<Rightarrow> string list" where
  "store_keys st \<equiv> map fst (counters st)"

lemma net_entry: "wf_store st \<Longrightarrow> (k, m) \<in> set (counters st) \<Longrightarrow> net st k = currentVector (vsas st ! inst m)"
  by (simp add: net_def lookup_def wf_store_def)

lemma net_absent: "k \<notin> set (store_keys st) \<Longrightarrow> net st k = 0"
  by (simp add: net_def lookup_def map_of_eq_None_iff [THEN iffD2])

lemma scan_persist_keys:
  "(\<And>m. inst (g m) = inst m) \<Longrightarrow> store_keys (sstore (scan_persist cb clk sel g s)) = store_keys (sstore s)"
  by (simp add: scan_persist_store split_beta)

lemma scan_persist_net:
  assumes "wf_store (sstore s)" and "\<And>m. inst (g m) = inst m" and "(k, m) \<in> set (counters (sstore s))"
  shows "net (sstore (scan_persist cb clk sel g s)) k = (if sel k m \<and> accepted cb sel s then 0 else net (sstore s) k)"
proof -
  have m: "map_of (counters (sstore s)) k = Some m" using assms(1,3) by (simp add: wf_store_def)
  then have "lookup (sstore s) k = Some (vsas (sstore s) ! inst m)" by (simp add: lookup_def)
  with m show ?thesis
    using scan_persist_lookup [of s g, OF assms(1,2), of cb clk sel k] by (simp add: net_def Let_def)
qed

text \<open>The decisions of the scan read as integers.\<close>

lemma cycle_selects_iff:
  "cycle_selects w now st k m \<longleftrightarrow>
     commitThreshold w \<le>s abs_i64 (currentVector (vsas st ! inst m)) \<and> (lowCommitThreshold w \<le>s 0 \<or> armed m)
     \<or> 0 <s commitMaxAge w \<and> currentVector (vsas st ! inst m) \<noteq> 0 \<and> commitMaxAge w \<le>s time_Sub now (lastAccessed m)"
  by (auto simp: cycle_selects_def commitDecision_def Let_def abs_i64_def)

section \<open>Eviction\<close>

text \<open>
  The three outcomes for one key: nothing (absent or fresh), a refused final commit, and the
  removal of a stale entry whose vector is zero or was accepted by the persister.
\<close>

lemma evictKey_cases:
  obtains (kept) "evictKey cb w now key s = s"
      and "\<And>m. map_of (counters (sstore s)) key = Some m \<Longrightarrow> time_Sub now (lastAccessed m) \<le>s evictionAge w"
  | (refused) m p where "map_of (counters (sstore s)) key = Some m" and "net (sstore s) key \<noteq> 0"
      and "cb [\<lparr>Key = key, Vector = net (sstore s) key\<rparr>] (spersister s) = (False, p)"
      and "evictKey cb w now key s = s\<lparr>spersister := p\<rparr>"
  | (accepted) m p where "map_of (counters (sstore s)) key = Some m" and "net (sstore s) key \<noteq> 0"
      and "evictionAge w <s time_Sub now (lastAccessed m)"
      and "cb [\<lparr>Key = key, Vector = net (sstore s) key\<rparr>] (spersister s) = (True, p)"
      and "evictKey cb w now key s = s\<lparr>spersister := p, sstore := Delete key (write_vsa (inst m)
        (Commit (currentVector (vsas (sstore s) ! inst m)) (vsas (sstore s) ! inst m)) (sstore s))\<rparr>"
  | (zero) m where "map_of (counters (sstore s)) key = Some m" and "net (sstore s) key = 0"
      and "evictionAge w <s time_Sub now (lastAccessed m)"
      and "evictKey cb w now key s = s\<lparr>sstore := Delete key (sstore s)\<rparr>"
proof (cases "map_of (counters (sstore s)) key")
  case None
  then show ?thesis using kept by (simp add: evictKey_def)
next
  case (Some m)
  have nt: "net (sstore s) key = currentVector (vsas (sstore s) ! inst m)"
    using Some by (simp add: net_def lookup_def)
  show ?thesis
  proof (cases "time_Sub now (lastAccessed m) \<le>s evictionAge w")
    case True
    then show ?thesis using Some kept by (simp add: evictKey_def)
  next
    case False
    then have stale: "evictionAge w <s time_Sub now (lastAccessed m)" by (simp add: int64)
    obtain ok p where "cb [\<lparr>Key = key, Vector = net (sstore s) key\<rparr>] (spersister s) = (ok, p)" by fastforce
    then show ?thesis
      using Some False nt stale refused accepted zero
      by (cases "net (sstore s) key = 0"; cases ok) (simp_all add: evictKey_def State_def Let_def)
  qed
qed

lemma evict_accepted_lookup:
  assumes "wf_store st" and "map_of (counters st) key = Some m"
  shows "lookup (Delete key (write_vsa (inst m) v st)) k = (if k = key then None else lookup st k)"
proof -
  have "distinct (map fst (counters (write_vsa (inst m) v st)))"
    using assms(1) by (simp add: wf_store_def write_vsa_def)
  show ?thesis
  proof (cases "map_of (counters st) k")
    case (Some m')
    have "inst m' \<noteq> inst m" if "k \<noteq> key"
      using that same_inst_same_key [OF assms(1) Some assms(2)] by blast
    with Some assms(2) show ?thesis
      by (cases "k = key") (simp_all add: lookup_def Delete_def write_vsa_def)
  qed (use assms(2) in \<open>auto simp: lookup_def Delete_def write_vsa_def\<close>)
qed

lemma evictKey_wf: "wf_store (sstore s) \<Longrightarrow> wf_store (sstore (evictKey cb w now key s))"
proof (cases rule: evictKey_cases [of cb w now key s])
  case (accepted m p)
  assume wf: "wf_store (sstore s)"
  then have "wf_vsa (vsas (sstore s) ! inst m)" using accepted(1) wf_store_entry by blast
  with wf accepted(5) show ?thesis by (simp add: wf_store_Delete wf_store_write Commit_wf)
qed (simp_all add: wf_store_Delete)

text \<open>Eviction of one key leaves what every other key refers to unchanged.\<close>

lemma evictKey_lookup:
  assumes "wf_store (sstore s)"
  shows "lookup (sstore (evictKey cb w now key s)) k = lookup (sstore s) k
    \<or> k = key \<and> lookup (sstore (evictKey cb w now key s)) k = None
      \<and> (\<exists>m. map_of (counters (sstore s)) k = Some m \<and> evictionAge w <s time_Sub now (lastAccessed m))"
proof (cases rule: evictKey_cases [of cb w now key s])
  case (accepted m p)
  then show ?thesis using evict_accepted_lookup [OF assms accepted(1), of _ k] by auto
next
  case (zero m)
  then show ?thesis using lookup_Delete [OF assms, of key k] by auto
qed simp_all

lemma evictKey_entries:
  "map_of (counters (sstore (evictKey cb w now key s))) k \<in> {map_of (counters (sstore s)) k, None}"
  by (cases rule: evictKey_cases [of cb w now key s]) (auto simp: Delete_def write_vsa_def)

end
