(* ===== verification/Worker_Runs.thy ===== *)
theory Worker_Runs
  imports Worker_Props
begin

text \<open>
  Runs of the worker and its properties: conservation of usage between memory and any persister
  that keeps a ledger, completeness of the final flush, the exposure bound of the commit cycle,
  safety of eviction, and the scheduling facts that follow from re-arming and from the two loops
  running side by side.
\<close>

section \<open>Persisters that keep a ledger\<close>

text \<open>What is still in memory, weighed as the ledger weighs it.\<close>

definition outstanding :: "(commit \<Rightarrow> 'i \<Rightarrow> i64) \<Rightarrow> store \<Rightarrow> 'i \<Rightarrow> i64" where
  "outstanding weight st i = (\<Sum>k\<leftarrow>store_keys st. weight \<lparr>Key = k, Vector = net st k\<rparr> i)"

lemma evictKeys_wf: "wf_store (sstore s) \<Longrightarrow> wf_store (sstore (evictKeys cb w clk keys s))"
  by (induction keys arbitrary: clk s) (simp_all add: evictKey_wf)

lemma worker_step_wf: "worker_step cb w r r' \<Longrightarrow> wf_store (sstore (rsys r)) \<Longrightarrow> wf_store (sstore (rsys r'))"
  by (induction rule: worker_step.induct)
    (simp_all add: runCommitCycle_scan runFinalFlush_scan runEvictionCycle_eq scan_persist_wf evictKeys_wf Stop_def)

lemma worker_run_wf: "(worker_step cb w)\<^sup>*\<^sup>* r r' \<Longrightarrow> wf_store (sstore (rsys r)) \<Longrightarrow> wf_store (sstore (rsys r'))"
  by (induction rule: rtranclp_induct) (auto dest: worker_step_wf)

locale ledger_persister =
  fixes cb :: "'p commit_batch" and weight :: "commit \<Rightarrow> 'i \<Rightarrow> i64" and ledger :: "'p \<Rightarrow> 'i \<Rightarrow> i64"
  assumes accepted_adds: "cb cs p = (True, p') \<Longrightarrow> ledger p' i = ledger p i + (\<Sum>c\<leftarrow>cs. weight c i)"
    and refused_keeps: "cb cs p = (False, p') \<Longrightarrow> ledger p' i = ledger p i"
    and weight_zero: "weight \<lparr>Key = k, Vector = 0\<rparr> i = 0"
begin

definition total_usage :: "'p system \<Rightarrow> 'i \<Rightarrow> i64" where
  "total_usage s i = ledger (spersister s) i + outstanding weight (sstore s) i"

lemma sum_filter_split:
  fixes f :: "'a \<Rightarrow> i64"
  shows "(\<Sum>x\<leftarrow>filter P xs. f x) + (\<Sum>x\<leftarrow>xs. if P x then 0 else f x) = (\<Sum>x\<leftarrow>xs. f x)"
  by (induction xs) (simp_all add: ac_simps)

lemma batch_weight:
  assumes "wf_store st"
  shows "(\<Sum>c\<leftarrow>commits (batch_of sel st). weight c i) =
    (\<Sum>x\<leftarrow>filter (case_prod sel) (counters st). weight \<lparr>Key = fst x, Vector = net st (fst x)\<rparr> i)"
proof -
  have "net st (fst x) = currentVector (vsas st ! inst (snd x))" if "x \<in> set (counters st)" for x
    using that net_entry [OF assms, of "fst x" "snd x"] by simp
  then have "map (\<lambda>x. weight \<lparr>Key = fst x, Vector = currentVector (vsas st ! inst (snd x))\<rparr> i) (filter (case_prod sel) (counters st))
    = map (\<lambda>x. weight \<lparr>Key = fst x, Vector = net st (fst x)\<rparr> i) (filter (case_prod sel) (counters st))"
    by simp
  moreover have "map (\<lambda>c. weight c i) (commits (batch_of sel st)) =
    map (\<lambda>x. weight \<lparr>Key = fst x, Vector = currentVector (vsas st ! inst (snd x))\<rparr> i) (filter (case_prod sel) (counters st))"
    by (simp add: batch_of_def Let_def split_beta comp_def)
  ultimately show ?thesis by (simp only:)
qed

lemma scan_persist_conserves:
  assumes "wf_store (sstore s)" and "\<And>m. inst (g m) = inst m"
  shows "total_usage (scan_persist cb clk sel g s) i = total_usage s i"
proof -
  let ?b = "batch_of sel (sstore s)" and ?s = "scan_persist cb clk sel g s" and ?cs = "counters (sstore s)"
  let ?w = "\<lambda>x. weight \<lparr>Key = fst x, Vector = net (sstore s) (fst x)\<rparr> i"
  have out: "outstanding weight (sstore ?s) i =
    (\<Sum>x\<leftarrow>?cs. if case_prod sel x \<and> accepted cb sel s then 0 else ?w x)"
  proof -
    have "weight \<lparr>Key = fst x, Vector = net (sstore ?s) (fst x)\<rparr> i =
      (if case_prod sel x \<and> accepted cb sel s then 0 else ?w x)" if "x \<in> set ?cs" for x
      using that scan_persist_net [of s g "fst x" "snd x" cb clk sel, OF assms]
      by (simp add: weight_zero split_beta)
    then have "map (\<lambda>x. weight \<lparr>Key = fst x, Vector = net (sstore ?s) (fst x)\<rparr> i) ?cs
      = map (\<lambda>x. if case_prod sel x \<and> accepted cb sel s then 0 else ?w x) ?cs" by simp
    then show ?thesis
      unfolding outstanding_def scan_persist_keys [of g, OF assms(2)] map_map comp_def by (simp only:)
  qed
  have plain: "outstanding weight (sstore s) i = (\<Sum>x\<leftarrow>?cs. ?w x)"
    by (simp add: outstanding_def comp_def)
  obtain ok p where p: "cb (commits ?b) (spersister s) = (ok, p)" by fastforce
  have led: "ledger (spersister ?s) i =
    ledger (spersister s) i + (if accepted cb sel s then (\<Sum>x\<leftarrow>filter (case_prod sel) ?cs. ?w x) else 0)"
  proof (cases "commits ?b = []")
    case True
    then have "filter (case_prod sel) ?cs = []" by (simp add: batch_of_def Let_def)
    with True show ?thesis by (simp add: scan_persist_def persistBatch_def)
  next
    case False
    have "ledger p i = ledger (spersister s) i + (if ok then (\<Sum>x\<leftarrow>filter (case_prod sel) ?cs. ?w x) else 0)"
      using p accepted_adds [of "commits ?b" "spersister s" p i] refused_keeps [of "commits ?b" "spersister s" p i]
        batch_weight [OF assms(1), where sel = sel and i = i] by (cases ok) simp_all
    with False p show ?thesis
      by (cases ok) (simp_all add: scan_persist_def persistBatch_def accepted_def)
  qed
  show ?thesis
    using sum_filter_split [of ?w "case_prod sel" ?cs]
    by (cases "accepted cb sel s") (simp_all add: total_usage_def out plain led add.assoc)
qed

lemma sum_al_delete:
  fixes f :: "string \<Rightarrow> i64"
  shows "distinct (map fst cs) \<Longrightarrow> map_of cs key = Some m \<Longrightarrow>
    (\<Sum>k\<leftarrow>map fst (al_delete key cs). f k) + f key = (\<Sum>k\<leftarrow>map fst cs. f k)"
proof (induction cs)
  case (Cons p cs)
  show ?case
  proof (cases "fst p = key")
    case True
    then have "al_delete key cs = cs"
      using Cons.prems(1) by (intro al_delete_absent) simp
    with True show ?thesis by (simp add: al_delete_def add.commute)
  next
    case False
    with Cons show ?thesis by (cases p) (simp add: al_delete_def add.assoc)
  qed
qed simp

text \<open>Removing a key takes exactly its own weight out of memory.\<close>

lemma outstanding_remove:
  assumes "wf_store st" and "map_of (counters st) key = Some m" and "store_keys st' = map fst (al_delete key (counters st))"
    and "\<And>k. k \<noteq> key \<Longrightarrow> lookup st' k = lookup st k"
  shows "outstanding weight st' i + weight \<lparr>Key = key, Vector = net st key\<rparr> i = outstanding weight st i"
proof -
  have "map (\<lambda>k. weight \<lparr>Key = k, Vector = net st' k\<rparr> i) (map fst (al_delete key (counters st)))
    = map (\<lambda>k. weight \<lparr>Key = k, Vector = net st k\<rparr> i) (map fst (al_delete key (counters st)))"
    using assms(4) by (auto simp: al_delete_def net_def)
  moreover have "distinct (store_keys st)" using assms(1) by (simp add: wf_store_def)
  note sum_al_delete [OF this assms(2), of "\<lambda>k. weight \<lparr>Key = k, Vector = net st k\<rparr> i"]
  ultimately show ?thesis unfolding outstanding_def assms(3) by (simp only:)
qed

lemma evictKey_conserves:
  assumes "wf_store (sstore s)"
  shows "total_usage (evictKey cb w now key s) i = total_usage s i"
proof (cases rule: evictKey_cases [of cb w now key s])
  case (refused m p)
  then show ?thesis using refused_keeps [OF refused(3)] by (simp add: total_usage_def)
next
  case (accepted m p)
  let ?st = "sstore (evictKey cb w now key s)"
  have "outstanding weight ?st i + weight \<lparr>Key = key, Vector = net (sstore s) key\<rparr> i = outstanding weight (sstore s) i"
  proof (rule outstanding_remove [OF assms accepted(1)])
    show "store_keys ?st = map fst (al_delete key (counters (sstore s)))"
      using accepted by (simp add: Delete_def write_vsa_def)
    show "lookup ?st k = lookup (sstore s) k" if "k \<noteq> key" for k
      using that accepted(5) evict_accepted_lookup [OF assms accepted(1), of _ k] by simp
  qed
  then show ?thesis
    using accepted(5) accepted_adds [OF accepted(4), of i] by (simp add: total_usage_def ac_simps)
next
  case (zero m)
  let ?st = "sstore (evictKey cb w now key s)"
  have "outstanding weight ?st i + weight \<lparr>Key = key, Vector = net (sstore s) key\<rparr> i = outstanding weight (sstore s) i"
  proof (rule outstanding_remove [OF assms zero(1)])
    show "store_keys ?st = map fst (al_delete key (counters (sstore s)))"
      using zero by (simp add: Delete_def)
    show "lookup ?st k = lookup (sstore s) k" if "k \<noteq> key" for k
      using that zero(4) lookup_Delete [OF assms, of key k] by simp
  qed
  then show ?thesis using zero weight_zero by (simp add: total_usage_def)
qed simp

lemma evictKeys_conserves:
  "wf_store (sstore s) \<Longrightarrow> total_usage (evictKeys cb w clk keys s) i = total_usage s i"
  by (induction keys arbitrary: clk s) (simp_all add: evictKey_conserves evictKey_wf)

lemma worker_step_conserves:
  "worker_step cb w r r' \<Longrightarrow> wf_store (sstore (rsys r)) \<Longrightarrow>
     total_usage (rsys r') i = total_usage (rsys r) i"
  by (induction rule: worker_step.induct)
    (simp_all add: runCommitCycle_scan runFinalFlush_scan runEvictionCycle_eq scan_persist_conserves
      evictKeys_conserves Stop_def)

lemma run_conserves:
  "(worker_step cb w)\<^sup>*\<^sup>* r r' \<Longrightarrow> wf_store (sstore (rsys r)) \<Longrightarrow>
     total_usage (rsys r') i = total_usage (rsys r) i"
  by (induction rule: rtranclp_induct) (simp_all add: worker_step_conserves [OF _ worker_run_wf])

end

text \<open>The mock persister keeps such a ledger: the sum of the magnitudes it was given.\<close>

interpretation mock: ledger_persister mock_CommitBatch "\<lambda>c (i :: unit). abs_i64 (Vector c)" "\<lambda>p i. totalRequests p"
proof
  show "totalRequests p' = totalRequests p + (\<Sum>c\<leftarrow>cs. abs_i64 (Vector c))"
    if "mock_CommitBatch cs p = (True, p')" for cs p p' and i :: unit
    using that mock_totalRequests [of cs p] by simp
  show "totalRequests p' = totalRequests p" if "mock_CommitBatch cs p = (False, p')" for cs p p' and i :: unit
    using that mock_accepts [of cs p] by simp
qed simp

section \<open>Flushing and exposure\<close>

lemma accepted_scan:
  "accepted cb (cycle_selects w now (sstore s)) s \<longleftrightarrow> fst (cb (commits (snd (commitScan w now (sstore s)))) (spersister s))"
  by (simp add: accepted_def commitScan_eq)

lemma scan_persist_Available:
  assumes "wf_store (sstore s)" and "\<And>m. inst (g m) = inst m"
  shows "map_option Available (lookup (sstore (scan_persist cb clk sel g s)) k) = map_option Available (lookup (sstore s) k)"
  unfolding scan_persist_lookup [of s g, OF assms]
  by (cases "map_of (counters (sstore s)) k") (simp_all add: lookup_def Let_def)

lemma flush_net:
  assumes "wf_store (sstore s)" and "accepted cb (flush_selects (sstore s)) s"
  shows "net (sstore (runFinalFlush cb clk s)) k = 0"
proof (cases "map_of (counters (sstore s)) k")
  case (Some m)
  then have e: "(k, m) \<in> set (counters (sstore s))" by (rule map_of_SomeD)
  show ?thesis
    unfolding runFinalFlush_scan using assms(2) net_entry [OF assms(1) e]
    by (subst scan_persist_net [OF assms(1) _ e]) (simp_all add: flush_selects_def)
next
  case None
  then have "k \<notin> set (store_keys (sstore (runFinalFlush cb clk s)))"
    unfolding runFinalFlush_scan by (subst scan_persist_keys) (simp_all add: map_of_eq_None_iff)
  then show ?thesis by (rule net_absent)
qed

text \<open>With nothing left in memory, a scan for the flush finds nothing to commit.\<close>

lemma flush_idle:
  assumes "wf_store (sstore s)" and "\<And>k. net (sstore s) k = 0"
  shows "runFinalFlush cb clk s = s"
proof -
  have "\<not> flush_selects (sstore s) k m" if "(k, m) \<in> set (counters (sstore s))" for k m
    using assms net_entry [OF assms(1) that] by (simp add: flush_selects_def)
  then have "commits (batch_of (flush_selects (sstore s)) (sstore s)) = []"
    by (auto simp: batch_of_def Let_def filter_empty_conv)
  then show ?thesis by (simp add: runFinalFlush_eq persistBatch_def)
qed

lemma evictKey_zero:
  assumes "wf_store (sstore s)" and "\<And>k. net (sstore s) k = 0"
  shows "net (sstore (evictKey cb w now key s)) k = 0"
proof -
  consider "lookup (sstore (evictKey cb w now key s)) k = lookup (sstore s) k"
    | "lookup (sstore (evictKey cb w now key s)) k = None"
    using evictKey_lookup [OF assms(1), of cb w now key k] by auto
  then show ?thesis using assms(2) [of k] by cases (simp_all add: net_def)
qed

lemma evictKeys_zero:
  "wf_store (sstore s) \<Longrightarrow> \<forall>k. net (sstore s) k = 0 \<Longrightarrow> \<forall>k. net (sstore (evictKeys cb w clk keys s)) k = 0"
  by (induction keys arbitrary: clk s) (simp_all add: evictKey_wf evictKey_zero)

text \<open>Once the commit loop has ended, every vector is zero.\<close>

lemma loop_end_flushed:
  assumes "\<And>cs p. fst (cb cs p)" and "(worker_step cb w)\<^sup>*\<^sup>* r r'" and "wf_store (sstore (rsys r))" and "commitLoopOn r"
  shows "commitLoopOn r' \<or> (\<forall>k. net (sstore (rsys r')) k = 0)"
  using assms(2)
proof (induction rule: rtranclp_induct)
  case (step r1 r2)
  have wf: "wf_store (sstore (rsys r1))" using worker_run_wf step.hyps(1) assms(3) by blast
  from step.hyps(2) show ?case
  proof cases
    case (commit_stop clk)
    then show ?thesis using flush_net [OF wf] assms(1) by (simp add: accepted_def)
  next
    case (eviction_tick clk)
    then show ?thesis using step.IH evictKeys_zero [OF wf] by (auto simp: runEvictionCycle_eq)
  qed (use step.IH in \<open>auto simp: Stop_def\<close>)
qed (simp add: assms(4))

section \<open>Eviction and re-arming\<close>

text \<open>
  An eviction run removes a key only if it was stale at the second check, and only with a zero
  vector or after the persister accepted it.
\<close>

lemma evictKeys_lookup:
  assumes "wf_store (sstore s)" and "lookup (sstore s) k = Some v"
  shows "lookup (sstore (evictKeys cb w clk keys s)) k = Some v
    \<or> lookup (sstore (evictKeys cb w clk keys s)) k = None \<and> k \<in> set keys
      \<and> (currentVector v = 0 \<or> (\<exists>p. fst (cb [\<lparr>Key = k, Vector = currentVector v\<rparr>] p)))"
  using assms
proof (induction keys arbitrary: clk s)
  case (Cons key keys)
  let ?s = "evictKey cb w (clk 0) key s"
  have nt: "net (sstore s) k = currentVector v" using Cons.prems(2) by (simp add: net_def)
  have gone: "lookup (sstore (evictKeys cb w clk' keys s')) k = None" if "wf_store (sstore s')" "lookup (sstore s') k = None" for clk' s'
    using that
  proof (induction keys arbitrary: clk' s')
    case (Cons key keys)
    have "lookup (sstore (evictKey cb w (clk' 0) key s')) k = None"
      using evictKey_lookup [OF Cons.prems(1), of cb w "clk' 0" key k] Cons.prems(2) by auto
    then show ?case using Cons by (simp add: evictKey_wf)
  qed simp
  consider (same) "lookup (sstore ?s) k = Some v"
    | (removed) "k = key" "lookup (sstore ?s) k = None" "net (sstore s) k = 0 \<or> (\<exists>p. fst (cb [\<lparr>Key = k, Vector = net (sstore s) k\<rparr>] p))"
  proof (cases rule: evictKey_cases [of cb w "clk 0" key s])
    case (accepted m p)
    have "fst (cb [\<lparr>Key = key, Vector = net (sstore s) key\<rparr>] (spersister s))" using accepted(4) by simp
    then show ?thesis using that accepted(5) evict_accepted_lookup [OF Cons.prems(1) accepted(1), of _ k] Cons.prems(2)
      by (cases "k = key") auto
  next
    case (zero m)
    then show ?thesis using that lookup_Delete [OF Cons.prems(1), of key k] Cons.prems(2) by (cases "k = key") auto
  qed (use that Cons.prems(2) in simp_all)
  then show ?case
  proof cases
    case same
    then show ?thesis using Cons.IH [of ?s] Cons.prems(1) by (auto simp: evictKey_wf)
  next
    case removed
    then show ?thesis using gone [of ?s "clk \<circ> Suc"] Cons.prems(1) nt by (auto simp: evictKey_wf)
  qed
qed simp

lemma evictKeys_only_old: "k \<notin> set (store_keys (sstore s)) \<Longrightarrow> k \<notin> set (store_keys (sstore (evictKeys cb w clk keys s)))"
proof (induction keys arbitrary: clk s)
  case (Cons key keys)
  have "map_of (counters (sstore s)) k = None" using Cons.prems by (simp add: map_of_eq_None_iff)
  then have "map_of (counters (sstore (evictKey cb w (clk 0) key s))) k = None"
    using evictKey_entries [of cb w "clk 0" key s k] by auto
  then show ?case using Cons.IH by (simp add: map_of_eq_None_iff)
qed simp

text \<open>
  A disarmed entry above the low watermark is neither selected nor re-armed by a cycle when the
  age bound is off.
\<close>

lemma disarmed_cycle:
  assumes "wf_store (sstore s)" and "map_of (counters (sstore s)) k = Some m" and "\<not> armed m"
    and "0 <s lowCommitThreshold w" and "lowCommitThreshold w <s abs_i64 (net (sstore s) k)" and "commitMaxAge w \<le>s 0"
  shows "net (sstore (runCommitCycle cb w clk s)) k = net (sstore s) k"
    and "\<exists>m'. map_of (counters (sstore (runCommitCycle cb w clk s))) k = Some m' \<and> \<not> armed m'"
proof -
  have e: "(k, m) \<in> set (counters (sstore s))" using assms(2) by (rule map_of_SomeD)
  have nt: "net (sstore s) k = currentVector (vsas (sstore s) ! inst m)" by (rule net_entry [OF assms(1) e])
  have "\<not> cycle_selects w (clk 0) (sstore s) k m"
    using assms(3,4,6) by (auto simp: cycle_selects_iff int64)
  then show "net (sstore (runCommitCycle cb w clk s)) k = net (sstore s) k"
    unfolding runCommitCycle_scan by (subst scan_persist_net [OF assms(1) _ e]) simp_all
  have "\<not> armed (rearm w (clk 0) (sstore s) m)"
    using assms(3-6) nt by (auto simp: rearm_def commitDecision_def Let_def abs_i64_def slt_iff sle_iff split: if_splits)
  then show "\<exists>m'. map_of (counters (sstore (runCommitCycle cb w clk s))) k = Some m' \<and> \<not> armed m'"
    unfolding runCommitCycle_scan using assms(2)
    by (subst scan_persist_store) (simp_all add: map_of_map_entries)
qed

section \<open>Properties\<close>

text \<open>A store with one key that has used 7 of its 10 units, for the concrete instances below.\<close>

definition example_vsa :: vsa where
  "example_vsa = (allocVSA 8 10 default_options)\<lparr>stripes := 7 # replicate 7 0, approxNet := 7\<rparr>"

definition example_system :: "'p \<Rightarrow> 'p system" where
  "example_system p =
     \<lparr>sstore = \<lparr>counters = [(''alice'', \<lparr>inst = 0, lastAccessed = 0, armed = True\<rparr>)], initialScalar = 10,
        vsaOptions = default_options, vsas = [example_vsa]\<rparr>,
      spersister = p,
      schurn = \<lparr>modEnabled = False, samplingThreshold = 0, agg = [], naiveWritesInternal = 0, naiveWritesAll = 0,
        commitRowsInternal = 0, sumAbsGlobal = 0, sumNetGlobal = 0, promCalls = []\<rparr>\<rparr>"

lemma example_store_wf: "wf_store (sstore (example_system p))"
proof -
  have "wf_store (sstore (example_system ()))" by code_simp
  then show ?thesis by (simp add: example_system_def)
qed

lemma example_net: "net (sstore (example_system p)) ''alice'' = 7"
proof -
  have "net (sstore (example_system ())) ''alice'' = 7" by code_simp
  then show ?thesis by (simp add: example_system_def)
qed





text \<open>
  C15. A commit cycle is invisible to clients, whatever the watermarks, ages, clock and persister:
  the store stays well-formed, keeps its keys, and every key has exactly the availability it had.
  If the batch of the cycle is refused, every instance is unchanged; if it is accepted, every key
  it names has a zero vector and every other instance is unchanged.
\<close>

theorem commit_cycle_outcome:
  assumes "wf_store (sstore s)" and "runCommitCycle cb w clk s = s'"
    and "commits (snd (commitScan w (clk 0) (sstore s))) = batch"
  shows "wf_store (sstore s') \<and> map fst (counters (sstore s')) = map fst (counters (sstore s))
    \<and> (\<forall>k. map_option Available (lookup (sstore s') k) = map_option Available (lookup (sstore s) k))
    \<and> (\<forall>k. lookup (sstore s') k =
          (if fst (cb batch (spersister s)) \<and> k \<in> Key ` set batch
           then map_option (\<lambda>v. Commit (currentVector v) v) (lookup (sstore s) k) else lookup (sstore s) k))"
proof -
  let ?sel = "cycle_selects w (clk 0) (sstore s)"
  have s': "s' = scan_persist cb (clk \<circ> Suc) ?sel (rearm w (clk 0) (sstore s)) s"
    using assms(2) by (simp add: runCommitCycle_scan)
  have acc: "accepted cb ?sel s \<longleftrightarrow> fst (cb batch (spersister s))" using assms(3) by (simp add: accepted_scan)
  have bt: "batch = commits (batch_of ?sel (sstore s))" using assms(3) by (simp add: commitScan_eq)
  have named: "k \<in> Key ` set batch \<longleftrightarrow> ?sel k m" if m: "map_of (counters (sstore s)) k = Some m" for k m
  proof -
    have "m' = m" if "(k, m') \<in> set (counters (sstore s))" for m'
      using that m assms(1) by (auto simp: wf_store_def dest: map_of_is_SomeI)
    moreover have "Key ` set batch = {k. \<exists>m'. (k, m') \<in> set (counters (sstore s)) \<and> ?sel k m'}"
      unfolding bt batch_of_def Let_def by (auto simp: image_iff split_beta)
    ultimately show ?thesis using map_of_SomeD [OF m] by blast
  qed
  have "lookup (sstore s') k = (if fst (cb batch (spersister s)) \<and> k \<in> Key ` set batch
           then map_option (\<lambda>v. Commit (currentVector v) v) (lookup (sstore s) k) else lookup (sstore s) k)" for k
  proof (cases "map_of (counters (sstore s)) k")
    case (Some m)
    then show ?thesis
      unfolding s' using named [OF Some] acc
      by (subst scan_persist_lookup [OF assms(1)]) (simp_all add: lookup_def Let_def)
  next
    case None
    then show ?thesis unfolding s' by (subst scan_persist_lookup [OF assms(1)]) (simp_all add: lookup_def)
  qed
  moreover have "wf_store (sstore s')" unfolding s' by (rule scan_persist_wf [OF assms(1)]) simp
  moreover have "store_keys (sstore s') = store_keys (sstore s)" unfolding s' by (rule scan_persist_keys) simp
  moreover have "map_option Available (lookup (sstore s') k) = map_option Available (lookup (sstore s) k)" for k
    unfolding s' by (rule scan_persist_Available [OF assms(1)]) simp
  ultimately show ?thesis by blast
qed

theorem commit_cycle_outcome_witness:
  "map_option Available (lookup (sstore (runCommitCycle (\<lambda>cs p. (length cs < 9, p)) (NewWorker 5 0 0 0 0 0) (\<lambda>_. 9) (example_system ()))) ''alice'')
     = Some 3"
proof -
  have "map_option Available (lookup (sstore (example_system ())) ''alice'') = Some 3" by code_simp
  with commit_cycle_outcome [OF example_store_wf [of "()"] refl refl, where cb = "\<lambda>cs p. (length cs < 9, p)" and w = "NewWorker 5 0 0 0 0 0"
      and clk = "\<lambda>_. 9", THEN conjunct2, THEN conjunct2, THEN conjunct1, THEN spec, of "''alice''"]
  show ?thesis by simp
qed

text \<open>
  C16. Exposure bound. Without hysteresis, after a commit cycle whose batch was accepted no key
  has an unpersisted vector of magnitude at or above the (positive) commit threshold.
\<close>

theorem exposure_bound:
  assumes "wf_store (sstore s)" and "lowCommitThreshold w \<le>s 0" and "0 <s commitThreshold w"
    and "fst (cb (commits (snd (commitScan w (clk 0) (sstore s)))) (spersister s))"
    and "sint (net (sstore s) k) \<noteq> - (2 ^ 63)"
  shows "\<bar>sint (net (sstore (runCommitCycle cb w clk s)) k)\<bar> < sint (commitThreshold w)"
proof (cases "map_of (counters (sstore s)) k")
  case (Some m)
  then have e: "(k, m) \<in> set (counters (sstore s))" by (rule map_of_SomeD)
  let ?sel = "cycle_selects w (clk 0) (sstore s)"
  have acc: "accepted cb ?sel s" using assms(4) by (simp add: accepted_scan)
  have nt: "net (sstore s) k = currentVector (vsas (sstore s) ! inst m)" by (rule net_entry [OF assms(1) e])
  have "net (sstore (runCommitCycle cb w clk s)) k = (if ?sel k m then 0 else net (sstore s) k)"
    unfolding runCommitCycle_scan using acc by (subst scan_persist_net [OF assms(1) _ e]) simp_all
  moreover have "\<bar>sint (net (sstore s) k)\<bar> < sint (commitThreshold w)" if "\<not> ?sel k m"
    using that assms(2,5) sint_abs_i64 [of "net (sstore s) k"] nt by (simp add: cycle_selects_iff sle_iff)
  ultimately show ?thesis using assms(3) by (simp add: slt_iff)
next
  case None
  then have "k \<notin> set (store_keys (sstore (runCommitCycle cb w clk s)))"
    unfolding runCommitCycle_scan by (subst scan_persist_keys) (simp_all add: map_of_eq_None_iff)
  then show ?thesis using assms(3) by (simp add: net_absent slt_iff)
qed

theorem exposure_bound_witness:
  "\<bar>sint (net (sstore (runCommitCycle mock_CommitBatch (NewWorker 5 0 0 0 0 0) (\<lambda>_. 9) (example_system NewMockPersister))) ''alice'')\<bar> < 5"
proof -
  have "lowCommitThreshold (NewWorker 5 0 0 0 0 0) \<le>s 0" "0 <s commitThreshold (NewWorker 5 0 0 0 0 0)"
    by (simp_all add: NewWorker_def int64)
  from exposure_bound [OF example_store_wf this mock_accepts, where clk = "\<lambda>_. 9" and k = "''alice''"] show ?thesis
    by (simp add: example_net) (simp add: NewWorker_def)
qed

text \<open>
  C17. Eviction is safe. An eviction cycle never adds a key and never alters the instance of a key
  it keeps. It removes a key only if the entry was older than the eviction age when the cycle
  scanned it, and only with a zero vector or after the persister accepted exactly that vector; if
  the persister refuses, the key stays with its usage.
\<close>

theorem eviction_safe:
  assumes "wf_store (sstore s)" and "runEvictionCycle cb w clk s = s'"
  shows "wf_store (sstore s')
    \<and> (\<forall>k. lookup (sstore s) k = None \<longrightarrow> lookup (sstore s') k = None)
    \<and> (\<forall>k v. lookup (sstore s) k = Some v \<longrightarrow> lookup (sstore s') k = Some v
        \<or> lookup (sstore s') k = None
          \<and> (\<exists>m. map_of (counters (sstore s)) k = Some m \<and> evictionAge w <s time_Sub (clk 0) (lastAccessed m))
          \<and> (currentVector v = 0 \<or> (\<exists>p. fst (cb [\<lparr>Key = k, Vector = currentVector v\<rparr>] p))))"
proof -
  let ?stale = "\<lambda>(k, m). evictionAge w <s time_Sub (clk 0) (lastAccessed m)"
  let ?keys = "map fst (filter ?stale (counters (sstore s)))"
  have s': "s' = evictKeys cb w (clk \<circ> Suc) ?keys s" using assms(2) by (simp add: runEvictionCycle_eq)
  have "\<exists>m. map_of (counters (sstore s)) k = Some m \<and> ?stale (k, m)" if "k \<in> set ?keys" for k
    using that assms(1) by (auto simp: wf_store_def)
  then have "lookup (sstore s') k = Some v \<or> lookup (sstore s') k = None
      \<and> (\<exists>m. map_of (counters (sstore s)) k = Some m \<and> ?stale (k, m))
      \<and> (currentVector v = 0 \<or> (\<exists>p. fst (cb [\<lparr>Key = k, Vector = currentVector v\<rparr>] p)))"
    if "lookup (sstore s) k = Some v" for k v
    unfolding s' using evictKeys_lookup [OF assms(1) that, of cb w "clk \<circ> Suc" ?keys] by blast
  moreover have "lookup (sstore s') k = None" if "lookup (sstore s) k = None" for k
    unfolding s' using that evictKeys_only_old [of k s cb w "clk \<circ> Suc" ?keys]
    by (simp add: lookup_def map_of_eq_None_iff)
  ultimately show ?thesis using s' evictKeys_wf [OF assms(1)] by simp
qed

theorem eviction_safe_witness:
  "lookup (sstore (runEvictionCycle (\<lambda>cs p. (False, p)) (NewWorker 5 0 0 0 1 0) (\<lambda>_. 9) (example_system ()))) ''alice'' = Some example_vsa"
proof -
  have "lookup (sstore (example_system ())) ''alice'' = Some example_vsa"
    by (simp add: example_system_def lookup_def)
  moreover have "currentVector example_vsa \<noteq> 0" by code_simp
  ultimately show ?thesis
    using eviction_safe [OF example_store_wf [of "()"] refl, where cb = "\<lambda>cs p. (False, p)" and w = "NewWorker 5 0 0 0 1 0"
      and clk = "\<lambda>_. 9"] by auto
qed



text \<open>
  C19. The two loops race. If the eviction loop serves a stale key between the scan of a commit
  cycle that selected it and the persisting of that cycle's batch, the key's vector is handed to
  the persister twice: the mock persister counts the whole batch and, on top of it, the key's
  vector once more.
\<close>

theorem commit_eviction_race:
  assumes "wf_store (sstore s)" and "commitScan w now (sstore s) = (st, b)" and "\<lparr>Key = k, Vector = vec\<rparr> \<in> set (commits b)"
    and "vec \<noteq> 0" and "map_of (counters st) k = Some m" and "evictionAge w <s time_Sub now' (lastAccessed m)"
  shows "totalRequests (spersister (persistBatch mock_CommitBatch clk b (evictKey mock_CommitBatch w now' k (s\<lparr>sstore := st\<rparr>)))) =
    totalRequests (spersister s) + (\<Sum>c\<leftarrow>commits b. abs_i64 (Vector c)) + abs_i64 vec"
proof -
  have eqs: "st = (sstore s)\<lparr>counters := map (\<lambda>(k, v). (k, rearm w now (sstore s) v)) (counters (sstore s))\<rparr>"
    "b = batch_of (cycle_selects w now (sstore s)) (sstore s)"
    using assms(2) by (simp_all add: commitScan_eq)
  obtain m0 where m0: "(k, m0) \<in> set (counters (sstore s))" "vec = currentVector (vsas (sstore s) ! inst m0)"
    using assms(3) unfolding eqs(2) by (auto simp: batch_of_def Let_def)
  have "net st k = net (sstore s) k"
    unfolding eqs(1) net_def by (subst lookup_map_entries) simp_all
  then have vec: "net st k = vec" using net_entry [OF assms(1) m0(1)] m0(2) by simp
  let ?s = "evictKey mock_CommitBatch w now' k (s\<lparr>sstore := st\<rparr>)"
  have "totalRequests (spersister ?s) = totalRequests (spersister s) + abs_i64 vec"
  proof (cases rule: evictKey_cases [of mock_CommitBatch w now' k "s\<lparr>sstore := st\<rparr>"])
    case (accepted m' p)
    then show ?thesis using mock_totalRequests [of "[\<lparr>Key = k, Vector = vec\<rparr>]" "spersister s"] vec by simp
  next
    case (refused m' p)
    then show ?thesis using mock_accepts [of "[\<lparr>Key = k, Vector = vec\<rparr>]" "spersister s"] vec by simp
  qed (use assms vec in \<open>simp_all add: int64\<close>)
  moreover have "commits b \<noteq> []" using assms(3) by auto
  ultimately show ?thesis
    using mock_totalRequests [of "commits b" "spersister ?s"] mock_accepts [of "commits b" "spersister ?s"]
    by (simp add: persistBatch_def split_beta ac_simps)
qed

theorem commit_eviction_race_witness:
  "(let w = NewWorker 5 0 0 0 1 0; s = example_system NewMockPersister; (st, b) = commitScan w 9 (sstore s)
    in totalRequests (spersister (persistBatch mock_CommitBatch (\<lambda>_. 9) b
         (evictKey mock_CommitBatch w 9 ''alice'' (s\<lparr>sstore := st\<rparr>))))) = 14"
proof -
  let ?w = "NewWorker 5 0 0 0 1 0" and ?s = "example_system NewMockPersister"
  obtain st b where sb: "commitScan ?w 9 (sstore ?s) = (st, b)" by fastforce
  have b: "commits b = [\<lparr>Key = ''alice'', Vector = 7\<rparr>]"
  proof -
    have "commits (snd (commitScan ?w 9 (sstore ?s))) = [\<lparr>Key = ''alice'', Vector = 7\<rparr>]" by code_simp
    then show ?thesis using sb by simp
  qed
  have m: "map_of (counters st) ''alice'' = Some \<lparr>inst = 0, lastAccessed = 0, armed = False\<rparr>"
  proof -
    have "map_of (counters (fst (commitScan ?w 9 (sstore ?s)))) ''alice'' = Some \<lparr>inst = 0, lastAccessed = 0, armed = False\<rparr>"
      by code_simp
    then show ?thesis using sb by simp
  qed
  have "evictionAge ?w <s time_Sub 9 0" by code_simp
  moreover have "totalRequests (spersister ?s) = 0" by code_simp
  moreover have "(7 :: i64) \<noteq> 0" by simp
  ultimately show ?thesis
    using commit_eviction_race [OF example_store_wf sb, of "''alice''" 7, OF _ _ m, of 9 "\<lambda>_. 9"] b sb
    by (simp add: abs_i64_def slt_iff)
qed

end
