(* ===== verification/HTTP.thy ===== *)
theory HTTP
  imports Prelude
begin

text \<open>
  Requests and responses of net/http as the handlers use them: parsed queries, headers under their
  canonical names, and \<open>http.Error\<close>. Also the parsing of integers by \<open>strconv.ParseInt\<close>.
\<close>

section \<open>Requests and responses\<close>

record request =
  query :: "(string \<times> string) list"

record response =
  status :: nat
  headers :: "(string \<times> string) list"
  body :: string

text \<open>\<open>textproto.CanonicalMIMEHeaderKey\<close> on header names made of letters, digits and hyphens.\<close>

definition to_upper :: "char \<Rightarrow> char" where
  "to_upper c = (let n = of_char c :: nat in if 97 \<le> n \<and> n \<le> 122 then char_of (n - 32) else c)"

definition to_lower :: "char \<Rightarrow> char" where
  "to_lower c = (let n = of_char c :: nat in if 65 \<le> n \<and> n \<le> 90 then char_of (n + 32) else c)"

fun canonical_key :: "bool \<Rightarrow> string \<Rightarrow> string" where
  "canonical_key upper [] = []"
| "canonical_key upper (c # cs) =
     (if upper then to_upper c else to_lower c) # canonical_key (c = CHR ''-'') cs"

definition header_set :: "string \<Rightarrow> string \<Rightarrow> (string \<times> string) list \<Rightarrow> (string \<times> string) list" where
  "header_set name value hs = al_update (canonical_key True name) value hs"

definition http_Error :: "string \<Rightarrow> nat \<Rightarrow> response" where
  "http_Error msg code =
     \<lparr>status = code,
      headers = header_set ''X-Content-Type-Options'' ''nosniff''
        (header_set ''Content-Type'' ''text/plain; charset=utf-8'' []),
      body = msg @ [CHR 0x0A]\<rparr>"

section \<open>Integers in queries\<close>

text \<open>
  \<open>strconv.ParseInt\<close> in base ten and 64 bits: an optional sign and at least one digit, in range;
  \<open>None\<close> is an error.
\<close>

definition digit_value :: "char \<Rightarrow> nat option" where
  "digit_value c = (let n = of_char c :: nat in if 48 \<le> n \<and> n \<le> 57 then Some (n - 48) else None)"

fun digits_value :: "nat \<Rightarrow> string \<Rightarrow> nat option" where
  "digits_value acc [] = Some acc"
| "digits_value acc (c # cs) =
     (case digit_value c of None \<Rightarrow> None | Some d \<Rightarrow> digits_value (10 * acc + d) cs)"

definition parse_nat :: "string \<Rightarrow> nat option" where
  "parse_nat s = (if s = [] then None else digits_value 0 s)"

definition parse_int :: "string \<Rightarrow> int option" where
  "parse_int s =
     (case s of
        [] \<Rightarrow> None
      | c # cs \<Rightarrow>
          if c = CHR ''-'' then map_option (\<lambda>n. - int n) (parse_nat cs)
          else if c = CHR ''+'' then map_option int (parse_nat cs)
          else map_option int (parse_nat s))"

definition ParseInt :: "string \<Rightarrow> i64 option" where
  "ParseInt s = (case parse_int s of None \<Rightarrow> None | Some x \<Rightarrow> if fits x then Some (word_of_int x) else None)"

text \<open>\<open>strconv.ParseUint\<close>: no sign.\<close>

definition ParseUint :: "string \<Rightarrow> u64 option" where
  "ParseUint s = (case parse_nat s of None \<Rightarrow> None | Some n \<Rightarrow> if n < 2 ^ 64 then Some (word_of_nat n) else None)"

section \<open>Lemmas\<close>

lemma digit_value_of: "d < (10 :: nat) \<Longrightarrow> digit_value (char_of (48 + d)) = Some d"
  by (simp add: digit_value_def Let_def)

lemma digits_value_append:
  "digits_value acc (xs @ ys) = (case digits_value acc xs of None \<Rightarrow> None | Some a \<Rightarrow> digits_value a ys)"
  by (induction acc xs rule: digits_value.induct) (auto split: option.split)

lemma nat_digits_nonempty [simp]: "nat_digits n \<noteq> []"
  by (subst nat_digits.simps) simp

lemma digits_value_nat_digits: "digits_value 0 (nat_digits n) = Some n"
proof (induction n rule: nat_digits.induct)
  case (1 n)
  show ?case
  proof (cases "n < 10")
    case True
    then show ?thesis by (subst nat_digits.simps) (simp add: digit_value_of)
  next
    case False
    then show ?thesis using 1 by (subst nat_digits.simps) (simp add: digits_value_append digit_value_of)
  qed
qed

lemma parse_nat_digits [simp]: "parse_nat (nat_digits n) = Some n"
  by (simp add: parse_nat_def digits_value_nat_digits)

text \<open>The first character of a printed number is a digit, and is zero only for zero.\<close>

definition is_digit :: "char \<Rightarrow> bool" where
  "is_digit c \<longleftrightarrow> digit_value c \<noteq> None"

lemma is_digit_of: "d < (10 :: nat) \<Longrightarrow> is_digit (char_of (48 + d))"
  by (simp add: is_digit_def digit_value_of)

lemma nat_digits_all_digits: "c \<in> set (nat_digits n) \<Longrightarrow> is_digit c"
proof (induction n rule: nat_digits.induct)
  case (1 n)
  then show ?case
    by (cases "n < 10") (auto simp: nat_digits.simps [of n] is_digit_of)
qed

lemma not_digit_sign: "\<not> is_digit (CHR ''-'')" "\<not> is_digit (CHR ''+'')"
  by (simp_all add: is_digit_def digit_value_def)

lemma parse_int_nat_digits [simp]: "parse_int (nat_digits n) = Some (int n)"
proof -
  obtain c cs where cs: "nat_digits n = c # cs" by (cases "nat_digits n") auto
  then have "is_digit c" using nat_digits_all_digits [of c n] by simp
  then have "c \<noteq> CHR ''-''" "c \<noteq> CHR ''+''" using not_digit_sign by auto
  then show ?thesis using parse_nat_digits [of n] cs by (simp add: parse_int_def)
qed

lemma ParseInt_sprintf_d [simp]: "ParseInt (sprintf_d x) = Some x"
proof (cases "sint x < 0")
  case True
  then have "parse_int (sprintf_d x) = Some (sint x)" by (simp add: sprintf_d_def parse_int_def)
  then show ?thesis by (simp add: ParseInt_def)
next
  case False
  then have "parse_int (sprintf_d x) = Some (sint x)" by (simp add: sprintf_d_def)
  then show ?thesis by (simp add: ParseInt_def)
qed

lemma ParseUint_digits [simp]: "ParseUint (nat_digits (unat x)) = Some x"
proof -
  have "unat x < 2 ^ LENGTH(64)" by (rule unsigned_less)
  then show ?thesis by (simp add: ParseUint_def)
qed

end
