(* ===== verification/Server.thy ===== *)
theory Server
  imports Worker_Runs HTTP
begin

text \<open>
  The HTTP handlers (internal/ratelimiter/api/server.go) over the store, the counters and the
  churn telemetry, and whole runs of the service in which requests of any keys interleave with
  the worker's commit cycles and flushes. A request is its already parsed query.
\<close>

section \<open>The server\<close>

record 'p server =
  app :: "'p system"
  appMetrics :: metrics
  rateLimit :: i64

text \<open>The store a server is created with is the one the worker acts on.\<close>

definition NewServer :: "'p system \<Rightarrow> metrics \<Rightarrow> i64 \<Rightarrow> 'p server" where
  "NewServer sys ms limit = \<lparr>app = sys, appMetrics = ms, rateLimit = limit\<rparr>"

definition deniedResponse :: "i64 \<Rightarrow> i64 \<Rightarrow> response" where
  "deniedResponse limit remaining =
     \<lparr>status = 429,
      headers = header_set ''Retry-After'' ''60''
        (header_set ''X-RateLimit-Remaining'' (sprintf_d remaining)
        (header_set ''X-RateLimit-Limit'' (sprintf_d limit)
        (header_set ''X-RateLimit-Status'' ''Exceeded'' []))),
      body = ''Too Many Requests''\<rparr>"

definition okResponse :: "i64 \<Rightarrow> i64 \<Rightarrow> response" where
  "okResponse limit remaining =
     \<lparr>status = 200,
      headers = header_set ''X-RateLimit-Status'' ''OK''
        (header_set ''X-RateLimit-Remaining'' (sprintf_d remaining)
        (header_set ''X-RateLimit-Limit'' (sprintf_d limit) [])),
      body = ''OK''\<rparr>"

text \<open>\<open>None\<close> is a panic in the VSA. \<open>clk\<close> gives the successive clock readings.\<close>

definition handleCheckRateLimit :: "i64 \<Rightarrow> (nat \<Rightarrow> i64) \<Rightarrow> request \<Rightarrow> 'p server \<Rightarrow> (response \<times> 'p server) option" where
  "handleCheckRateLimit gomaxprocs clk r s =
     (let key = query_get (query r) ''api_key''
      in if key = '''' then Some (http_Error ''API key is required'' 400, s)
         else let (a, st) = GetOrCreate gomaxprocs (clk 0) key (sstore (app s));
                  ms = RecordAttempt 1 (appMetrics s)
              in case TryConsume 1 (vsas st ! a) of
                   None \<Rightarrow> None
                 | Some (False, v) \<Rightarrow>
                     let c = ObserveRequest (clk 1) key False (schurn (app s));
                         remaining = Available v
                     in Some (deniedResponse (rateLimit s) remaining,
                          s\<lparr>app := (app s)\<lparr>sstore := write_vsa a v st, schurn := c\<rparr>, appMetrics := ms\<rparr>)
                 | Some (True, v) \<Rightarrow>
                     let ms = RecordAdmit 1 ms;
                         c = ObserveRequest (clk 1) key True (schurn (app s));
                         remaining = Available v
                     in Some (okResponse (rateLimit s) remaining,
                          s\<lparr>app := (app s)\<lparr>sstore := write_vsa a v st, schurn := c\<rparr>, appMetrics := ms\<rparr>))"

definition handleRelease :: "i64 \<Rightarrow> (nat \<Rightarrow> i64) \<Rightarrow> request \<Rightarrow> 'p server \<Rightarrow> (response \<times> 'p server) option" where
  "handleRelease gomaxprocs clk r s =
     (let key = query_get (query r) ''api_key''
      in if key = '''' then Some (http_Error ''API key is required'' 400, s)
         else let (a, st) = GetOrCreate gomaxprocs (clk 0) key (sstore (app s))
              in case TryRefund 1 (vsas st ! a) of
                   None \<Rightarrow> None
                 | Some (refunded, v) \<Rightarrow>
                     let ms = (if refunded then RecordRefund 1 (appMetrics s) else appMetrics s)
                     in Some (\<lparr>status = 204, headers = [], body = ''''\<rparr>,
                          s\<lparr>app := (app s)\<lparr>sstore := write_vsa a v st\<rparr>, appMetrics := ms\<rparr>))"

section \<open>The running service\<close>

text \<open>
  The routes of \<open>RegisterRoutes\<close> that change state, and the worker's cycles, served one after
  another.
\<close>

datatype service_event =
    Check "nat \<Rightarrow> i64" request
  | Release "nat \<Rightarrow> i64" request
  | CommitTick "nat \<Rightarrow> i64"
  | FinalFlush "nat \<Rightarrow> i64"

fun serve :: "'p commit_batch \<Rightarrow> worker \<Rightarrow> i64 \<Rightarrow> service_event \<Rightarrow> 'p server \<Rightarrow> (response option \<times> 'p server) option" where
  "serve cb w p (Check clk r) s = map_option (apfst Some) (handleCheckRateLimit p clk r s)"
| "serve cb w p (Release clk r) s = map_option (apfst Some) (handleRelease p clk r s)"
| "serve cb w p (CommitTick clk) s = Some (None, s\<lparr>app := runCommitCycle cb w clk (app s)\<rparr>)"
| "serve cb w p (FinalFlush clk) s = Some (None, s\<lparr>app := runFinalFlush cb clk (app s)\<rparr>)"

fun service :: "'p commit_batch \<Rightarrow> worker \<Rightarrow> i64 \<Rightarrow> service_event list \<Rightarrow> 'p server \<Rightarrow> (response option list \<times> 'p server) option" where
  "service cb w p [] s = Some ([], s)"
| "service cb w p (ev # evs) s =
     (case serve cb w p ev s of
        None \<Rightarrow> None
      | Some (r, s1) \<Rightarrow> map_option (apfst ((#) r)) (service cb w p evs s1))"

section \<open>One request\<close>

abbreviation server_store :: "'p server \<Rightarrow> store" where
  "server_store s \<equiv> sstore (app s)"

abbreviation api_key :: "request \<Rightarrow> string" where
  "api_key r \<equiv> query_get (query r) ''api_key''"

text \<open>The instance a request works on: the one of its key, or a new one.\<close>

definition instance_of :: "i64 \<Rightarrow> string \<Rightarrow> store \<Rightarrow> vsa" where
  "instance_of p key st =
     (case lookup st key of Some v \<Rightarrow> v | None \<Rightarrow> NewWithOptions p (initialScalar st) (vsaOptions st))"

lemma request_instance:
  assumes "wf_store st" and "GetOrCreate p now key st = (a, st1)"
  shows "vsas st1 ! a = instance_of p key st" and "wf_vsa (vsas st1 ! a)"
    and "wf_vsa v \<Longrightarrow> wf_store (write_vsa a v st1)"
    and "lookup (write_vsa a v st1) k = (if k = key then Some v else lookup st k)"
proof -
  note g = GetOrCreate_spec [OF assms] and ad = GetOrCreate_addr [OF assms]
  show "vsas st1 ! a = instance_of p key st"
    using g(3) [of key] ad(2) by (auto simp: instance_of_def split: option.splits)
  show "wf_vsa (vsas st1 ! a)" by (rule ad(3))
  show "wf_store (write_vsa a v st1)" if "wf_vsa v" using wf_store_write [OF g(1) that] .
  show "lookup (write_vsa a v st1) k = (if k = key then Some v else lookup st k)"
    using g(2) lookup_write [OF g(1), of key _ v k] g(3) [of k] by auto
qed

lemma check_keyed:
  assumes "wf_store (server_store s)" and "api_key r \<noteq> ''''"
    and "TryConsume 1 (instance_of p (api_key r) (server_store s)) = Some (b, v)"
  obtains s' where "handleCheckRateLimit p clk r s =
      Some (if b then okResponse (rateLimit s) (Available v) else deniedResponse (rateLimit s) (Available v), s')"
    and "wf_store (server_store s')"
    and "\<And>k. lookup (server_store s') k = (if k = api_key r then Some v else lookup (server_store s) k)"
    and "appMetrics s' = (if b then RecordAdmit 1 (RecordAttempt 1 (appMetrics s)) else RecordAttempt 1 (appMetrics s))"
    and "rateLimit s' = rateLimit s" and "initialScalar (server_store s') = initialScalar (server_store s)"
    and "vsaOptions (server_store s') = vsaOptions (server_store s)"
proof -
  obtain a st where g: "GetOrCreate p (clk 0) (api_key r) (server_store s) = (a, st)" by fastforce
  note ri = request_instance [OF assms(1) g]
  have "wf_vsa v" using TryConsume_outcome [OF ri(2)] assms(3) ri(1) by (fastforce simp: shifted_def)
  then show thesis
    using that ri(3,4) [of v] GetOrCreate_spec(4,5) [OF assms(1) g] assms(2,3) ri(1) g
    by (cases b) (simp_all add: handleCheckRateLimit_def Let_def write_vsa_def)
qed

lemma release_keyed:
  assumes "wf_store (server_store s)" and "api_key r \<noteq> ''''"
    and "TryRefund 1 (instance_of p (api_key r) (server_store s)) = Some (b, v)"
  obtains s' where "handleRelease p clk r s = Some (\<lparr>status = 204, headers = [], body = ''''\<rparr>, s')"
    and "wf_store (server_store s')"
    and "\<And>k. lookup (server_store s') k = (if k = api_key r then Some v else lookup (server_store s) k)"
    and "appMetrics s' = (if b then RecordRefund 1 (appMetrics s) else appMetrics s)"
    and "rateLimit s' = rateLimit s" and "initialScalar (server_store s') = initialScalar (server_store s)"
    and "vsaOptions (server_store s') = vsaOptions (server_store s)"
proof -
  obtain a st where g: "GetOrCreate p (clk 0) (api_key r) (server_store s) = (a, st)" by fastforce
  note ri = request_instance [OF assms(1) g]
  have "wf_vsa v" using TryRefund_outcome [OF ri(2)] assms(3) ri(1) by (fastforce simp: shifted_def)
  then show thesis
    using that ri(3,4) [of v] GetOrCreate_spec(4,5) [OF assms(1) g] assms(2,3) ri(1) g
    by (simp add: handleRelease_def Let_def write_vsa_def)
qed

section \<open>Budgets of all keys\<close>

text \<open>
  \<open>u\<close> gives the units each key has used so far. Every key, present or still to be created,
  satisfies the budget invariant with that usage.
\<close>

definition serving :: "int \<Rightarrow> (string \<Rightarrow> int) \<Rightarrow> 'p server \<Rightarrow> bool" where
  "serving S u s \<longleftrightarrow> wf_store (server_store s) \<and> sint (initialScalar (server_store s)) = S
     \<and> (\<forall>k p. budget S (u k) (instance_of p k (server_store s))
          \<and> fits (1 + sint (fastPathGuard (instance_of p k (server_store s)))))"

lemma servingD:
  assumes "serving S u s"
  shows "wf_store (server_store s)" and "budget S (u k) (instance_of p k (server_store s))"
    and "fits (1 + sint (fastPathGuard (instance_of p k (server_store s))))"
    and "sint (initialScalar (server_store s)) = S"
  using assms by (simp_all add: serving_def)

text \<open>A request that replaces the instance of its own key only.\<close>

lemma serving_update:
  assumes "serving S u s" and "wf_store (server_store s')"
    and "\<And>k. lookup (server_store s') k = (if k = key then Some v else lookup (server_store s) k)"
    and "initialScalar (server_store s') = initialScalar (server_store s)"
    and "vsaOptions (server_store s') = vsaOptions (server_store s)"
    and "budget S u' v" and "fits (1 + sint (fastPathGuard v))"
  shows "serving S (u(key := u')) s'"
proof -
  have "instance_of p k (server_store s') = (if k = key then v else instance_of p k (server_store s))" for p k
    using assms(3-5) by (cases "lookup (server_store s) k") (simp_all add: instance_of_def)
  with assms show ?thesis by (simp add: serving_def)
qed

lemma check_serving:
  assumes "serving S u s" and "api_key r \<noteq> ''''"
  obtains s' rs where "handleCheckRateLimit p clk r s = Some (rs, s')"
    and "status rs = (if u (api_key r) < S then 200 else 429)"
    and "serving S (if u (api_key r) < S then u(api_key r := u (api_key r) + 1) else u) s'"
    and "admits (appMetrics s') = admits (appMetrics s) + (if u (api_key r) < S then 1 else 0)"
    and "refunds (appMetrics s') = refunds (appMetrics s)"
proof -
  let ?v = "instance_of p (api_key r) (server_store s)"
  note d = servingD [OF assms(1)]
  have guard: "fits (sint (1 :: i64) + sint (fastPathGuard ?v))" using d(3) by simp
  show thesis
  proof (cases rule: consume_budget [OF d(2) [of "api_key r" p] guard])
    case (1 v')
    from check_keyed [OF d(1) assms(2) 1(3), where clk = clk] obtain s' where s':
      "handleCheckRateLimit p clk r s = Some (okResponse (rateLimit s) (Available v'), s')"
      "wf_store (server_store s')" "appMetrics s' = RecordAdmit 1 (RecordAttempt 1 (appMetrics s))"
      "\<And>k. lookup (server_store s') k = (if k = api_key r then Some v' else lookup (server_store s) k)"
      "initialScalar (server_store s') = initialScalar (server_store s)"
      "vsaOptions (server_store s') = vsaOptions (server_store s)" by auto
    have "serving S (u(api_key r := u (api_key r) + 1)) s'"
      using 1(4) d(3) [of p "api_key r"] config_guard [OF 1(5)]
      by (intro serving_update [OF assms(1) s'(2,4-6)]) simp_all
    with s' 1(2) show thesis
      by (intro that [of "okResponse (rateLimit s) (Available v')" s'])
        (simp_all add: okResponse_def RecordAdmit_def RecordAttempt_def slt_iff)
  next
    case 2
    from check_keyed [OF d(1) assms(2) 2(2), where clk = clk] obtain s' where s':
      "handleCheckRateLimit p clk r s = Some (deniedResponse (rateLimit s) (Available ?v), s')"
      "wf_store (server_store s')" "appMetrics s' = RecordAttempt 1 (appMetrics s)"
      "\<And>k. lookup (server_store s') k = (if k = api_key r then Some ?v else lookup (server_store s) k)"
      "initialScalar (server_store s') = initialScalar (server_store s)"
      "vsaOptions (server_store s') = vsaOptions (server_store s)" by auto
    have "serving S (u(api_key r := u (api_key r))) s'"
      by (intro serving_update [OF assms(1) s'(2,4-6)] d(2,3))
    with s' 2(1) show thesis
      by (intro that [of "deniedResponse (rateLimit s) (Available ?v)" s'])
        (simp_all add: deniedResponse_def RecordAttempt_def)
  qed
qed

lemma TryRefund_returns: "wf_vsa v \<Longrightarrow> \<exists>b v'. TryRefund n v = Some (b, v')"
  using TryRefund_noop [of n v] TryRefund_shifted [of v n] by (cases "sint n \<le> 0 \<or> sint (currentVector v) \<le> 0") auto

lemma release_serving:
  assumes "serving S u s" and "api_key r \<noteq> ''''"
  obtains s' rs b where "handleRelease p clk r s = Some (rs, s')" and "status rs = 204"
    and "serving S (if b then u(api_key r := u (api_key r) - 1) else u) s'"
    and "admits (appMetrics s') = admits (appMetrics s)"
    and "refunds (appMetrics s') = refunds (appMetrics s) + (if b then 1 else 0)"
proof -
  let ?v = "instance_of p (api_key r) (server_store s)"
  note d = servingD [OF assms(1)]
  have wf: "wf_vsa ?v" using d(2) [of "api_key r" p] by (simp add: budget_def)
  then obtain b v where rf: "TryRefund 1 ?v = Some (b, v)" using TryRefund_returns by blast
  from release_keyed [OF d(1) assms(2) rf, where clk = clk] obtain s' where s':
    "handleRelease p clk r s = Some (\<lparr>status = 204, headers = [], body = ''''\<rparr>, s')"
    "wf_store (server_store s')" "appMetrics s' = (if b then RecordRefund 1 (appMetrics s) else appMetrics s)"
    "\<And>k. lookup (server_store s') k = (if k = api_key r then Some v else lookup (server_store s) k)"
    "initialScalar (server_store s') = initialScalar (server_store s)"
    "vsaOptions (server_store s') = vsaOptions (server_store s)" by auto
  have one: "b \<Longrightarrow> min (sint (1 :: i64)) (sint (currentVector ?v)) = 1"
    using rf TryRefund_noop [of 1 ?v] by (cases "sint (currentVector ?v) \<le> 0") auto
  have "budget S (u (api_key r) - (if b then 1 else 0)) v"
    using refund_budget [OF d(2) rf] one by (cases b) simp_all
  moreover have "fits (1 + sint (fastPathGuard v))"
    using d(3) [of p "api_key r"] TryRefund_outcome [OF wf rf] config_guard [of v ?v] by (simp add: shifted_def)
  ultimately have "serving S (u(api_key r := u (api_key r) - (if b then 1 else 0))) s'"
    by (intro serving_update [OF assms(1) s'(2,4-6)])
  then have "serving S (if b then u(api_key r := u (api_key r) - 1) else u) s'" by (cases b) simp_all
  with s' show thesis
    by (intro that [of "\<lparr>status = 204, headers = [], body = ''''\<rparr>" s' b])
      (simp_all add: RecordRefund_def slt_iff)
qed

lemma missing_key:
  "api_key r = '''' \<Longrightarrow> handleCheckRateLimit p clk r s = Some (http_Error ''API key is required'' 400, s)"
  "api_key r = '''' \<Longrightarrow> handleRelease p clk r s = Some (http_Error ''API key is required'' 400, s)"
  by (simp_all add: handleCheckRateLimit_def handleRelease_def)

text \<open>A scan with any selection and any persister keeps every key's budget.\<close>

lemma scan_serving:
  assumes "serving S u s" and "\<And>m. inst (g m) = inst m"
  shows "serving S u (s\<lparr>app := scan_persist cb clk sel g (app s)\<rparr>)"
proof -
  let ?st = "sstore (scan_persist cb clk sel g (app s))"
  note d = servingD [OF assms(1)]
  have same: "initialScalar ?st = initialScalar (server_store s)" "vsaOptions ?st = vsaOptions (server_store s)"
    by (simp_all add: scan_persist_store [of g, OF assms(2)])
  have inst: "instance_of p k ?st = instance_of p k (server_store s)
    \<or> instance_of p k ?st = Commit (currentVector (instance_of p k (server_store s))) (instance_of p k (server_store s))" for p k
    using scan_persist_lookup [of "app s" g, OF d(1) assms(2), of cb clk sel k] same
    by (cases "map_of (counters (server_store s)) k") (auto simp: instance_of_def lookup_def Let_def)
  have "budget S (u k) (instance_of p k ?st) \<and> fits (1 + sint (fastPathGuard (instance_of p k ?st)))" for p k
  proof -
    let ?v = "instance_of p k (server_store s)"
    have "sint (currentVector ?v) \<noteq> - (2 ^ 63)" using d(2) [of k p] by (auto simp: budget_def)
    from commit_budget [OF d(2) this] config_guard [of "Commit (currentVector ?v) ?v" ?v] inst [of p k] d(2) [of k p] d(3) [of p k]
    show ?thesis by auto
  qed
  then show ?thesis using scan_persist_wf [of "app s" g, OF d(1) assms(2)] same d(4) by (simp add: serving_def)
qed

section \<open>Runs of the service\<close>

fun event_keys :: "service_event \<Rightarrow> string set" where
  "event_keys (Check clk r) = {api_key r}"
| "event_keys (Release clk r) = {api_key r}"
| "event_keys _ = {}"

text \<open>What the counters say beyond what the keys have used; no event changes it.\<close>

definition imbalance :: "string set \<Rightarrow> (string \<Rightarrow> int) \<Rightarrow> 'p server \<Rightarrow> i64" where
  "imbalance A u s = admits (appMetrics s) - refunds (appMetrics s) - (\<Sum>k\<in>A. word_of_int (u k))"

lemma sum_fun_upd:
  fixes u :: "'a \<Rightarrow> int"
  assumes "finite A" and "key \<in> A"
  shows "(\<Sum>k\<in>A. word_of_int ((u(key := x)) k)) = (\<Sum>k\<in>A. word_of_int (u k)) + (word_of_int (x - u key) :: i64)"
  using assms by (simp add: sum.remove of_int_diff)

lemma serve_serving:
  assumes "serving S u s" and "finite A" and "event_keys ev \<subseteq> A"
  shows "\<exists>r s' u'. serve cb w p ev s = Some (r, s') \<and> serving S u' s' \<and> imbalance A u' s' = imbalance A u s"
proof (cases ev)
  case (Check clk r)
  show ?thesis
  proof (cases "api_key r = ''''")
    case True
    then show ?thesis using Check assms(1) by (auto simp: missing_key)
  next
    case False
    obtain s' rs where c: "handleCheckRateLimit p clk r s = Some (rs, s')"
      "serving S (if u (api_key r) < S then u(api_key r := u (api_key r) + 1) else u) s'"
      "admits (appMetrics s') = admits (appMetrics s) + (if u (api_key r) < S then 1 else 0)"
      "refunds (appMetrics s') = refunds (appMetrics s)"
      using check_serving [OF assms(1) False] by metis
    have "imbalance A (if u (api_key r) < S then u(api_key r := u (api_key r) + 1) else u) s' = imbalance A u s"
      using c(3,4) sum_fun_upd [OF assms(2), of "api_key r" u] assms(3) Check by (simp add: imbalance_def)
    with c(1,2) Check show ?thesis by auto
  qed
next
  case (Release clk r)
  show ?thesis
  proof (cases "api_key r = ''''")
    case True
    then show ?thesis using Release assms(1) by (auto simp: missing_key)
  next
    case False
    obtain s' rs b where c: "handleRelease p clk r s = Some (rs, s')"
      "serving S (if b then u(api_key r := u (api_key r) - 1) else u) s'"
      "admits (appMetrics s') = admits (appMetrics s)"
      "refunds (appMetrics s') = refunds (appMetrics s) + (if b then 1 else 0)"
      using release_serving [OF assms(1) False] by metis
    have "imbalance A (if b then u(api_key r := u (api_key r) - 1) else u) s' = imbalance A u s"
      using c(3,4) sum_fun_upd [OF assms(2), of "api_key r" u] assms(3) Release by (simp add: imbalance_def)
    with c(1,2) Release show ?thesis by auto
  qed
next
  case (CommitTick clk)
  then show ?thesis
    using scan_serving [OF assms(1), of "rearm w (clk 0) (server_store s)" cb "clk \<circ> Suc" "cycle_selects w (clk 0) (server_store s)"]
    by (auto simp: runCommitCycle_scan imbalance_def)
next
  case (FinalFlush clk)
  then show ?thesis
    using scan_serving [OF assms(1), of "\<lambda>m. m" cb clk "flush_selects (server_store s)"]
    by (auto simp: runFinalFlush_scan imbalance_def)
qed

lemma service_serving:
  assumes "serving S u s" and "finite A" and "\<And>ev. ev \<in> set evs \<Longrightarrow> event_keys ev \<subseteq> A"
  shows "\<exists>rs s' u'. service cb w p evs s = Some (rs, s') \<and> serving S u' s' \<and> imbalance A u' s' = imbalance A u s"
  using assms(1,3)
proof (induction evs arbitrary: s u)
  case (Cons ev evs)
  obtain r s1 u1 where one: "serve cb w p ev s = Some (r, s1)" "serving S u1 s1" "imbalance A u1 s1 = imbalance A u s"
    using serve_serving [OF Cons.prems(1) assms(2)] Cons.prems(2) by (metis list.set_intros(1))
  moreover obtain rs s2 u2 where "service cb w p evs s1 = Some (rs, s2)" "serving S u2 s2" "imbalance A u2 s2 = imbalance A u1 s1"
    using Cons.IH [OF one(2)] Cons.prems(2) by auto
  ultimately show ?case by auto
qed auto

text \<open>A server that has served nothing yet, with a policy that uses the exact gate.\<close>

definition fresh_server :: "'p server \<Rightarrow> bool" where
  "fresh_server s \<longleftrightarrow> counters (server_store s) = [] \<and> vsas (server_store s) = []
     \<and> admits (appMetrics s) = 0 \<and> refunds (appMetrics s) = 0
     \<and> 0 \<le>s initialScalar (server_store s) \<and> \<not> UseCachedGate (vsaOptions (server_store s))
     \<and> \<not> 1 <s GroupCount (vsaOptions (server_store s))
     \<and> FastPathGuard (vsaOptions (server_store s)) \<noteq> 2 ^ 63 - 1"

lemma New_guard:
  "fastPathGuard (NewWithOptions p S opts) = (if 0 <s FastPathGuard opts then FastPathGuard opts else 0)"
  by (simp add: construct_defs)

lemma fresh_serving:
  assumes "fresh_server s"
  shows "serving (sint (initialScalar (server_store s))) (\<lambda>_. 0) s" and "imbalance A (\<lambda>_. 0) s = 0"
proof -
  let ?g = "FastPathGuard (vsaOptions (server_store s))"
  have "sint ?g \<noteq> 2 ^ 63 - 1"
  proof
    assume "sint ?g = 2 ^ 63 - 1"
    then have "(word_of_int (sint ?g) :: i64) = word_of_int (2 ^ 63 - 1)" by (rule arg_cong)
    then show False using assms by (simp add: fresh_server_def)
  qed
  then have "fits (1 + sint (if 0 <s ?g then ?g else 0))"
    using sint_range [of ?g] by (simp add: fits_def slt_iff)
  moreover have "instance_of p k (server_store s) =
    NewWithOptions p (initialScalar (server_store s)) (vsaOptions (server_store s))" for p k
    using assms by (simp add: fresh_server_def instance_of_def lookup_def)
  ultimately show "serving (sint (initialScalar (server_store s))) (\<lambda>_. 0) s"
    using assms by (simp add: serving_def New_guard New_budget fresh_server_def wf_store_def sle_iff)
  show "imbalance A (\<lambda>_. 0) s = 0" using assms by (simp add: imbalance_def fresh_server_def)
qed

text \<open>Usage, availability and presence of a key in a serving state.\<close>

lemma serving_Available:
  assumes "serving S u s" and "lookup (server_store s) k = Some v"
  shows "sint (Available v) = S - u k" and "0 \<le> u k" and "u k \<le> S"
    and "initialScalar (server_store s) - Available v = word_of_int (u k)"
proof -
  have b: "budget S (u k) v" using servingD(2) [OF assms(1), of k] assms(2) by (simp add: instance_of_def)
  show av: "sint (Available v) = S - u k" using budget_Available [OF b] .
  show "0 \<le> u k" "u k \<le> S" using b by (auto simp: budget_def)
  have "word_of_int (sint (initialScalar (server_store s))) - (word_of_int (sint (Available v)) :: i64) = word_of_int (u k)"
    using servingD(4) [OF assms(1)] av by (simp only: of_int_diff [symmetric]) simp
  then show "initialScalar (server_store s) - Available v = word_of_int (u k)" by simp
qed

lemma serving_absent: "serving S u s \<Longrightarrow> lookup (server_store s) k = None \<Longrightarrow> u k = 0"
  using servingD(2) [of S u s k 0] servingD(4) [of S u s] by (simp add: instance_of_def budget_def)

lemma serving_usage_sum:
  assumes "serving S u s" and "finite A" and "set (store_keys (server_store s)) \<subseteq> A"
  shows "(\<Sum>k\<in>A. word_of_int (u k) :: i64) =
    (\<Sum>(k, m)\<leftarrow>counters (server_store s). initialScalar (server_store s) - Available (vsas (server_store s) ! inst m))"
proof -
  let ?st = "server_store s"
  have d: "distinct (store_keys ?st)" using servingD(1) [OF assms(1)] by (simp add: wf_store_def)
  have "(\<Sum>k\<in>A. word_of_int (u k) :: i64) = (\<Sum>k\<in>set (store_keys ?st). word_of_int (u k))"
    using assms serving_absent [OF assms(1)]
    by (intro sum.mono_neutral_right) (auto simp: lookup_def map_of_eq_None_iff)
  also have "\<dots> = (\<Sum>k\<leftarrow>store_keys ?st. word_of_int (u k))"
    by (rule sum_list_distinct_conv_sum_set [OF d, symmetric])
  also have "\<dots> = (\<Sum>(k, m)\<leftarrow>counters ?st. initialScalar ?st - Available (vsas ?st ! inst m))"
  proof -
    have "word_of_int (u k) = initialScalar ?st - Available (vsas ?st ! inst m)" if "(k, m) \<in> set (counters ?st)" for k m
      using that d serving_Available(4) [OF assms(1), of k "vsas ?st ! inst m"] by (simp add: lookup_def)
    then have "map (\<lambda>x. word_of_int (u (fst x))) (counters ?st)
      = map (\<lambda>(k, m). initialScalar ?st - Available (vsas ?st ! inst m)) (counters ?st)" by auto
    then show ?thesis by (simp only: map_map comp_def)
  qed
  finally show ?thesis .
qed

section \<open>Properties\<close>


definition example_server :: "i64 \<Rightarrow> mockPersister server" where
  "example_server limit = NewServer
     ((example_system NewMockPersister)\<lparr>sstore := NewStore limit\<rparr>)
     \<lparr>attempted = 0, admits = 0, refunds = 0, thresholds = []\<rparr> limit"

definition example_request :: request where
  "example_request = \<lparr>query = [(''api_key'', ''bob'')]\<rparr>"


fun ok_count :: "string \<Rightarrow> service_event list \<Rightarrow> response option list \<Rightarrow> nat" where
  "ok_count k (Check clk r # evs) (Some rs # rss) =
     (if api_key r = k \<and> status rs = 200 then 1 else 0) + ok_count k evs rss"
| "ok_count k (ev # evs) (x # rss) = ok_count k evs rss"
| "ok_count k _ _ = 0"

definition check_count :: "string \<Rightarrow> service_event list \<Rightarrow> nat" where
  "check_count k evs = length (filter (\<lambda>ev. case ev of Check clk r \<Rightarrow> api_key r = k | _ \<Rightarrow> False) evs)"

lemma limit_step:
  assumes "serving S u s" and "k \<noteq> []" and "service cb w p evs s = Some (rs, s')"
    and "\<And>clk r. Release clk r \<notin> set evs"
  shows "int (ok_count k evs rs) = min (int (check_count k evs)) (S - u k)"
  using assms(1,3,4)
proof (induction evs arbitrary: s u rs)
  case Nil
  have "0 \<le> S - u k" using servingD(2) [OF Nil.prems(1), of k 0] by (auto simp: budget_def)
  then show ?case using Nil.prems by (simp add: check_count_def)
next
  case (Cons ev evs)
  obtain r s1 rs1 where r: "serve cb w p ev s = Some (r, s1)" "service cb w p evs s1 = Some (rs1, s')" "rs = r # rs1"
    using Cons.prems(2) by (auto split: option.splits prod.splits)
  have sc: "int (ok_count k evs rs1) = min (int (check_count k evs)) (S - u1 k)" if "serving S u1 s1" for u1
    using Cons.IH [OF that r(2)] Cons.prems(3) by auto
  show ?case
  proof (cases ev)
    case (Check clk rq)
    show ?thesis
    proof (cases "api_key rq = []")
      case True
      then have "s1 = s" "\<exists>x. r = Some x" using r(1) Check by (auto simp: missing_key)
      then show ?thesis using True Check r(3) sc [of u] Cons.prems(1) assms(2) by (auto simp: check_count_def)
    next
      case False
      obtain s2 x where c: "handleCheckRateLimit p clk rq s = Some (x, s2)"
        "status x = (if u (api_key rq) < S then 200 else 429)"
        "serving S (if u (api_key rq) < S then u(api_key rq := u (api_key rq) + 1) else u) s2"
        using check_serving [OF Cons.prems(1) False] by metis
      then have "s1 = s2" "r = Some x" using r(1) Check by simp_all
      moreover have "0 \<le> S - u k" using servingD(2) [OF Cons.prems(1), of k 0] by (auto simp: budget_def)
      ultimately show ?thesis
        using Check r(3) c(2) sc [of "if u (api_key rq) < S then u(api_key rq := u (api_key rq) + 1) else u"] c(3)
        by (auto simp: check_count_def)
    qed
  next
    case (Release clk rq)
    then show ?thesis using Cons.prems(3) by auto
  next
    case (CommitTick clk)
    then have "serving S u s1"
      using r(1) scan_serving [OF Cons.prems(1), of "rearm w (clk 0) (server_store s)" cb "clk \<circ> Suc" "cycle_selects w (clk 0) (server_store s)"]
      by (simp add: runCommitCycle_scan)
    then show ?thesis using CommitTick r(1,3) sc by (simp add: check_count_def)
  next
    case (FinalFlush clk)
    then have "serving S u s1"
      using r(1) scan_serving [OF Cons.prems(1), of "\<lambda>m. m" cb clk "flush_selects (server_store s)"]
      by (simp add: runFinalFlush_scan)
    then show ?thesis using FinalFlush r(1,3) sc by (simp add: check_count_def)
  qed
qed





end
