(* ===== verification/Exporter.thy ===== *)
theory Exporter
  imports Telemetry HTTP "HOL-Library.Product_Lexorder"
begin

text \<open>
  The churn exporter (telemetry/churn/exporter.go and \<open>Enable\<close> of prom_counters.go): configuration,
  the periodic snapshot with its rolling window, and what it prints. The environment of the process
  and the clock are arguments; output is appended to the state. \<open>None\<close> is a panic.
\<close>

section \<open>State\<close>

record Config =
  Enabled :: bool
  SampleRate :: rat
  MetricsAddr :: string
  LogInterval :: i64
  Window :: i64
  TopN :: i64
  KeyHashLen :: i64

text \<open>A point in time is the number of nanoseconds since the epoch.\<close>

record point =
  pt_ts :: int
  pt_naive :: i64
  pt_commits :: i64
  pt_sumAbs :: i64
  pt_sumNet :: i64

record exporter =
  ex_churn :: churn
  currCfg :: Config
  exporterRunning :: bool
  windowPoints :: "point list"
  livePrinted :: bool
  liveMode :: bool
  ansiSupported :: bool
  colorOn :: bool
  prevSimpleLen :: i64
  metricsEndpoints :: "string list"
  console :: string

text \<open>The variables before the first call.\<close>

definition zero_exporter :: exporter where
  "zero_exporter =
     \<lparr>ex_churn = \<lparr>modEnabled = False, samplingThreshold = 0, agg = [], naiveWritesInternal = 0, naiveWritesAll = 0,
        commitRowsInternal = 0, sumAbsGlobal = 0, sumNetGlobal = 0, promCalls = []\<rparr>,
      currCfg = \<lparr>Enabled = False, SampleRate = 0, MetricsAddr = '''', LogInterval = 0, Window = 0, TopN = 0, KeyHashLen = 0\<rparr>,
      exporterRunning = False, windowPoints = [], livePrinted = False, liveMode = False, ansiSupported = False, colorOn = False,
      prevSimpleLen = 0, metricsEndpoints = [], console = ''''\<rparr>"

section \<open>Utilities\<close>

definition max64 :: "i64 \<Rightarrow> i64 \<Rightarrow> i64" where
  "max64 a b = (if b <s a then a else b)"

definition abs64 :: "i64 \<Rightarrow> i64" where
  "abs64 n = (if n <s 0 then - n else n)"

definition hex_char :: "u64 \<Rightarrow> char" where
  "hex_char n = (if n < 10 then char_of (48 + unat n) else char_of (87 + unat n))"

definition hex_byte :: "u64 \<Rightarrow> string" where
  "hex_byte b = [hex_char (drop_bit 4 b), hex_char (b AND 15)]"

text \<open>The loop fills the eight bytes from the last one; \<open>bs\<close> are the bytes filled so far.\<close>

primrec hash_bytes :: "nat \<Rightarrow> u64 \<Rightarrow> u64 list \<Rightarrow> u64 list" where
  "hash_bytes 0 h bs = bs"
| "hash_bytes (Suc i) h bs = hash_bytes i (drop_bit 8 h) ((h AND 255) # bs)"

definition shortHash :: "u64 \<Rightarrow> i64 \<Rightarrow> string" where
  "shortHash h n =
     (let n = (if n \<le>s 0 then 8 else n); s = concat (map hex_byte (hash_bytes 8 h []))
      in if n <s word_of_nat (length s) then take (nat (sint n)) s else s)"

section \<open>Colours and rendering\<close>

definition ESC :: char where
  "ESC = CHR 0x1B"

definition ansiClearLine :: string where "ansiClearLine = ESC # ''[2K''"
definition ansiPrevLines2 :: string where "ansiPrevLines2 = ESC # ''[2F''"
definition ansiReset :: string where "ansiReset = ESC # ''[0m''"
definition ansiBold :: string where "ansiBold = ESC # ''[1m''"
definition ansiRed :: string where "ansiRed = ESC # ''[31m''"
definition ansiGreen :: string where "ansiGreen = ESC # ''[32m''"
definition ansiYellow :: string where "ansiYellow = ESC # ''[33m''"
definition ansiCyan :: string where "ansiCyan = ESC # ''[36m''"

definition colorWR :: "bool \<Rightarrow> rat \<Rightarrow> string \<Rightarrow> string" where
  "colorWR on val txt =
     (if \<not> on then txt
      else if f64 (95 / 100) \<le> val then ansiBold @ ansiGreen @ txt @ ansiReset
      else if f64 (80 / 100) \<le> val then ansiYellow @ txt @ ansiReset
      else ansiRed @ txt @ ansiReset)"

definition colorCF :: "bool \<Rightarrow> rat \<Rightarrow> string \<Rightarrow> string" where
  "colorCF on val txt =
     (if \<not> on then txt
      else if 3 \<le> val then ansiBold @ ansiCyan @ txt @ ansiReset
      else if 3 / 2 \<le> val then ansiCyan @ txt @ ansiReset
      else txt)"

text \<open>\<open>inEsc\<close> and \<open>csi\<close> are the flags of the loop; the result are the bytes kept.\<close>

definition final_byte :: "char \<Rightarrow> bool" where
  "final_byte c \<longleftrightarrow> 0x40 \<le> (of_char c :: nat) \<and> (of_char c :: nat) \<le> 0x7E"

fun strip_ansi :: "bool \<Rightarrow> bool \<Rightarrow> string \<Rightarrow> string" where
  "strip_ansi inEsc csi [] = []"
| "strip_ansi inEsc csi (c # s) =
     (if inEsc then
        if \<not> csi then
          if c = CHR ''['' then strip_ansi True True s
          else if final_byte c then strip_ansi False False s
          else strip_ansi inEsc csi s
        else if final_byte c then strip_ansi False False s
        else strip_ansi inEsc csi s
      else if c = ESC then strip_ansi True False s
      else c # strip_ansi inEsc csi s)"

definition printableLen :: "string \<Rightarrow> nat" where
  "printableLen s = (if ESC \<notin> set s then length s else length (strip_ansi False False s))"

definition print :: "string \<Rightarrow> exporter \<Rightarrow> exporter" where
  "print s x = x\<lparr>console := console x @ s\<rparr>"

definition NL :: char where "NL = CHR 0x0A"
definition CR :: char where "CR = CHR 0x0D"

definition renderLive :: "string \<Rightarrow> string \<Rightarrow> exporter \<Rightarrow> exporter" where
  "renderLive summary topLine x =
     (if \<not> livePrinted x then (print (summary @ [NL] @ topLine @ [NL]) x)\<lparr>livePrinted := True\<rparr>
      else print (ansiClearLine @ topLine @ [NL]) (print (ansiClearLine @ summary @ [NL]) (print ansiPrevLines2 x)))"

definition renderSimple :: "string \<Rightarrow> string \<Rightarrow> exporter \<Rightarrow> exporter" where
  "renderSimple summary topLine x =
     (let line = (if topLine \<noteq> '''' \<and> topLine \<noteq> ''top key: (none yet)'' then summary @ '' | '' @ topLine else summary);
          visLen = word_of_nat (printableLen line) :: i64; prev = prevSimpleLen x
      in if \<not> livePrinted x then (print line x)\<lparr>livePrinted := True, prevSimpleLen := visLen\<rparr>
         else let pad = prev - visLen; pad = (if pad <s 0 then 0 else pad)
              in (if 0 <s pad then print (CR # line @ replicate (nat (sint pad)) CHR '' '') x else print (CR # line) x)
                   \<lparr>prevSimpleLen := visLen\<rparr>)"

section \<open>Configuration\<close>

fun has_prefix :: "string \<Rightarrow> string \<Rightarrow> bool" where
  "has_prefix [] s = True"
| "has_prefix (c # p) [] = False"
| "has_prefix (c # p) (d # s) = (c = d \<and> has_prefix p s)"

fun contains :: "string \<Rightarrow> string \<Rightarrow> bool" where
  "contains p [] = (p = [])"
| "contains p (c # s) = (has_prefix p (c # s) \<or> contains p s)"

text \<open>
  \<open>env\<close> is \<open>os.Getenv\<close>, empty for a variable that is not set; \<open>goos\<close> is \<open>runtime.GOOS\<close>. The values are
  taken to be ASCII, where \<open>strings.ToLower\<close> and \<open>strings.EqualFold\<close> act letter by letter.
\<close>

definition equal_fold :: "string \<Rightarrow> string \<Rightarrow> bool" where
  "equal_fold s t = (map to_lower s = map to_lower t)"

definition detectANSISupport :: "(string \<Rightarrow> string) \<Rightarrow> string \<Rightarrow> bool" where
  "detectANSISupport env goos =
     (if env ''VSA_CHURN_LIVE'' = ''0'' \<or> equal_fold (env ''VSA_CHURN_LIVE'') ''false'' then False
      else if env ''GOLAND_IDE'' \<noteq> '''' \<or> env ''IDEA_INITIAL_DIRECTORY'' \<noteq> '''' then False
      else let trm = map to_lower (env ''TERM'')
           in if goos = ''windows'' then
                if env ''WT_SESSION'' \<noteq> '''' \<or> equal_fold (env ''ConEmuANSI'') ''ON'' then True
                else contains ''xterm'' trm \<or> contains ''ansi'' trm
              else if trm = '''' then False
              else contains ''xterm'' trm \<or> contains ''screen'' trm \<or> contains ''tmux'' trm \<or> contains ''ansi'' trm)"

text \<open>
  The previous loop has ended when the starter goes on: it waits on \<open>exporterDone\<close>.
\<close>

definition startOrUpdateExporter :: "(string \<Rightarrow> string) \<Rightarrow> string \<Rightarrow> Config \<Rightarrow> exporter \<Rightarrow> exporter" where
  "startOrUpdateExporter env goos cfg x =
     (let lm = env ''VSA_CHURN_LIVE'';
          x1 = x\<lparr>currCfg := cfg, liveMode := \<not> (lm = ''0'' \<or> lm = ''false''), colorOn := (env ''NO_COLOR'' = ''''),
                 ansiSupported := detectANSISupport env goos, exporterRunning := False\<rparr>
      in if \<not> Enabled cfg \<or> LogInterval cfg \<le>s 0 then x1 else x1\<lparr>exporterRunning := True\<rparr>)"

definition saneConfig :: "Config \<Rightarrow> Config" where
  "saneConfig cfg =
     cfg\<lparr>SampleRate := (if SampleRate cfg < 0 then 0 else if 1 < SampleRate cfg then 1 else SampleRate cfg),
         TopN := (if TopN cfg \<le>s 0 then 50 else TopN cfg),
         KeyHashLen := (if KeyHashLen cfg \<le>s 0 then 8 else KeyHashLen cfg),
         Window := (if Window cfg \<le>s 0 then 60000000000 else Window cfg)\<rparr>"

text \<open>The server that \<open>startMetricsEndpoint\<close> starts is net/http and promhttp; its address is recorded.\<close>

definition startMetricsEndpoint :: "string \<Rightarrow> exporter \<Rightarrow> exporter" where
  "startMetricsEndpoint addr x = x\<lparr>metricsEndpoints := metricsEndpoints x @ [addr]\<rparr>"

definition Enable :: "(string \<Rightarrow> string) \<Rightarrow> string \<Rightarrow> Config \<Rightarrow> exporter \<Rightarrow> exporter" where
  "Enable env goos cfg x =
     (let cfg = saneConfig cfg;
          x1 = x\<lparr>ex_churn := (ex_churn x)\<lparr>samplingThreshold := sampling_threshold (SampleRate cfg), modEnabled := Enabled cfg\<rparr>\<rparr>;
          x2 = startOrUpdateExporter env goos cfg x1
      in if MetricsAddr cfg \<noteq> '''' then startMetricsEndpoint (MetricsAddr cfg) x2 else x2)"

section \<open>Snapshots\<close>

record row =
  row_keyHash :: u64
  row_abs :: i64
  row_net :: i64
  row_churnFactor :: rat

definition ratio :: "i64 \<Rightarrow> i64 \<Rightarrow> rat" where
  "ratio a b = f64 (f64_of_int a / f64_of_int b)"

definition idle :: "i64 \<Rightarrow> keyAgg \<Rightarrow> bool" where
  "idle cutoff ka \<longleftrightarrow> 0 <s ka_lastUpdate ka \<and> ka_lastUpdate ka <s cutoff"

definition agg_row :: "u64 \<times> keyAgg \<Rightarrow> row" where
  "agg_row = (\<lambda>(k, ka). \<lparr>row_keyHash = k, row_abs = ka_abs ka, row_net = ka_net ka,
     row_churnFactor = ratio (ka_abs ka) (max64 1 (abs64 (ka_net ka)))\<rparr>)"

text \<open>
  The pass over the aggregates: idle keys are deleted, the others counted and turned into rows.
  \<open>sort.Slice\<close> may order equal rows in any way; the model keeps their order.
\<close>

definition snapshotRows :: "i64 \<Rightarrow> (u64 \<times> keyAgg) list \<Rightarrow> row list \<times> (u64 \<times> keyAgg) list" where
  "snapshotRows cutoff kas =
     (let kept = filter (\<lambda>p. \<not> idle cutoff (snd p)) kas
      in (sort_key (\<lambda>r. (- row_churnFactor r, - sint (row_abs r))) (map agg_row kept), kept))"

fun prune :: "int \<Rightarrow> point list \<Rightarrow> point list" where
  "prune winStart [] = []"
| "prune winStart (p # ps) = (if pt_ts p < winStart then prune winStart ps else p # ps)"

definition summary_text :: "bool \<Rightarrow> Config \<Rightarrow> rat \<Rightarrow> rat \<Rightarrow> i64 \<Rightarrow> i64 \<Rightarrow> string" where
  "summary_text on cfg wrWindow churnWin dNaive dCommits =
     (let wrTxt = sprintf_f 3 wrWindow; cfTxt = sprintf_f 3 churnWin;
          (wrTxt, cfTxt) = (if on then (colorWR on wrWindow wrTxt, colorCF on churnWin cfTxt) else (wrTxt, cfTxt))
      in ''churn summary: global_churn='' @ cfTxt @ '' write_reduction_est='' @ wrTxt @ '' naive='' @ sprintf_d dNaive
         @ '' commits='' @ sprintf_d dCommits @ '' sample='' @ sprintf_f 2 (SampleRate cfg) @ '' topN='' @ sprintf_d (TopN cfg))"

definition top_text :: "bool \<Rightarrow> Config \<Rightarrow> row list \<Rightarrow> string" where
  "top_text on cfg rows =
     (case rows of
        [] \<Rightarrow> ''top key: (none yet)''
      | first # _ \<Rightarrow>
          let churnTxt = sprintf_f 3 (row_churnFactor first);
              churnTxt = (if on then colorCF on (row_churnFactor first) churnTxt else churnTxt)
          in ''top key='' @ shortHash (row_keyHash first) (KeyHashLen cfg) @ '' churn='' @ churnTxt
             @ '' abs='' @ sprintf_d (row_abs first) @ '' net='' @ sprintf_d (row_net first))"

definition emit :: "string \<Rightarrow> string \<Rightarrow> string \<Rightarrow> exporter \<Rightarrow> exporter" where
  "emit stamp summary topLine x =
     (if liveMode x then if ansiSupported x then renderLive summary topLine x else renderSimple summary topLine x
      else print (''  - '' @ topLine @ [NL]) (print (''['' @ stamp @ ''] '' @ summary @ [NL]) x))"

text \<open>
  \<open>now0\<close> and \<open>now\<close> are the two readings of the clock, \<open>stamp\<close> the time as text. The slice
  \<open>rows[:cfg.TopN]\<close> panics for a negative bound, the first window point when there is none.
\<close>

definition publishSnapshot :: "int \<Rightarrow> int \<Rightarrow> string \<Rightarrow> exporter \<Rightarrow> exporter option" where
  "publishSnapshot now0 now stamp x =
     (let cfg = currCfg x; c = ex_churn x;
          idleTTL = Window cfg * 2; cutoff = word_of_int (now0 - sint idleTTL) :: i64;
          (rows, kept) = snapshotRows cutoff (agg c);
          calls = [KeysTrackedSet (word_of_nat (length kept))]
      in if TopN cfg <s word_of_nat (length rows) \<and> TopN cfg <s 0 then None
         else
           let rows = (if TopN cfg <s word_of_nat (length rows) then take (nat (sint (TopN cfg))) rows else rows);
               pt = \<lparr>pt_ts = now, pt_naive = naiveWritesAll c, pt_commits = commitRowsInternal c,
                     pt_sumAbs = sumAbsGlobal c, pt_sumNet = sumNetGlobal c\<rparr>;
               pts = prune (now - sint (Window cfg)) (windowPoints x @ [pt])
           in case pts of
                [] \<Rightarrow> None
              | old # _ \<Rightarrow>
                  let dNaive = pt_naive pt - pt_naive old; dCommits = pt_commits pt - pt_commits old;
                      dAbs = pt_sumAbs pt - pt_sumAbs old; dNet = pt_sumNet pt - pt_sumNet old;
                      wrWindow = f64 (1 - ratio dCommits (max64 1 dNaive));
                      churnWin = ratio dAbs (max64 1 (abs64 dNet));
                      x1 = x\<lparr>ex_churn := c\<lparr>agg := kept, promCalls := promCalls c @ calls @ [WriteReductionSet wrWindow, ChurnRatioSet churnWin]\<rparr>,
                             windowPoints := pts\<rparr>
                  in Some (emit stamp (summary_text (colorOn x) cfg wrWindow churnWin dNaive dCommits) (top_text (colorOn x) cfg rows) x1))"

section \<open>The module at work\<close>

datatype churn_event =
    RequestSeen i64 string bool
  | BatchSeen i64
  | CommitSeen i64 string i64
  | CommitErrorSeen i64
  | Tick int int string

text \<open>Recording calls, and ticks of the running exporter loop (\<open>exporterLoop\<close>).\<close>

fun churn_step :: "churn_event \<Rightarrow> exporter \<Rightarrow> exporter option" where
  "churn_step (RequestSeen now key admitted) x = Some (x\<lparr>ex_churn := ObserveRequest now key admitted (ex_churn x)\<rparr>)"
| "churn_step (BatchSeen sz) x = Some (x\<lparr>ex_churn := ObserveBatch sz (ex_churn x)\<rparr>)"
| "churn_step (CommitSeen now key vec) x = Some (x\<lparr>ex_churn := ObserveCommit now key vec (ex_churn x)\<rparr>)"
| "churn_step (CommitErrorSeen n) x = Some (x\<lparr>ex_churn := ObserveCommitError n (ex_churn x)\<rparr>)"
| "churn_step (Tick now0 now stamp) x = (if exporterRunning x then publishSnapshot now0 now stamp x else Some x)"

fun churn_run :: "churn_event list \<Rightarrow> exporter \<Rightarrow> exporter option" where
  "churn_run [] x = Some x"
| "churn_run (e # es) x = (case churn_step e x of None \<Rightarrow> None | Some x1 \<Rightarrow> churn_run es x1)"

end
