(* ===== verification/Reports.thy ===== *)
theory Reports
  imports Telemetry "HOL-Library.Char_ord" "HOL-Library.List_Lexorder"
begin

text \<open>
  What the mock persister prints (core/persistence.go): the lines of a batch and the summary at the end
  of the process. \<open>stamp\<close> is the current time as text. Keys are taken to be ASCII, so that the width of
  a column counts bytes.
\<close>

definition yellow :: string where "yellow = CHR 0x1B # ''[33m''"
definition reset :: string where "reset = CHR 0x1B # ''[0m''"

definition println :: "string \<Rightarrow> string" where
  "println s = s @ [CHR 0x0A]"

definition vectorNote :: "string \<Rightarrow> string" where
  "vectorNote stamp =
     println (yellow @ ''['' @ stamp @ ''] Vector note: per-key int64 state. Examples: count=57 (user:123), tokens=120 (api:abc), bit-packed sliding-window, version=987654321 (stream:42).'' @ reset)"

text \<open>The output of \<open>CommitBatch\<close>; \<open>noted\<close> is the state of \<open>vectorNoteOnce\<close>.\<close>

definition batch_output :: "string \<Rightarrow> bool \<Rightarrow> commit list \<Rightarrow> string" where
  "batch_output stamp noted commits =
     (if commits = [] then ''''
      else println (''['' @ stamp @ ''] Persisting batch of '' @ nat_digits (length commits) @ '' commits...'')
           @ (if noted then '''' else vectorNote stamp)
           @ concat (map (\<lambda>c. println (''  - KEY: '' @ pad_right 20 (Key c) @ '' VECTOR: '' @ sprintf_d (Vector c))) commits))"

definition write_reduction :: "i64 \<Rightarrow> i64 \<Rightarrow> rat" where
  "write_reduction writes events =
     (let wr = f64 (1 - f64 (f64_of_int writes / f64_of_int events)); wr = (if wr < 0 then 0 else wr)
      in if 1 < wr then 1 else wr)"

definition wrPctStr :: "i64 \<Rightarrow> i64 \<Rightarrow> string" where
  "wrPctStr writes events =
     (if 0 <s events then sprintf_f 1 (f64 (write_reduction writes events * 100)) @ ''%'' else ''n/a'')"

definition metric_line :: "string \<Rightarrow> string \<Rightarrow> string" where
  "metric_line name value = println (pad_right 18 name @ '' '' @ pad_left 12 value)"

definition threshold_line :: "string \<times> string \<Rightarrow> string" where
  "threshold_line = (\<lambda>(name, value). println (pad_right 30 name @ '' '' @ pad_left 24 value))"

definition sorted_thresholds :: "metrics \<Rightarrow> (string \<times> string) list" where
  "sorted_thresholds m =
     (let th = getThresholdSnapshot m
      in map (\<lambda>k. (k, case map_of th k of None \<Rightarrow> '''' | Some v \<Rightarrow> v)) (sort (map fst th)))"

definition PrintFinalMetrics :: "string \<Rightarrow> metrics \<Rightarrow> mockPersister \<Rightarrow> string" where
  "PrintFinalMetrics stamp m p =
     (let (attemptedN, admitsN, refundsN) = getEventTotals m; events = admitsN + refundsN;
          sep = println (replicate 60 CHR ''-''); rows = sorted_thresholds m
      in println (yellow @ ''['' @ stamp @ ''] Final persistence metrics'')
         @ sep @ metric_line ''Metric'' ''Value'' @ sep
         @ metric_line ''Attempted'' (sprintf_d attemptedN) @ metric_line ''Admits'' (sprintf_d admitsN)
         @ metric_line ''Refunds'' (sprintf_d refundsN) @ metric_line ''Events (A+R)'' (sprintf_d events)
         @ metric_line ''Writes'' (sprintf_d (totalWrites p)) @ metric_line ''Batches'' (sprintf_d (totalBatches p))
         @ metric_line ''Write reduction'' (wrPctStr (totalWrites p) events) @ sep
         @ (if rows \<noteq> [] then
              println ''Configured thresholds'' @ sep @ threshold_line (''Name'', ''Value'') @ sep
              @ concat (map threshold_line rows) @ sep
            else '''')
         @ println ''Impact: fewer DB writes -> lower cost, higher throughput, better latency/SLA.''
         @ println ''Pending vectors: any sub-threshold remainders are flushed on graceful shutdown; abrupt termination may leave some in-memory until next start.''
         @ reset)"

section \<open>Lemmas\<close>

lemma copyThresholds_map: "map_of (copyThresholds ps out) k = (case map_of (rev ps) k of None \<Rightarrow> map_of out k | Some v \<Rightarrow> Some v)"
  by (induction ps out rule: copyThresholds.induct) (auto simp: map_add_def split: option.splits)

lemma copyThresholds_distinct: "distinct (map fst out) \<Longrightarrow> distinct (map fst (copyThresholds ps out))"
  by (induction ps out rule: copyThresholds.induct) (simp_all add: distinct_al_update)

text \<open>Every threshold is listed once, in the order of the names, with its value.\<close>

lemma sorted_thresholds_spec:
  assumes "distinct (map fst (thresholds m))"
  shows "sorted (map fst (sorted_thresholds m))" and "distinct (map fst (sorted_thresholds m))"
    and "set (sorted_thresholds m) = set (thresholds m)"
proof -
  let ?th = "getThresholdSnapshot m"
  have d: "distinct (map fst ?th)" by (simp add: getThresholdSnapshot_def copyThresholds_distinct)
  have fst: "map fst (sorted_thresholds m) = sort (map fst ?th)" by (simp add: sorted_thresholds_def Let_def o_def)
  then show "sorted (map fst (sorted_thresholds m))" "distinct (map fst (sorted_thresholds m))" using d by simp_all
  have "map_of ?th = map_of (rev (thresholds m))"
    by (rule ext) (simp add: getThresholdSnapshot_def copyThresholds_map split: option.split)
  moreover have "distinct (map fst (rev (thresholds m)))" using assms by (simp add: rev_map [symmetric])
  ultimately have th: "set ?th = set (thresholds m)" using d by (metis set_rev set_map_of_compr)
  have "set (sorted_thresholds m) = (\<lambda>k. (k, case map_of ?th k of None \<Rightarrow> '''' | Some v \<Rightarrow> v)) ` fst ` set ?th"
    by (simp add: sorted_thresholds_def Let_def)
  also have "\<dots> = set ?th"
  proof -
    have "(fst p, case map_of ?th (fst p) of None \<Rightarrow> '''' | Some v \<Rightarrow> v) = p" if "p \<in> set ?th" for p
      using d that by (cases p) simp
    then show ?thesis by (force simp: image_image)
  qed
  finally show "set (sorted_thresholds m) = set (thresholds m)" using th by simp
qed

lemma write_reduction_range: "0 \<le> write_reduction w e" "write_reduction w e \<le> 1"
  by (simp_all add: write_reduction_def Let_def)

end
