(* ===== verification/Persistence.thy ===== *)
theory Persistence
  imports Telemetry
begin

text \<open>
  The persistence adapters (internal/ratelimiter/persistence): the shim between the worker and an
  idempotent persister, the Redis and Postgres adapters and the factory; the Kafka adapter, the
  clients and contexts are in \<open>Clients\<close>. The clients are parameters. The Lua script and the SQL
  statements, which are text in the sources, are read as functions on the data they act on:
  \<open>SETNX\<close> and \<open>HINCRBY\<close> on markers and counters, and statements that see the effects of the
  earlier statements of their transaction. Here markers do not expire; \<open>Clients\<close> has the script with
  its expiry, and relates the two.
\<close>

section \<open>Entries and errors\<close>

record CommitEntry =
  ce_Key :: string
  ce_Vector :: i64
  ce_CommitID :: string
  ce_FencingToken :: "i64 option"

datatype persist_error =
    ErrCommitIDMissing
  | ErrRedisEval string string
  | ErrKafkaProduce string string
  | ErrSQL
  | ErrPostgresNotEnabled
  | ErrUnknownAdapter string

type_synonym 's entry_batch = "CommitEntry list \<Rightarrow> 's \<Rightarrow> persist_error option \<times> 's"

section \<open>The shim\<close>

text \<open>Sixteen random bytes in hexadecimal.\<close>

definition hex_digit :: "nat \<Rightarrow> char" where
  "hex_digit n = (if n < 10 then char_of (48 + n) else char_of (87 + n))"

definition randomID :: "u8 list \<Rightarrow> string" where
  "randomID bytes = concat (map (\<lambda>b. [hex_digit (unat b div 16), hex_digit (unat b mod 16)]) bytes)"

text \<open>\<open>rnd\<close> gives the successive reads of the random source; the shim's state counts them.\<close>

fun shimEntries :: "(nat \<Rightarrow> u8 list) \<Rightarrow> nat \<Rightarrow> commit list \<Rightarrow> CommitEntry list" where
  "shimEntries rnd n [] = []"
| "shimEntries rnd n (c # cs) =
     \<lparr>ce_Key = Key c, ce_Vector = Vector c, ce_CommitID = randomID (rnd n), ce_FencingToken = None\<rparr>
     # shimEntries rnd (Suc n) cs"

definition shim_CommitBatch :: "(nat \<Rightarrow> u8 list) \<Rightarrow> 's entry_batch \<Rightarrow> (nat \<times> 's) commit_batch" where
  "shim_CommitBatch rnd impl cs = (\<lambda>(n, s).
     if cs = [] then (True, (n, s))
     else let (err, s') = impl (shimEntries rnd n cs) s in (err = None, (n + length cs, s')))"

section \<open>Redis\<close>

text \<open>A client evaluates the script on two keys, a vector and a time to live.\<close>

type_synonym 'r evaler = "string \<Rightarrow> string \<Rightarrow> i64 \<Rightarrow> i64 \<Rightarrow> 'r \<Rightarrow> bool \<times> 'r"

record redis_db =
  scalars_of :: "(string \<times> i64) list"
  markers :: "string list"

definition redis_scalar :: "redis_db \<Rightarrow> string \<Rightarrow> i64" where
  "redis_scalar db k = (case map_of (scalars_of db) k of None \<Rightarrow> 0 | Some x \<Rightarrow> x)"

text \<open>
  \<open>HINCRBY\<close> refuses an increment that leaves the signed 64-bit range. The script then fails with
  the marker already set, since Redis does not undo the effects of a script that fails. The numbers
  of a script are doubles, so the negated vector is exact up to \<open>2^53\<close>; the expiry of the marker
  has no effect here.
\<close>

definition hincrby :: "string \<Rightarrow> int \<Rightarrow> redis_db \<Rightarrow> bool \<times> redis_db" where
  "hincrby counterKey delta db =
     (let x = sint (redis_scalar db counterKey) + delta
      in if fits x
         then (True, db\<lparr>scalars_of := al_update counterKey (word_of_int x) (scalars_of db)\<rparr>)
         else (False, db))"

definition redisLuaScript :: "string \<Rightarrow> string \<Rightarrow> i64 \<Rightarrow> i64 \<Rightarrow> redis_db \<Rightarrow> bool \<times> redis_db" where
  "redisLuaScript counterKey markerKey vector ttlSeconds db =
     (if markerKey \<in> set (markers db) then (True, db)
      else hincrby counterKey (- sint vector) (db\<lparr>markers := markerKey # markers db\<rparr>))"

definition RedisCounterKey :: "string \<Rightarrow> string" where
  "RedisCounterKey key = ''counter:'' @ key"

definition RedisCommitMarkerKey :: "string \<Rightarrow> string \<Rightarrow> string" where
  "RedisCommitMarkerKey key commitID = ''commit:'' @ key @ '':'' @ commitID"

definition redis_markerTTL :: "i64 \<Rightarrow> i64" where
  "redis_markerTTL ttl = (if ttl \<le>s 0 then 86400000000000 else ttl)"

definition ttlSeconds_of :: "i64 \<Rightarrow> i64" where
  "ttlSeconds_of ttl = int_of_f64 (Duration_Seconds ttl)"

fun redis_entries :: "'r evaler \<Rightarrow> i64 \<Rightarrow> 'r entry_batch" where
  "redis_entries eval ttl [] r = (None, r)"
| "redis_entries eval ttl (e # es) r =
     (if ce_CommitID e = '''' then (Some ErrCommitIDMissing, r)
      else case eval (RedisCounterKey (ce_Key e)) (RedisCommitMarkerKey (ce_Key e) (ce_CommitID e)) (ce_Vector e)
                  (ttlSeconds_of ttl) r of
             (False, r1) \<Rightarrow> (Some (ErrRedisEval (ce_Key e) (ce_CommitID e)), r1)
           | (True, r1) \<Rightarrow> redis_entries eval ttl es r1)"

definition redis_CommitBatch :: "'r evaler \<Rightarrow> i64 \<Rightarrow> 'r entry_batch" where
  "redis_CommitBatch eval ttl es r = (if es = [] then (None, r) else redis_entries eval (redis_markerTTL ttl) es r)"

section \<open>Postgres\<close>

record pg_counter =
  pg_scalar :: i64
  last_token :: "i64 option"

record pg_db =
  pg_counters :: "(string \<times> pg_counter) list"
  applied_commits :: "(string \<times> (string \<times> i64)) list"

definition pg_insert_counter :: "string \<Rightarrow> pg_db \<Rightarrow> pg_db" where
  "pg_insert_counter key db =
     (if map_of (pg_counters db) key \<noteq> None then db
      else db\<lparr>pg_counters := al_update key \<lparr>pg_scalar = 0, last_token = None\<rparr> (pg_counters db)\<rparr>)"

definition pg_insert_applied :: "string \<Rightarrow> string \<Rightarrow> i64 \<Rightarrow> pg_db \<Rightarrow> pg_db" where
  "pg_insert_applied commit_id key vc db =
     (if map_of (applied_commits db) commit_id \<noteq> None then db
      else db\<lparr>applied_commits := al_update commit_id (key, vc) (applied_commits db)\<rparr>)"

definition pg_update_token :: "string \<Rightarrow> string \<Rightarrow> i64 \<Rightarrow> pg_db \<Rightarrow> pg_db" where
  "pg_update_token key commit_id token db =
     (case map_of (pg_counters db) key of
        None \<Rightarrow> db
      | Some row \<Rightarrow>
          if map_of (applied_commits db) commit_id = None
             \<and> (case last_token row of None \<Rightarrow> True | Some t \<Rightarrow> t \<le>s token)
          then db\<lparr>pg_counters := al_update key
                 (row\<lparr>last_token := Some (case last_token row of None \<Rightarrow> token | Some t \<Rightarrow> if t \<le>s token then token else t)\<rparr>)
                 (pg_counters db)\<rparr>
          else db)"

definition pg_update_scalar :: "string \<Rightarrow> string \<Rightarrow> i64 \<Rightarrow> pg_db \<Rightarrow> pg_db" where
  "pg_update_scalar commit_id key vc db =
     (case map_of (pg_counters db) key of
        None \<Rightarrow> db
      | Some row \<Rightarrow>
          if map_of (applied_commits db) commit_id = None
          then db\<lparr>pg_counters := al_update key (row\<lparr>pg_scalar := pg_scalar row - vc\<rparr>) (pg_counters db)\<rparr>
          else db)"

text \<open>
  The statements of one entry. \<open>exec n\<close> says whether the \<open>n\<close>-th statement of the transaction
  fails; the counter of statements is threaded through.
\<close>

definition pg_exec :: "(nat \<Rightarrow> bool) \<Rightarrow> (pg_db \<Rightarrow> pg_db) \<Rightarrow> nat \<times> pg_db \<Rightarrow> (nat \<times> pg_db) option" where
  "pg_exec exec stmt = (\<lambda>(n, db). if exec n then None else Some (Suc n, stmt db))"

definition pg_entry :: "(nat \<Rightarrow> bool) \<Rightarrow> CommitEntry \<Rightarrow> nat \<times> pg_db \<Rightarrow> (nat \<times> pg_db) option" where
  "pg_entry exec e tx =
     (case pg_exec exec (pg_insert_applied (ce_CommitID e) (ce_Key e) (ce_Vector e)) tx of
        None \<Rightarrow> None
      | Some tx1 \<Rightarrow>
          (case (case ce_FencingToken e of
                   None \<Rightarrow> Some tx1
                 | Some token \<Rightarrow> pg_exec exec (pg_update_token (ce_Key e) (ce_CommitID e) token) tx1) of
             None \<Rightarrow> None
           | Some tx2 \<Rightarrow> pg_exec exec (pg_update_scalar (ce_CommitID e) (ce_Key e) (ce_Vector e)) tx2))"

fun pg_create :: "(nat \<Rightarrow> bool) \<Rightarrow> CommitEntry list \<Rightarrow> nat \<times> pg_db \<Rightarrow> (nat \<times> pg_db) option" where
  "pg_create exec [] tx = Some tx"
| "pg_create exec (e # es) tx =
     (case pg_exec exec (pg_insert_counter (ce_Key e)) tx of None \<Rightarrow> None | Some tx1 \<Rightarrow> pg_create exec es tx1)"

fun pg_entries :: "(nat \<Rightarrow> bool) \<Rightarrow> CommitEntry list \<Rightarrow> nat \<times> pg_db \<Rightarrow> (persist_error + nat \<times> pg_db)" where
  "pg_entries exec [] tx = Inr tx"
| "pg_entries exec (e # es) tx =
     (if ce_CommitID e = '''' then Inl ErrCommitIDMissing
      else case pg_entry exec e tx of None \<Rightarrow> Inl ErrSQL | Some tx1 \<Rightarrow> pg_entries exec es tx1)"

text \<open>\<open>begin\<close> and \<open>commit\<close> say whether \<open>BeginTx\<close> and \<open>Commit\<close> fail; any failure rolls back.\<close>

definition pg_CommitBatch :: "bool \<Rightarrow> bool \<Rightarrow> (nat \<Rightarrow> bool) \<Rightarrow> bool \<Rightarrow> pg_db entry_batch" where
  "pg_CommitBatch begin_fails commit_fails exec createMissingKeys es db =
     (if es = [] then (None, db)
      else if begin_fails then (Some ErrSQL, db)
      else case (if createMissingKeys then pg_create exec es (0, db) else Some (0, db)) of
             None \<Rightarrow> (Some ErrSQL, db)
           | Some tx \<Rightarrow>
               (case pg_entries exec es tx of
                  Inl err \<Rightarrow> (Some err, db)
                | Inr (n, db') \<Rightarrow> if commit_fails then (Some ErrSQL, db) else (None, db')))"

section \<open>The factory\<close>

record DemoOptions =
  RedisMarkerTTL :: i64
  RedisAddr :: string
  KafkaTopic :: string

datatype evaler_choice = GoRedisEvaler string | LoggingRedisEvaler

datatype persister_choice =
    MockPersister
  | RedisShim evaler_choice i64
  | KafkaShim string

definition BuildPersister :: "string \<Rightarrow> DemoOptions \<Rightarrow> persist_error + persister_choice" where
  "BuildPersister adapter opts =
     (if adapter = '''' \<or> adapter = ''mock'' then Inr MockPersister
      else if adapter = ''redis'' then
        let ttl = (if RedisMarkerTTL opts \<le>s 0 then 86400000000000 else RedisMarkerTTL opts);
            evaler = (if RedisAddr opts \<noteq> '''' then GoRedisEvaler (RedisAddr opts) else LoggingRedisEvaler)
        in Inr (RedisShim evaler ttl)
      else if adapter = ''kafka'' then
        Inr (KafkaShim (if KafkaTopic opts = '''' then ''vsa-commits'' else KafkaTopic opts))
      else if adapter = ''postgres'' then Inl ErrPostgresNotEnabled
      else Inl (ErrUnknownAdapter adapter))"

section \<open>Redis clients\<close>

abbreviation entry_marker :: "CommitEntry \<Rightarrow> string" where
  "entry_marker e \<equiv> RedisCommitMarkerKey (ce_Key e) (ce_CommitID e)"

abbreviation run_script :: "CommitEntry \<Rightarrow> i64 \<Rightarrow> redis_db \<Rightarrow> bool \<times> redis_db" where
  "run_script e ttl \<equiv> redisLuaScript (RedisCounterKey (ce_Key e)) (entry_marker e) (ce_Vector e) ttl"

text \<open>What the entries of a batch still have to take from the counter of a key.\<close>

definition pending_sum :: "CommitEntry list \<Rightarrow> redis_db \<Rightarrow> string \<Rightarrow> int" where
  "pending_sum es db k =
     (\<Sum>e \<in> {e \<in> set es. entry_marker e \<notin> set (markers db) \<and> ce_Key e = k}. sint (ce_Vector e))"

definition settled :: "CommitEntry list \<Rightarrow> redis_db \<Rightarrow> string \<Rightarrow> int" where
  "settled es db k = sint (redis_scalar db (RedisCounterKey k)) - pending_sum es db k"

text \<open>The counters leave enough room for every part of the batch.\<close>

definition room :: "CommitEntry list \<Rightarrow> redis_db \<Rightarrow> bool" where
  "room es db \<longleftrightarrow> (\<forall>k. \<bar>settled es db k\<bar> + (\<Sum>e \<in> set es. \<bar>sint (ce_Vector e)\<bar>) < 2 ^ 63)"

lemma counter_key_inj [simp]: "RedisCounterKey k = RedisCounterKey k' \<longleftrightarrow> k = k'"
  by (simp add: RedisCounterKey_def)

lemma pending_after:
  assumes "e \<in> set es" and "inj_on entry_marker (set es)" and "entry_marker e \<notin> set (markers db)"
    and "set (markers db') = insert (entry_marker e) (set (markers db))"
  shows "pending_sum es db' k = pending_sum es db k - (if ce_Key e = k then sint (ce_Vector e) else 0)"
proof -
  let ?P = "{x \<in> set es. entry_marker x \<notin> set (markers db) \<and> ce_Key x = k}"
  have "x = e" if "x \<in> set es" "entry_marker x = entry_marker e" for x
    using assms(1,2) that by (auto dest: inj_onD)
  then have "{x \<in> set es. entry_marker x \<notin> set (markers db') \<and> ce_Key x = k} = ?P - {e}"
    using assms(4) by auto
  then show ?thesis using assms(1,3) by (auto simp: pending_sum_def sum_diff1)
qed

lemma pending_bound: "\<bar>pending_sum es db k\<bar> \<le> (\<Sum>e \<in> set es. \<bar>sint (ce_Vector e)\<bar>)"
  unfolding pending_sum_def by (rule order_trans [OF sum_abs]) (intro sum_mono2; auto)

lemma script_run:
  assumes "e \<in> set es" and "inj_on entry_marker (set es)" and "room es db"
  shows "fst (run_script e ttl db)" and "settled es (snd (run_script e ttl db)) k = settled es db k"
    and "set (markers (snd (run_script e ttl db))) = insert (entry_marker e) (set (markers db))"
proof -
  let ?r = "run_script e ttl db" and ?c = "RedisCounterKey (ce_Key e)"
  have "fst ?r \<and> settled es (snd ?r) k = settled es db k \<and> set (markers (snd ?r)) = insert (entry_marker e) (set (markers db))"
  proof (cases "entry_marker e \<in> set (markers db)")
    case True
    then show ?thesis by (auto simp: redisLuaScript_def)
  next
    case False
    let ?x = "sint (redis_scalar db ?c) - sint (ce_Vector e)" and ?db = "db\<lparr>markers := entry_marker e # markers db\<rparr>"
    have pend: "pending_sum es db' k' = pending_sum es db k' - (if ce_Key e = k' then sint (ce_Vector e) else 0)"
      if "markers db' = markers ?db" for db' k'
      using pending_after [OF assms(1,2) False, of db'] that by simp
    have "\<bar>settled es db (ce_Key e)\<bar> + (\<Sum>e \<in> set es. \<bar>sint (ce_Vector e)\<bar>) < 2 ^ 63"
      using assms(3) by (simp add: room_def)
    moreover have "?x = settled es db (ce_Key e) + pending_sum es ?db (ce_Key e)"
      using pend [of ?db "ce_Key e"] by (simp add: settled_def)
    ultimately have "\<bar>?x\<bar> < 2 ^ 63" using pending_bound [of es ?db "ce_Key e"] by linarith
    then have x: "fits ?x" unfolding fits_def by linarith
    have run: "?r = (True, ?db\<lparr>scalars_of := al_update ?c (word_of_int ?x) (scalars_of db)\<rparr>)"
      using False x by (simp add: redisLuaScript_def hincrby_def redis_scalar_def Let_def)
    have "sint (word_of_int ?x :: i64) = ?x" using x by (rule sint_of_int_fits)
    then show ?thesis
      using pend [of "snd ?r" k] by (auto simp: run settled_def redis_scalar_def)
  qed
  then show "fst ?r" "settled es (snd ?r) k = settled es db k"
    "set (markers (snd ?r)) = insert (entry_marker e) (set (markers db))" by simp_all
qed

lemma room_settled: "(\<And>k. settled es db' k = settled es db k) \<Longrightarrow> room es db' = room es db"
  by (simp add: room_def)

text \<open>
  A client of a Redis server: an evaluation that returns has run the script, one that fails may or
  may not have run it. Vectors are in the range in which the numbers of a script are exact.
\<close>

definition exact_vector :: "i64 \<Rightarrow> bool" where
  "exact_vector v \<longleftrightarrow> \<bar>sint v\<bar> \<le> 2 ^ 53"

locale redis_client =
  fixes eval :: "'r evaler" and db_of :: "'r \<Rightarrow> redis_db"
  assumes eval_ok: "exact_vector v \<Longrightarrow> eval ck mk v ttl r = (True, r') \<Longrightarrow>
      redisLuaScript ck mk v ttl (db_of r) = (True, db_of r')"
    and eval_err: "exact_vector v \<Longrightarrow> eval ck mk v ttl r = (False, r') \<Longrightarrow>
      db_of r' = db_of r \<or> db_of r' = snd (redisLuaScript ck mk v ttl (db_of r))"
begin

lemma eval_cases:
  assumes "exact_vector v" and "eval ck mk v ttl r = (ok, r')"
  shows "db_of r' = db_of r \<and> \<not> ok \<or> db_of r' = snd (redisLuaScript ck mk v ttl (db_of r))"
  using assms eval_ok eval_err by (cases ok) force+

lemma entries_settled:
  assumes "inj_on entry_marker (set all)" and "\<And>e. e \<in> set all \<Longrightarrow> exact_vector (ce_Vector e)"
    and "set es \<subseteq> set all" and "room all (db_of r)" and "redis_entries eval ttl es r = (err, r')"
  shows "(\<forall>k. settled all (db_of r') k = settled all (db_of r) k) \<and> set (markers (db_of r)) \<subseteq> set (markers (db_of r'))
    \<and> (err = None \<longrightarrow> entry_marker ` set es \<subseteq> set (markers (db_of r')))"
  using assms(3-5)
proof (induction es arbitrary: r)
  case (Cons e es)
  show ?case
  proof (cases "ce_CommitID e = []")
    case True
    then show ?thesis using Cons.prems by auto
  next
    case False
    have e: "e \<in> set all" "exact_vector (ce_Vector e)" using Cons.prems(1) assms(2) by auto
    obtain ok r1 where ev: "eval (RedisCounterKey (ce_Key e)) (entry_marker e) (ce_Vector e) (ttlSeconds_of ttl) r = (ok, r1)"
      by fastforce
    note run = script_run [OF e(1) assms(1) Cons.prems(2), of "ttlSeconds_of ttl"]
    have one: "\<forall>k. settled all (db_of r1) k = settled all (db_of r) k" "set (markers (db_of r)) \<subseteq> set (markers (db_of r1))"
      and ok: "ok \<Longrightarrow> entry_marker e \<in> set (markers (db_of r1))"
      using eval_cases [OF e(2) ev] run(2,3) by auto
    show ?thesis
    proof (cases ok)
      case True
      then have rest: "redis_entries eval ttl es r1 = (err, r')" using Cons.prems(3) False ev by simp
      have "room all (db_of r1)" using room_settled one(1) Cons.prems(2) by metis
      then show ?thesis using Cons.IH [OF _ _ rest] Cons.prems(1) one ok True by auto
    next
      case no: False
      then have "r' = r1" "err \<noteq> None" using Cons.prems(3) False ev by auto
      then show ?thesis using one by blast
    qed
  qed
qed simp

lemma batch_settled:
  assumes "inj_on entry_marker (set es)" and "\<And>e. e \<in> set es \<Longrightarrow> exact_vector (ce_Vector e)"
    and "room es (db_of r)" and "redis_CommitBatch eval ttl es r = (err, r')"
  shows "settled es (db_of r') k = settled es (db_of r) k"
    and "err = None \<Longrightarrow> entry_marker ` set es \<subseteq> set (markers (db_of r'))"
proof -
  consider "es = []" "r' = r" | "redis_entries eval (redis_markerTTL ttl) es r = (err, r')"
    using assms(4) by (auto simp: redis_CommitBatch_def split: if_splits)
  then show "settled es (db_of r') k = settled es (db_of r) k"
    and "err = None \<Longrightarrow> entry_marker ` set es \<subseteq> set (markers (db_of r'))"
    using entries_settled [OF assms(1,2) subset_refl assms(3)] by (cases; auto)+
qed

text \<open>Failed attempts and a final success, all with the same entries.\<close>

lemma retry_exactly_once:
  assumes "inj_on entry_marker (set es)" and "\<And>e. e \<in> set es \<Longrightarrow> exact_vector (ce_Vector e)"
    and "\<And>e. e \<in> set es \<Longrightarrow> entry_marker e \<notin> set (markers (db_of r0))"
    and "\<And>k. \<bar>sint (redis_scalar (db_of r0) (RedisCounterKey k))\<bar> + 2 * (\<Sum>e \<in> set es. \<bar>sint (ce_Vector e)\<bar>) < 2 ^ 63"
    and "(\<lambda>r r'. \<exists>err. redis_CommitBatch eval ttl es r = (err, r'))\<^sup>*\<^sup>* r0 r1"
    and "redis_CommitBatch eval ttl es r1 = (None, r2)"
  shows "sint (redis_scalar (db_of r2) (RedisCounterKey k)) =
    sint (redis_scalar (db_of r0) (RedisCounterKey k)) - (\<Sum>e \<in> {e \<in> set es. ce_Key e = k}. sint (ce_Vector e))"
proof -
  have room: "room es (db_of r0)"
    unfolding room_def
  proof
    show "\<bar>settled es (db_of r0) k\<bar> + (\<Sum>e \<in> set es. \<bar>sint (ce_Vector e)\<bar>) < 2 ^ 63" for k
      using assms(4) [of k] pending_bound [of es "db_of r0" k] unfolding settled_def by linarith
  qed
  have "settled es (db_of r1) = settled es (db_of r0)"
    using assms(5)
  proof (induction rule: rtranclp_induct)
    case (step r r')
    then have "room es (db_of r)" using room room_settled by metis
    then show ?case using batch_settled(1) [OF assms(1,2)] step by auto
  qed simp
  then have at1: "room es (db_of r1)" "settled es (db_of r1) = settled es (db_of r0)"
    using room room_settled [of es "db_of r1" "db_of r0"] by simp_all
  have "settled es (db_of r2) k = settled es (db_of r0) k"
    using batch_settled(1) [OF assms(1,2) at1(1) assms(6)] at1(2) by simp
  moreover have "pending_sum es (db_of r2) k = 0"
    using batch_settled(2) [OF assms(1,2) at1(1) assms(6) refl] unfolding pending_sum_def by (intro sum.neutral) auto
  moreover have "pending_sum es (db_of r0) k = (\<Sum>e \<in> {e \<in> set es. ce_Key e = k}. sint (ce_Vector e))"
    using assms(3) unfolding pending_sum_def by (intro sum.cong) auto
  ultimately show ?thesis by (simp add: settled_def)
qed

end

text \<open>A server reached over a network that loses the evaluations a pattern says.\<close>

definition lua_evaler :: "(nat \<Rightarrow> bool) \<Rightarrow> (nat \<times> redis_db) evaler" where
  "lua_evaler fails ck mk v ttl = (\<lambda>(n, db).
     if fails n then (False, (Suc n, db))
     else let (ok, db') = redisLuaScript ck mk v ttl db in (ok, (Suc n, db')))"

interpretation lua: redis_client "lua_evaler fails" snd for fails :: "nat \<Rightarrow> bool"
  by unfold_locales (auto simp: lua_evaler_def split: if_splits prod.splits)

section \<open>Postgres statements\<close>

text \<open>Once the marker is there, the guarded updates do nothing.\<close>

lemma pg_guarded:
  "map_of (applied_commits db) cid \<noteq> None \<Longrightarrow> pg_update_scalar cid key vc db = db"
  "map_of (applied_commits db) cid \<noteq> None \<Longrightarrow> pg_update_token key cid token db = db"
  by (auto simp: pg_update_scalar_def pg_update_token_def split: option.split)

lemma pg_entry_counters:
  assumes "pg_entry exec e (n, db) = Some (n', db')"
  shows "pg_counters db' = pg_counters db"
proof -
  let ?db = "pg_insert_applied (ce_CommitID e) (ce_Key e) (ce_Vector e) db"
  have m: "map_of (applied_commits ?db) (ce_CommitID e) \<noteq> None" by (auto simp: pg_insert_applied_def)
  have "pg_counters ?db = pg_counters db" by (simp add: pg_insert_applied_def)
  then show ?thesis
    using assms by (auto simp: pg_entry_def pg_exec_def pg_guarded [OF m] split: if_splits option.splits)
qed

lemma pg_entries_counters: "pg_entries exec es (n, db) = Inr (n', db') \<Longrightarrow> pg_counters db' = pg_counters db"
proof (induction es arbitrary: n db)
  case (Cons e es)
  then obtain n1 db1 where "pg_entry exec e (n, db) = Some (n1, db1)" "pg_entries exec es (n1, db1) = Inr (n', db')"
    by (auto split: if_splits option.splits)
  then show ?case using Cons.IH pg_entry_counters by fastforce
qed simp

lemma pg_create_scalars:
  "pg_create exec es (n, db) = Some (n', db') \<Longrightarrow>
     map_option pg_scalar (map_of (pg_counters db') k) =
       (case map_of (pg_counters db) k of Some row \<Rightarrow> Some (pg_scalar row)
        | None \<Rightarrow> if k \<in> ce_Key ` set es then Some 0 else None)"
proof (induction es arbitrary: n db)
  case (Cons e es)
  then have "pg_create exec es (Suc n, pg_insert_counter (ce_Key e) db) = Some (n', db')"
    by (auto simp: pg_exec_def split: if_splits)
  from Cons.IH [OF this] show ?case by (auto simp: pg_insert_counter_def split: option.splits)
qed (simp split: option.split)

section \<open>Properties\<close>

text \<open>
  Redis retries are exactly-once. Take a batch whose commit markers are distinct and new, whose
  vectors are within the exact range of the script's numbers and whose counters have room for it,
  and call the adapter with it any number of times, with evaluations failing at any point (before or
  after the script ran on the server), until a call succeeds. Then every counter has changed by
  exactly the sum of the vectors of its entries, once.
\<close>

theorem redis_retry_exactly_once:
  assumes "redis_client eval db_of" and "inj_on (\<lambda>e. RedisCommitMarkerKey (ce_Key e) (ce_CommitID e)) (set es)"
    and "\<And>e. e \<in> set es \<Longrightarrow> exact_vector (ce_Vector e)"
    and "\<And>e. e \<in> set es \<Longrightarrow> RedisCommitMarkerKey (ce_Key e) (ce_CommitID e) \<notin> set (markers (db_of r0))"
    and "\<And>k. \<bar>sint (redis_scalar (db_of r0) (RedisCounterKey k))\<bar> + 2 * (\<Sum>e \<in> set es. \<bar>sint (ce_Vector e)\<bar>) < 2 ^ 63"
    and "(\<lambda>r r'. \<exists>err. redis_CommitBatch eval ttl es r = (err, r'))\<^sup>*\<^sup>* r0 r1"
    and "redis_CommitBatch eval ttl es r1 = (None, r2)"
  shows "sint (redis_scalar (db_of r2) (RedisCounterKey k)) =
    sint (redis_scalar (db_of r0) (RedisCounterKey k)) - (\<Sum>e \<in> {e \<in> set es. ce_Key e = k}. sint (ce_Vector e))"
  by (rule redis_client.retry_exactly_once [OF assms])

definition example_entry :: "string \<Rightarrow> string \<Rightarrow> i64 \<Rightarrow> CommitEntry" where
  "example_entry key cid v = \<lparr>ce_Key = key, ce_Vector = v, ce_CommitID = cid, ce_FencingToken = None\<rparr>"

definition empty_redis :: redis_db where
  "empty_redis = \<lparr>scalars_of = [], markers = []\<rparr>"

theorem redis_retry_exactly_once_witness:
  "let es = [example_entry ''a'' ''1'' 5, example_entry ''b'' ''2'' 7]; eval = lua_evaler (\<lambda>n. n = 1)
   in sint (redis_scalar (snd (snd (redis_CommitBatch eval 0 es (snd (redis_CommitBatch eval 0 es (0, empty_redis))))))
        (RedisCounterKey ''a'')) = - 5"
proof -
  let ?es = "[example_entry ''a'' ''1'' 5, example_entry ''b'' ''2'' 7]" and ?eval = "lua_evaler (\<lambda>n. n = 1)"
  let ?r1 = "snd (redis_CommitBatch ?eval 0 ?es (0, empty_redis))"
  have run: "(\<lambda>r r'. \<exists>err. redis_CommitBatch ?eval 0 ?es r = (err, r'))\<^sup>*\<^sup>* (0, empty_redis) ?r1"
    by (rule r_into_rtranclp) (metis prod.collapse)
  have "fst (redis_CommitBatch ?eval 0 ?es ?r1) = None" by code_simp
  then have ok: "redis_CommitBatch ?eval 0 ?es ?r1 = (None, snd (redis_CommitBatch ?eval 0 ?es ?r1))" by (metis prod.collapse)
  have inj: "inj_on (\<lambda>e. RedisCommitMarkerKey (ce_Key e) (ce_CommitID e)) (set ?es)" by code_simp
  have zero: "redis_scalar (snd (0 :: nat, empty_redis)) c = 0" for c by (simp add: redis_scalar_def empty_redis_def)
  have ev: "exact_vector (ce_Vector e)" if "e \<in> set ?es" for e
    using that by (auto simp: example_entry_def exact_vector_def)
  have fit: "\<bar>sint (redis_scalar (snd (0 :: nat, empty_redis)) (RedisCounterKey k))\<bar> + 2 * (\<Sum>e \<in> set ?es. \<bar>sint (ce_Vector e)\<bar>) < 2 ^ 63" for k
    unfolding zero by code_simp
  have "{e \<in> set ?es. ce_Key e = ''a''} = {example_entry ''a'' ''1'' 5}" by (auto simp: example_entry_def)
  then show ?thesis
    using redis_retry_exactly_once [OF lua.redis_client_axioms inj ev _ fit run ok, of "''a''"] zero
    by (simp add: empty_redis_def example_entry_def)
qed

text \<open>
  The shim defeats that guarantee. It draws new commit identifiers on every call, and the
  Redis adapter applies entries one by one. When a batch fails after its first entry and the caller
  submits the same commits again, the first entry is applied twice: the vectors 5 and 7 leave
  the counters at minus 10 and minus 7.
\<close>

theorem shim_retry_applies_twice:
  "let rnd = (\<lambda>n. [word_of_nat n]); eval = lua_evaler (\<lambda>n. n = 1);
       cb = shim_CommitBatch rnd (redis_CommitBatch eval 0);
       cs = [\<lparr>Key = ''a'', Vector = 5\<rparr>, \<lparr>Key = ''b'', Vector = 7\<rparr>];
       (ok1, s1) = cb cs (0, (0, empty_redis)); (ok2, s2) = cb cs s1
   in \<not> ok1 \<and> ok2 \<and> redis_scalar (snd (snd s2)) (RedisCounterKey ''a'') = - 10
      \<and> redis_scalar (snd (snd s2)) (RedisCounterKey ''b'') = - 7"
  by code_simp

text \<open>
  C36. The Postgres adapter never updates a scalar. Whatever the entries, tokens and failures, after
  a call every counter that existed has the scalar it had, and the only counters created have scalar
  zero: each entry inserts its marker first, and the guarded update of the same transaction then
  finds the marker. A failed call changes nothing at all.
\<close>

theorem postgres_never_updates:
  assumes "pg_CommitBatch begin_fails commit_fails exec createMissingKeys es db = (err, db')"
  shows "(err \<noteq> None \<longrightarrow> db' = db)
    \<and> map_option pg_scalar (map_of (pg_counters db') k) =
        (case map_of (pg_counters db) k of Some row \<Rightarrow> Some (pg_scalar row)
         | None \<Rightarrow> if err = None \<and> createMissingKeys \<and> k \<in> ce_Key ` set es then Some 0 else None)"
proof (cases "db' = db \<and> (err \<noteq> None \<or> es = [])")
  case True
  then show ?thesis by (auto split: option.split)
next
  case False
  then obtain n db1 n' where tx: "(if createMissingKeys then pg_create exec es (0, db) else Some (0, db)) = Some (n, db1)"
    "pg_entries exec es (n, db1) = Inr (n', db')" and err: "err = None"
    using assms by (auto simp: pg_CommitBatch_def split: if_splits option.splits sum.splits)
  have "pg_counters db' = pg_counters db1" by (rule pg_entries_counters [OF tx(2)])
  then show ?thesis
    using err tx(1) pg_create_scalars [of exec es 0 db n db1 k] by (cases createMissingKeys) (auto split: option.split)
qed

theorem postgres_never_updates_witness:
  "let db = \<lparr>pg_counters = [(''a'', \<lparr>pg_scalar = 100, last_token = None\<rparr>)], applied_commits = []\<rparr>
   in map_option pg_scalar (map_of (pg_counters (snd (pg_CommitBatch False False (\<lambda>_. False) True
        [example_entry ''a'' ''1'' 5] db))) ''a'') = Some 100"
proof -
  let ?db = "\<lparr>pg_counters = [(''a'', \<lparr>pg_scalar = 100, last_token = None\<rparr>)], applied_commits = []\<rparr>"
  obtain err db' where b: "pg_CommitBatch False False (\<lambda>_. False) True [example_entry ''a'' ''1'' 5] ?db = (err, db')" by fastforce
  from postgres_never_updates [OF b, of "''a''"] b show ?thesis by simp
qed

end
