(* ===== verification/Ratelimiter_Main.thy ===== *)
theory Ratelimiter_Main
  imports Server Exporter Reports Persistence
begin

text \<open>
  The command cmd/ratelimiter-api/main.go: its flags, how it builds the components from them, and the
  life of the process from the first request to the end of the shutdown. Requests and steps of the
  worker's goroutines interleave in any order; the persister is a parameter, with \<open>connect\<close> its state
  after the factory has built it.
\<close>

section \<open>Flags\<close>

record api_flags =
  rate_limit :: i64
  commit_threshold :: i64
  commit_low_watermark :: i64
  commit_interval :: i64
  commit_max_age :: i64
  eviction_age :: i64
  eviction_interval :: i64
  http_addr :: string
  persistence_adapter :: string
  kafka_topic :: string
  redis_marker_ttl :: i64
  redis_addr :: string
  vsa_stripes :: i64
  vsa_cheap_update_chooser :: bool
  vsa_per_p_update_chooser :: bool
  vsa_use_cached_gate :: bool
  vsa_cache_interval :: i64
  vsa_cache_slack :: i64
  vsa_group_count :: i64
  vsa_group_slack :: i64
  vsa_fast_path_guard :: i64
  vsa_hierarchical_groups :: i64
  churn_metrics :: bool
  metrics_addr :: string
  churn_sample :: rat
  churn_log_interval :: i64
  churn_top_n :: i64
  churn_key_hash_len :: i64

definition default_flags :: api_flags where
  "default_flags =
     \<lparr>rate_limit = 1000, commit_threshold = 50, commit_low_watermark = 0, commit_interval = 100000000, commit_max_age = 0,
      eviction_age = 3600000000000, eviction_interval = 600000000000, http_addr = '':8080'', persistence_adapter = ''mock'',
      kafka_topic = ''vsa-commits'', redis_marker_ttl = 86400000000000, redis_addr = '''', vsa_stripes = 0,
      vsa_cheap_update_chooser = False, vsa_per_p_update_chooser = False, vsa_use_cached_gate = False,
      vsa_cache_interval = 100000, vsa_cache_slack = 0, vsa_group_count = 0, vsa_group_slack = 0, vsa_fast_path_guard = 0,
      vsa_hierarchical_groups = 0, churn_metrics = False, metrics_addr = '''', churn_sample = 1,
      churn_log_interval = 15000000000, churn_top_n = 50, churn_key_hash_len = 8\<rparr>"

definition capture_thresholds :: "api_flags \<Rightarrow> metrics \<Rightarrow> metrics" where
  "capture_thresholds f m =
     (let m = SetThresholdInt64 ''rate_limit'' (rate_limit f) m;
          m = SetThresholdInt64 ''commit_threshold'' (commit_threshold f) m;
          m = SetThresholdInt64 ''commit_low_watermark'' (commit_low_watermark f) m;
          m = SetThresholdDuration ''commit_interval'' (commit_interval f) m;
          m = SetThresholdDuration ''commit_max_age'' (commit_max_age f) m;
          m = SetThresholdDuration ''eviction_age'' (eviction_age f) m;
          m = SetThresholdDuration ''eviction_interval'' (eviction_interval f) m;
          m = SetThreshold ''http_addr'' (http_addr f) m;
          m = SetThresholdBool ''churn_metrics'' (churn_metrics f) m;
          m = SetThreshold ''metrics_addr'' (metrics_addr f) m;
          m = SetThresholdFloat64 ''churn_sample'' (churn_sample f) m;
          m = SetThresholdDuration ''churn_log_interval'' (churn_log_interval f) m;
          m = SetThresholdInt64 ''churn_top_n'' (churn_top_n f) m
      in SetThresholdInt64 ''churn_key_hash_len'' (churn_key_hash_len f) m)"

definition churn_config :: "api_flags \<Rightarrow> Config" where
  "churn_config f =
     \<lparr>Enabled = churn_metrics f, SampleRate = churn_sample f, MetricsAddr = metrics_addr f, LogInterval = churn_log_interval f,
      Window = 0, TopN = churn_top_n f, KeyHashLen = churn_key_hash_len f\<rparr>"

definition demo_options :: "api_flags \<Rightarrow> DemoOptions" where
  "demo_options f = \<lparr>RedisMarkerTTL = redis_marker_ttl f, RedisAddr = redis_addr f, KafkaTopic = kafka_topic f\<rparr>"

definition flag_options :: "api_flags \<Rightarrow> options" where
  "flag_options f =
     \<lparr>Stripes = vsa_stripes f, CheapUpdateChooser = vsa_cheap_update_chooser f, PerPUpdateChooser = vsa_per_p_update_chooser f,
      UseCachedGate = vsa_use_cached_gate f, CacheInterval = vsa_cache_interval f, CacheSlack = vsa_cache_slack f,
      GroupCount = vsa_group_count f, GroupSlack = vsa_group_slack f, FastPathGuard = vsa_fast_path_guard f,
      HierarchicalGroups = vsa_hierarchical_groups f\<rparr>"

definition flag_worker :: "api_flags \<Rightarrow> worker" where
  "flag_worker f =
     NewWorker (commit_threshold f) (commit_low_watermark f) (commit_interval f) (commit_max_age f) (eviction_age f) (eviction_interval f)"

section \<open>The process\<close>

datatype phase = Serving | Stopping | Flushed | Down | Aborted

text \<open>\<open>Down\<close> is the end of \<open>main\<close>, \<open>Aborted\<close> the end by \<open>log.Fatalf\<close>.\<close>

definition live :: "phase \<Rightarrow> bool" where
  "live ph \<longleftrightarrow> ph \<noteq> Down \<and> ph \<noteq> Aborted"

text \<open>The counters of the exporter are those of the running system; \<open>pr_exporter\<close> keeps its settings.\<close>

record 'p process =
  pr_run :: "'p running"
  pr_metrics :: metrics
  pr_limit :: i64
  pr_exporter :: exporter
  pr_phase :: phase
  pr_output :: string

definition server_of :: "'p process \<Rightarrow> 'p server" where
  "server_of pr = NewServer (rsys (pr_run pr)) (pr_metrics pr) (pr_limit pr)"

definition served :: "'p server \<Rightarrow> 'p process \<Rightarrow> 'p process" where
  "served s pr = pr\<lparr>pr_run := (pr_run pr)\<lparr>rsys := app s\<rparr>, pr_metrics := appMetrics s\<rparr>"

text \<open>
  \<open>main\<close> up to the start of the HTTP server; \<open>Inl\<close> is \<open>log.Fatalf\<close> on an adapter that cannot be built.
  A ticker panics on an interval that is not positive, which ends the process.
\<close>

datatype start_error = BadAdapter persist_error | BadInterval

definition api_main :: "(string \<Rightarrow> string) \<Rightarrow> string \<Rightarrow> (persister_choice \<Rightarrow> 'p) \<Rightarrow> api_flags \<Rightarrow> metrics \<Rightarrow> start_error + 'p process" where
  "api_main env goos connect f m0 =
     (let m = capture_thresholds f m0; x = Enable env goos (churn_config f) zero_exporter
      in case BuildPersister (persistence_adapter f) (demo_options f) of
           Inl err \<Rightarrow> Inl (BadAdapter err)
         | Inr choice \<Rightarrow>
             if commit_interval f \<le>s 0 \<or> eviction_interval f \<le>s 0 then Inl BadInterval
             else let sys = \<lparr>sstore = NewStoreWithOptions (rate_limit f) (flag_options f), spersister = connect choice, schurn = ex_churn x\<rparr>
                  in Inr \<lparr>pr_run = Start sys, pr_metrics = m, pr_limit = rate_limit f, pr_exporter = x, pr_phase = Serving,
                          pr_output = println ''Starting background worker...''
                            @ println (''Rate limiter API server listening on '' @ http_addr f)\<rparr>)"

text \<open>
  The steps, labelled by what they do: the key of a request and whether it was admitted or refunded.
  The process aborts when the listener fails or when the server does not shut down in time.
  \<open>report\<close> is the \<open>PrintFinalMetrics\<close> of the persister.
\<close>

datatype main_label = CheckL string bool | ReleaseL string bool | WorkL | FinalFlushL | SignalL | ReportL | ShutdownL | AbortL

inductive main_step :: "'p commit_batch \<Rightarrow> worker \<Rightarrow> i64 \<Rightarrow> (metrics \<Rightarrow> 'p \<Rightarrow> string) \<Rightarrow> main_label \<Rightarrow> 'p process \<Rightarrow> 'p process \<Rightarrow> bool"
  for cb :: "'p commit_batch" and w :: worker and gomaxprocs :: i64 and report :: "metrics \<Rightarrow> 'p \<Rightarrow> string" where
  check: "live (pr_phase pr) \<Longrightarrow> handleCheckRateLimit gomaxprocs clk r (server_of pr) = Some (rs, s) \<Longrightarrow>
    main_step cb w gomaxprocs report (CheckL (api_key r) (status rs = 200)) pr (served s pr)"
| release: "live (pr_phase pr) \<Longrightarrow> handleRelease gomaxprocs clk r (server_of pr) = Some (rs, s) \<Longrightarrow>
    main_step cb w gomaxprocs report (ReleaseL (api_key r) (refunds (appMetrics s) \<noteq> refunds (pr_metrics pr))) pr (served s pr)"
| commit_cycle: "live (pr_phase pr) \<Longrightarrow> commitLoopOn (pr_run pr) \<Longrightarrow>
    main_step cb w gomaxprocs report WorkL pr (pr\<lparr>pr_run := (pr_run pr)\<lparr>rsys := runCommitCycle cb w clk (rsys (pr_run pr))\<rparr>\<rparr>)"
| eviction_cycle: "live (pr_phase pr) \<Longrightarrow> evictionLoopOn (pr_run pr) \<Longrightarrow>
    main_step cb w gomaxprocs report WorkL pr (pr\<lparr>pr_run := (pr_run pr)\<lparr>rsys := runEvictionCycle cb w clk (rsys (pr_run pr))\<rparr>\<rparr>)"
| final_flush: "live (pr_phase pr) \<Longrightarrow> commitLoopOn (pr_run pr) \<Longrightarrow> stopped (pr_run pr) \<Longrightarrow>
    main_step cb w gomaxprocs report FinalFlushL pr
      (pr\<lparr>pr_run := (pr_run pr)\<lparr>rsys := runFinalFlush cb clk (rsys (pr_run pr)), commitLoopOn := False\<rparr>\<rparr>)"
| eviction_end: "live (pr_phase pr) \<Longrightarrow> evictionLoopOn (pr_run pr) \<Longrightarrow> stopped (pr_run pr) \<Longrightarrow>
    main_step cb w gomaxprocs report WorkL pr (pr\<lparr>pr_run := (pr_run pr)\<lparr>evictionLoopOn := False\<rparr>\<rparr>)"
| signal: "pr_phase pr = Serving \<Longrightarrow>
    main_step cb w gomaxprocs report SignalL pr
      (pr\<lparr>pr_phase := Stopping, pr_run := Stop (pr_run pr),
          pr_output := pr_output pr @ println ([CHR 0x0A] @ ''Shutting down server...'') @ println ''Stopping background worker...''\<rparr>)"
| report: "pr_phase pr = Stopping \<Longrightarrow> \<not> commitLoopOn (pr_run pr) \<Longrightarrow> \<not> evictionLoopOn (pr_run pr) \<Longrightarrow>
    main_step cb w gomaxprocs report ReportL pr
      (pr\<lparr>pr_phase := Flushed, pr_output := pr_output pr @ report (pr_metrics pr) (spersister (rsys (pr_run pr))),
          pr_run := (pr_run pr)\<lparr>rsys := (rsys (pr_run pr))\<lparr>sstore := CloseAll (sstore (rsys (pr_run pr)))\<rparr>\<rparr>\<rparr>)"
| shutdown: "pr_phase pr = Flushed \<Longrightarrow>
    main_step cb w gomaxprocs report ShutdownL pr
      (pr\<lparr>pr_phase := Down, pr_output := pr_output pr @ println ''Server gracefully stopped.''\<rparr>)"
| shutdown_failed: "pr_phase pr = Flushed \<Longrightarrow> main_step cb w gomaxprocs report AbortL pr (pr\<lparr>pr_phase := Aborted\<rparr>)"
| listen_failed: "live (pr_phase pr) \<Longrightarrow> main_step cb w gomaxprocs report AbortL pr (pr\<lparr>pr_phase := Aborted\<rparr>)"

inductive main_run :: "'p commit_batch \<Rightarrow> worker \<Rightarrow> i64 \<Rightarrow> (metrics \<Rightarrow> 'p \<Rightarrow> string) \<Rightarrow> 'p process \<Rightarrow> main_label list \<Rightarrow> 'p process \<Rightarrow> bool"
  for cb :: "'p commit_batch" and w :: worker and gomaxprocs :: i64 and report :: "metrics \<Rightarrow> 'p \<Rightarrow> string" and pr0 :: "'p process" where
  main_start: "main_run cb w gomaxprocs report pr0 [] pr0"
| main_more: "main_run cb w gomaxprocs report pr0 ls pr \<Longrightarrow> main_step cb w gomaxprocs report l pr pr' \<Longrightarrow>
    main_run cb w gomaxprocs report pr0 (ls @ [l]) pr'"

inductive_cases main_stepE: "main_step cb w gomaxprocs report l pr pr'"

end
