(* ===== verification/Main_Props.thy ===== *)
theory Main_Props
  imports Ratelimiter_Main
begin

text \<open>
  The life of the rate limiter process, per key: what the persister has counted and what is still in
  memory add up to the admitted minus the refunded requests, and what a shutdown leaves behind.
\<close>

section \<open>Requests\<close>

abbreviation run_store :: "'p process \<Rightarrow> store" where
  "run_store pr \<equiv> sstore (rsys (pr_run pr))"

abbreviation run_persister :: "'p process \<Rightarrow> 'p" where
  "run_persister pr \<equiv> spersister (rsys (pr_run pr))"

lemma net_updated:
  assumes "\<And>k. lookup st' k = (if k = key then Some v else lookup st k)"
  shows "net st' k = (if k = key then currentVector v else net st k)"
  using assms by (simp add: net_def)

lemma instance_net:
  assumes "wf_store st"
  shows "currentVector (instance_of p key st) = net st key" and "wf_vsa (instance_of p key st)"
  using lookup_wf [OF assms, of key]
  by (auto simp: instance_of_def net_def New_currentVector wf_New split: option.splits)

lemma check_net:
  assumes "wf_store (server_store s)" and "handleCheckRateLimit p clk r s = Some (rs, s')"
  shows "wf_store (server_store s')" and "spersister (app s') = spersister (app s)"
    and "net (server_store s') k = net (server_store s) k + (if k = api_key r \<and> status rs = 200 then 1 else 0)"
proof -
  show "spersister (app s') = spersister (app s)"
    using assms(2) by (auto simp: handleCheckRateLimit_def http_Error_def Let_def split: if_splits option.splits prod.splits bool.splits)
  show "wf_store (server_store s')" "net (server_store s') k = net (server_store s) k + (if k = api_key r \<and> status rs = 200 then 1 else 0)"
  proof (atomize (full), cases "api_key r = ''''")
    case True
    then show "wf_store (server_store s') \<and> net (server_store s') k = net (server_store s) k + (if k = api_key r \<and> status rs = 200 then 1 else 0)"
      using assms by (auto simp: handleCheckRateLimit_def http_Error_def)
  next
    case False
    let ?v = "instance_of p (api_key r) (server_store s)"
    have "TryConsume 1 ?v \<noteq> None"
    proof -
      obtain a st where g: "GetOrCreate p (clk 0) (api_key r) (server_store s) = (a, st)" by fastforce
      from request_instance(1) [OF assms(1) g] assms(2) g False show ?thesis by (auto simp: handleCheckRateLimit_def Let_def split: option.splits)
    qed
    then obtain b v where tc: "TryConsume 1 ?v = Some (b, v)" by fastforce
    from check_keyed [OF assms(1) False tc, of clk] obtain s1 where
      s1: "handleCheckRateLimit p clk r s =
        Some (if b then okResponse (rateLimit s) (Available v) else deniedResponse (rateLimit s) (Available v), s1)"
      "wf_store (server_store s1)" "\<And>k. lookup (server_store s1) k = (if k = api_key r then Some v else lookup (server_store s) k)"
      by metis
    have "currentVector v = net (server_store s) (api_key r) + (if b then 1 else 0)"
      using TryConsume_outcome [OF instance_net(2) [OF assms(1)] tc] instance_net(1) [OF assms(1), of p "api_key r"] by (simp add: shifted_def)
    moreover have "s' = s1" "status rs = 200 \<longleftrightarrow> b" using s1(1) assms(2) by (auto simp: okResponse_def deniedResponse_def split: if_splits)
    ultimately show "wf_store (server_store s') \<and> net (server_store s') k = net (server_store s) k + (if k = api_key r \<and> status rs = 200 then 1 else 0)"
      using s1(2) net_updated [OF s1(3), of k] by auto
  qed
qed

lemma refund_outcome:
  assumes "wf_vsa v" and "TryRefund 1 v = Some (b, v')"
  shows "currentVector v' = currentVector v - (if b then 1 else 0)"
proof (cases "sint (currentVector v) \<le> 0")
  case True
  then show ?thesis using TryRefund_noop [of 1 v] assms(2) by simp
next
  case False
  then have "\<not> currentVector v <s 1" by (simp add: slt_iff)
  then show ?thesis using TryRefund_outcome [OF assms] by (auto simp: shifted_def)
qed

lemma release_net:
  assumes "wf_store (server_store s)" and "handleRelease p clk r s = Some (rs, s')"
  shows "wf_store (server_store s')" and "spersister (app s') = spersister (app s)"
    and "net (server_store s') k = net (server_store s) k
      - (if k = api_key r \<and> refunds (appMetrics s') \<noteq> refunds (appMetrics s) then 1 else 0)"
proof -
  show "spersister (app s') = spersister (app s)"
    using assms(2) by (auto simp: handleRelease_def Let_def split: if_splits option.splits prod.splits)
  have "wf_store (server_store s') \<and> net (server_store s') k = net (server_store s) k
      - (if k = api_key r \<and> refunds (appMetrics s') \<noteq> refunds (appMetrics s) then 1 else 0)"
  proof (cases "api_key r = ''''")
    case True
    then show ?thesis using assms by (auto simp: handleRelease_def)
  next
    case False
    let ?v = "instance_of p (api_key r) (server_store s)"
    obtain a st where g: "GetOrCreate p (clk 0) (api_key r) (server_store s) = (a, st)" by fastforce
    from request_instance(1) [OF assms(1) g] assms(2) g False obtain b v where tr: "TryRefund 1 ?v = Some (b, v)"
      by (auto simp: handleRelease_def Let_def split: option.splits)
    from release_keyed [OF assms(1) False tr, of clk] obtain s1 where
      s1: "handleRelease p clk r s = Some (\<lparr>status = 204, headers = [], body = ''''\<rparr>, s1)" "wf_store (server_store s1)"
        "\<And>k. lookup (server_store s1) k = (if k = api_key r then Some v else lookup (server_store s) k)"
        "appMetrics s1 = (if b then RecordRefund 1 (appMetrics s) else appMetrics s)" by metis
    have "s' = s1" using s1(1) assms(2) by simp
    moreover have "refunds (appMetrics s1) \<noteq> refunds (appMetrics s) \<longleftrightarrow> b" using s1(4) by (simp add: RecordRefund_def slt_iff)
    moreover have "currentVector v = net (server_store s) (api_key r) - (if b then 1 else 0)"
      using refund_outcome [OF instance_net(2) [OF assms(1)] tr] instance_net(1) [OF assms(1), of p "api_key r"] by simp
    ultimately show ?thesis using s1(2) net_updated [OF s1(3), of k] by auto
  qed
  then show "wf_store (server_store s')" "net (server_store s') k = net (server_store s) k
      - (if k = api_key r \<and> refunds (appMetrics s') \<noteq> refunds (appMetrics s) then 1 else 0)" by blast+
qed

section \<open>The ledger of a key\<close>

definition key_weight :: "commit \<Rightarrow> string \<Rightarrow> i64" where
  "key_weight c k = (if Key c = k then Vector c else 0)"

lemma outstanding_net:
  assumes "wf_store st"
  shows "outstanding key_weight st k = net st k"
proof -
  have "(\<Sum>x\<leftarrow>xs. key_weight \<lparr>Key = x, Vector = net st x\<rparr> k) = (if k \<in> set xs then net st k else 0)" if "distinct xs" for xs
    using that by (induction xs) (auto simp: key_weight_def)
  then have "outstanding key_weight st k = (if k \<in> set (store_keys st) then net st k else 0)"
    unfolding outstanding_def using assms by (simp only: wf_store_def)
  then show ?thesis using net_absent [of k st] by auto
qed

definition booked :: "('p \<Rightarrow> string \<Rightarrow> i64) \<Rightarrow> 'p system \<Rightarrow> string \<Rightarrow> i64" where
  "booked ledger s k = ledger (spersister s) k + net (sstore s) k"

lemma cycles_booked:
  assumes "ledger_persister cb key_weight ledger" and "wf_store (sstore s)"
  shows "booked ledger (runCommitCycle cb w clk s) k = booked ledger s k" and "wf_store (sstore (runCommitCycle cb w clk s))"
    and "booked ledger (runFinalFlush cb clk s) k = booked ledger s k" and "wf_store (sstore (runFinalFlush cb clk s))"
    and "booked ledger (runEvictionCycle cb w clk s) k = booked ledger s k" and "wf_store (sstore (runEvictionCycle cb w clk s))"
proof -
  let ?r = "Start s"
  let ?r' = "Stop ?r"
  have wf: "wf_store (sstore (rsys ?r))" "wf_store (sstore (rsys ?r'))" using assms(2) by (simp_all add: Start_def Stop_def)
  have st: "worker_step cb w ?r (?r\<lparr>rsys := runCommitCycle cb w clk (rsys ?r)\<rparr>)"
    "worker_step cb w ?r (?r\<lparr>rsys := runEvictionCycle cb w clk (rsys ?r)\<rparr>)"
    "worker_step cb w ?r' (?r'\<lparr>rsys := runFinalFlush cb clk (rsys ?r'), commitLoopOn := False\<rparr>)"
    by (rule worker_step.commit_tick worker_step.eviction_tick worker_step.commit_stop; simp add: Start_def Stop_def)+
  note w = worker_step_wf [OF st(1) wf(1)] worker_step_wf [OF st(2) wf(1)] worker_step_wf [OF st(3) wf(2)]
  then show wf': "wf_store (sstore (runCommitCycle cb w clk s))" "wf_store (sstore (runFinalFlush cb clk s))"
    "wf_store (sstore (runEvictionCycle cb w clk s))" by (simp_all add: Start_def Stop_def)
  note tot = ledger_persister.total_usage_def [OF assms(1)] and step = ledger_persister.worker_step_conserves [OF assms(1)]
  show "booked ledger (runCommitCycle cb w clk s) k = booked ledger s k" "booked ledger (runFinalFlush cb clk s) k = booked ledger s k"
    "booked ledger (runEvictionCycle cb w clk s) k = booked ledger s k"
    using step [OF st(1) wf(1), of k] step [OF st(2) wf(1), of k] step [OF st(3) wf(2), of k] wf' assms(2)
    by (simp_all add: booked_def tot outstanding_net Start_def Stop_def)
qed

lemma closeInstances_vectors:
  "length (closeInstances cs mem) = length mem"
  "i < length mem \<Longrightarrow> currentVector (closeInstances cs mem ! i) = currentVector (mem ! i)"
  "\<forall>v \<in> set mem. wf_vsa v \<Longrightarrow> \<forall>v \<in> set (closeInstances cs mem). wf_vsa v"
proof (induction cs mem rule: closeInstances.induct)
  case (2 key managed rest mem)
  let ?mem = "mem[inst managed := Close (mem ! inst managed)]"
  {
    case 1
    then show ?case using 2(1) by simp
  next
    case 2
    have "currentVector (?mem ! i) = currentVector (mem ! i)" using 2 by (cases "i = inst managed") simp_all
    with 2 "2.IH"(2) show ?case by simp
  next
    case 3
    have "\<forall>v \<in> set ?mem. wf_vsa v"
    proof (cases "inst managed < length mem")
      case True
      then have "wf_vsa (Close (mem ! inst managed))" using 3 by (simp add: close_wf)
      then show ?thesis using 3 set_update_subset_insert [of mem "inst managed" "Close (mem ! inst managed)"] by auto
    qed (use 3 in \<open>simp add: list_update_beyond\<close>)
    with "2.IH"(3) show ?case by simp
  }
qed simp_all

lemma CloseAll_net:
  assumes "wf_store st"
  shows "wf_store (CloseAll st)" and "net (CloseAll st) k = net st k"
proof -
  show "wf_store (CloseAll st)"
    using assms closeInstances_vectors(1,3) [where cs = "counters st" and mem = "vsas st"] by (simp add: wf_store_def CloseAll_def)
  show "net (CloseAll st) k = net st k"
    using wf_store_entry [OF assms] closeInstances_vectors(2) [where cs = "counters st" and mem = "vsas st"]
    by (auto simp: net_def lookup_def CloseAll_def split: option.splits dest: map_of_SomeD)
qed

section \<open>The accounts of a process\<close>

fun label_units :: "string \<Rightarrow> main_label \<Rightarrow> i64" where
  "label_units k (CheckL key b) = (if key = k \<and> b then 1 else 0)"
| "label_units k (ReleaseL key b) = (if key = k \<and> b then - 1 else 0)"
| "label_units k l = 0"

fun is_request :: "main_label \<Rightarrow> bool" where
  "is_request (CheckL key b) = True"
| "is_request (ReleaseL key b) = True"
| "is_request l = False"

text \<open>Requests that were served after the final flush.\<close>

fun after_flush :: "main_label list \<Rightarrow> main_label list" where
  "after_flush [] = []"
| "after_flush (l # ls) = (if l = FinalFlushL then ls else after_flush ls)"

definition late_requests :: "main_label list \<Rightarrow> bool" where
  "late_requests ls \<longleftrightarrow> (\<exists>l \<in> set (after_flush ls). is_request l)"

lemma server_of_fields [simp]:
  "app (server_of pr) = rsys (pr_run pr)" "appMetrics (server_of pr) = pr_metrics pr" "rateLimit (server_of pr) = pr_limit pr"
  by (simp_all add: server_of_def NewServer_def)

lemma served_fields [simp]:
  "rsys (pr_run (served s pr)) = app s" "commitLoopOn (pr_run (served s pr)) = commitLoopOn (pr_run pr)"
  "evictionLoopOn (pr_run (served s pr)) = evictionLoopOn (pr_run pr)"
  "stopped (pr_run (served s pr)) = stopped (pr_run pr)" "pr_phase (served s pr) = pr_phase pr"
  by (simp_all add: served_def)

lemma Stop_fields [simp]: "rsys (Stop r) = rsys r" "commitLoopOn (Stop r) = commitLoopOn r" "evictionLoopOn (Stop r) = evictionLoopOn r"
  by (simp_all add: Stop_def)

lemma main_step_booked:
  assumes "main_step cb w p report l pr pr'" and "ledger_persister cb key_weight ledger" and "wf_store (run_store pr)"
  shows "wf_store (run_store pr') \<and> booked ledger (rsys (pr_run pr')) k = booked ledger (rsys (pr_run pr)) k + label_units k l"
  using assms(1)
proof cases
  case (check clk r rs s)
  from check_net(1,2) [OF _ check(4)] check_net(3) [OF _ check(4), of k] assms(3) check(1,2) show ?thesis by (auto simp: booked_def)
next
  case (release clk r rs s)
  from release_net(1,2) [OF _ release(4)] release_net(3) [OF _ release(4), of k] assms(3) release(1,2) show ?thesis by (auto simp: booked_def)
qed (use cycles_booked [OF assms(2,3)] CloseAll_net [OF assms(3)] assms(3) in \<open>simp_all add: booked_def\<close>)

lemma main_run_booked:
  assumes "main_run cb w p report pr0 ls pr" and "ledger_persister cb key_weight ledger" and "wf_store (run_store pr0)"
  shows "wf_store (run_store pr) \<and> booked ledger (rsys (pr_run pr)) k = booked ledger (rsys (pr_run pr0)) k + (\<Sum>l\<leftarrow>ls. label_units k l)"
  using assms(1)
proof (induction rule: main_run.induct)
  case (main_more ls pr l pr')
  with main_step_booked [OF main_more(2) assms(2), of k] show ?case by simp
qed (use assms(3) in simp)

lemma late_snoc:
  "late_requests (ls @ [l]) \<longleftrightarrow> late_requests ls \<or> (FinalFlushL \<in> set ls \<and> is_request l)"
proof -
  have "after_flush (ls @ [l]) = after_flush ls @ (if FinalFlushL \<in> set ls then [l] else [])" by (induction ls) auto
  then show ?thesis by (auto simp: late_requests_def)
qed

lemma main_step_flushed:
  assumes "main_step cb w p report l pr pr'" and "\<And>cs q. fst (cb cs q)" and "wf_store (run_store pr)"
    and "commitLoopOn (pr_run pr) \<longleftrightarrow> FinalFlushL \<notin> set ls"
    and "\<not> commitLoopOn (pr_run pr) \<and> \<not> late_requests ls \<longrightarrow> (\<forall>k. net (run_store pr) k = 0)"
    and "pr_phase pr \<in> {Flushed, Down} \<longrightarrow> \<not> commitLoopOn (pr_run pr)"
  shows "(commitLoopOn (pr_run pr') \<longleftrightarrow> FinalFlushL \<notin> set (ls @ [l]))
    \<and> (\<not> commitLoopOn (pr_run pr') \<and> \<not> late_requests (ls @ [l]) \<longrightarrow> (\<forall>k. net (run_store pr') k = 0))
    \<and> (pr_phase pr' \<in> {Flushed, Down} \<longrightarrow> \<not> commitLoopOn (pr_run pr'))"
  using assms(1)
proof cases
  case (eviction_cycle clk)
  then show ?thesis
    using assms(4-6) evictKeys_zero [OF assms(3)] by (auto simp: late_snoc runEvictionCycle_eq)
next
  case (final_flush clk)
  have "net (sstore (runFinalFlush cb clk (rsys (pr_run pr)))) k = 0" for k
    using flush_net [OF assms(3)] assms(2) by (simp add: accepted_def)
  then show ?thesis using final_flush by auto
qed (use assms(4-6) CloseAll_net [OF assms(3)] in \<open>auto simp: late_snoc\<close>)

lemma main_run_flushed:
  assumes "main_run cb w p report pr0 ls pr" and "ledger_persister cb key_weight ledger" and "\<And>cs q. fst (cb cs q)"
    and "wf_store (run_store pr0)" and "commitLoopOn (pr_run pr0)" and "pr_phase pr0 = Serving"
  shows "(commitLoopOn (pr_run pr) \<longleftrightarrow> FinalFlushL \<notin> set ls)
    \<and> (\<not> commitLoopOn (pr_run pr) \<and> \<not> late_requests ls \<longrightarrow> (\<forall>k. net (run_store pr) k = 0))
    \<and> (pr_phase pr \<in> {Flushed, Down} \<longrightarrow> \<not> commitLoopOn (pr_run pr))"
  using assms(1)
proof (induction rule: main_run.induct)
  case (main_more ls pr l pr')
  have "wf_store (run_store pr)" using main_run_booked [OF main_more(1) assms(2,4)] by blast
  from main_step_flushed [OF main_more(2) assms(3) this, of ls] main_more.IH show ?case by blast
qed (use assms(5,6) in simp)

section \<open>Properties\<close>


text \<open>A persister that keeps what it is given, and the flags of the examples: a budget of one.\<close>

definition list_CommitBatch :: "commit list commit_batch" where
  "list_CommitBatch cs p = (True, p @ cs)"

definition list_ledger :: "commit list \<Rightarrow> string \<Rightarrow> i64" where
  "list_ledger p k = (\<Sum>c\<leftarrow>p. key_weight c k)"

interpretation list_persister: ledger_persister list_CommitBatch key_weight list_ledger
  by unfold_locales (auto simp: list_CommitBatch_def list_ledger_def key_weight_def)

definition api_example_flags :: api_flags where
  "api_example_flags = default_flags\<lparr>rate_limit := 1, vsa_stripes := 8\<rparr>"

definition zero_metrics :: metrics where
  "zero_metrics = \<lparr>attempted = 0, admits = 0, refunds = 0, thresholds = []\<rparr>"

definition example_main :: "start_error + commit list process" where
  "example_main = api_main (\<lambda>_. '''') ''linux'' (\<lambda>_. []) api_example_flags zero_metrics"

lemma example_start:
  "\<exists>pr0. example_main = Inr pr0 \<and> run_store pr0 = NewStoreWithOptions 1 (flag_options api_example_flags) \<and> run_persister pr0 = []
     \<and> commitLoopOn (pr_run pr0) \<and> evictionLoopOn (pr_run pr0) \<and> \<not> stopped (pr_run pr0) \<and> pr_phase pr0 = Serving"
proof -
  have "BuildPersister (persistence_adapter api_example_flags) (demo_options api_example_flags) = Inr MockPersister"
    "\<not> commit_interval api_example_flags \<le>s 0" "\<not> eviction_interval api_example_flags \<le>s 0" "rate_limit api_example_flags = 1"
    by code_simp+
  then show ?thesis by (simp add: example_main_def api_main_def Start_def Let_def)
qed

lemma first_check_admitted:
  assumes "run_store pr = NewStoreWithOptions 1 (flag_options api_example_flags)" and "live (pr_phase pr)"
  shows "\<exists>s. main_step cb w 4 report (CheckL ''bob'' True) pr (served s pr)"
proof -
  have st: "instance_of 4 ''bob'' (run_store pr) = NewWithOptions 4 1 (flag_options api_example_flags)"
    by (simp add: assms(1) instance_of_def lookup_def NewStoreWithOptions_def)
  have "map_option fst (TryConsume 1 (NewWithOptions 4 1 (flag_options api_example_flags))) = Some True" by code_simp
  then obtain v where tc: "TryConsume 1 (instance_of 4 ''bob'' (run_store pr)) = Some (True, v)" by (auto simp: st)
  have k: "api_key example_request = ''bob''" by code_simp
  have wf: "wf_store (server_store (server_of pr))" by (simp add: assms(1) wf_store_new)
  from check_keyed [OF wf, of example_request 4 True v "\<lambda>_. 0"] tc k obtain s' where
    s': "handleCheckRateLimit 4 (\<lambda>_. 0) example_request (server_of pr) = Some (okResponse (pr_limit pr) (Available v), s')" by auto
  have "status (okResponse (pr_limit pr) (Available v)) = 200" by (simp add: okResponse_def)
  with main_step.check [OF assms(2) s', of cb w report] k show ?thesis by auto
qed

text \<open>A signal and the final flush are always possible while the process serves; on an empty store the flush does nothing.\<close>

lemma main_flushes:
  assumes "main_run cb w p report pr0 ls pr" and "pr_phase pr = Serving" and "commitLoopOn (pr_run pr)" and "evictionLoopOn (pr_run pr)"
  shows "\<exists>h. main_run cb w p report pr0 (ls @ [SignalL, FinalFlushL]) h \<and> pr_phase h = Stopping \<and> stopped (pr_run h)
    \<and> \<not> commitLoopOn (pr_run h) \<and> evictionLoopOn (pr_run h)
    \<and> (counters (run_store pr) = [] \<longrightarrow> run_store h = run_store pr \<and> run_persister h = run_persister pr)"
proof -
  from main_more [OF assms(1) main_step.signal [OF assms(2)]] obtain q where
    q: "main_run cb w p report pr0 (ls @ [SignalL]) q" "pr_phase q = Stopping" "pr_run q = Stop (pr_run pr)" by auto
  let ?h = "q\<lparr>pr_run := (pr_run q)\<lparr>rsys := runFinalFlush cb (\<lambda>_. 0) (rsys (pr_run q)), commitLoopOn := False\<rparr>\<rparr>"
  have "main_run cb w p report pr0 ((ls @ [SignalL]) @ [FinalFlushL]) ?h"
    by (rule main_more [OF q(1) main_step.final_flush]) (use q(2,3) assms(3) in \<open>simp_all add: Stop_def live_def\<close>)
  moreover have "run_store ?h = run_store pr \<and> run_persister ?h = run_persister pr" if "counters (run_store pr) = []"
    using q(3) that by (simp add: runFinalFlush_def persistBatch_def empty_batch_def)
  ultimately show ?thesis using q(2,3) assms(4) by (intro exI [of _ ?h]) (simp add: Stop_def)
qed

text \<open>After the final flush nothing stops the process: the eviction loop ends, then the report, then the shutdown.\<close>

lemma main_finishes:
  assumes "main_run cb w p report pr0 ls pr" and "pr_phase pr = Stopping" and "stopped (pr_run pr)"
    and "\<not> commitLoopOn (pr_run pr)" and "evictionLoopOn (pr_run pr)"
  shows "\<exists>pr'. main_run cb w p report pr0 (ls @ [WorkL, ReportL, ShutdownL]) pr' \<and> pr_phase pr' = Down
    \<and> run_persister pr' = run_persister pr"
proof -
  let ?e = "pr\<lparr>pr_run := (pr_run pr)\<lparr>evictionLoopOn := False\<rparr>\<rparr>"
  have e: "main_run cb w p report pr0 (ls @ [WorkL]) ?e"
    by (rule main_more [OF assms(1) main_step.eviction_end]) (use assms in \<open>simp_all add: live_def\<close>)
  obtain q where q: "main_run cb w p report pr0 ((ls @ [WorkL]) @ [ReportL]) q" "pr_phase q = Flushed" "run_persister q = run_persister pr"
    using main_more [OF e main_step.report] assms by auto
  from main_more [OF q(1) main_step.shutdown [OF q(2)]] q(3) show ?thesis by auto
qed


section \<open>The order of the shutdown\<close>

text \<open>
  The worker is stopped before the HTTP server is: a request that is served between the final flush and the
  end of \<open>httpServer.Shutdown\<close> is admitted, the process ends, and the persister never hears of it.
\<close>

lemma late_request_lost:
  "\<exists>pr0 pr. example_main = Inr pr0
     \<and> main_run list_CommitBatch (flag_worker api_example_flags) 4 (\<lambda>_ _. '''') pr0
         [SignalL, FinalFlushL, CheckL ''bob'' True, WorkL, ReportL, ShutdownL] pr
     \<and> pr_phase pr = Down \<and> net (run_store pr) ''bob'' = 1 \<and> run_persister pr = []"
proof -
  let ?run = "main_run list_CommitBatch (flag_worker api_example_flags) 4 (\<lambda>_ _. '''')"
  from example_start obtain pr0 where pr0: "example_main = Inr pr0" "run_store pr0 = NewStoreWithOptions 1 (flag_options api_example_flags)"
    "run_persister pr0 = []" "commitLoopOn (pr_run pr0)" "evictionLoopOn (pr_run pr0)" "pr_phase pr0 = Serving" by blast
  have "counters (run_store pr0) = []" by (simp add: pr0(2) NewStoreWithOptions_def)
  with main_flushes [OF main_start pr0(6,4,5), of list_CommitBatch "flag_worker api_example_flags" 4 "\<lambda>_ _. ''''"] obtain h where
    h: "?run pr0 [SignalL, FinalFlushL] h" "pr_phase h = Stopping" "stopped (pr_run h)"
      "\<not> commitLoopOn (pr_run h)" "evictionLoopOn (pr_run h)" "run_store h = run_store pr0" "run_persister h = run_persister pr0" by auto
  from first_check_admitted [of h list_CommitBatch "flag_worker api_example_flags" "\<lambda>_ _. ''''"] h(2,6) pr0(2) live_def obtain s where
    c: "main_step list_CommitBatch (flag_worker api_example_flags) 4 (\<lambda>_ _. '''') (CheckL ''bob'' True) h (served s h)" by auto
  have wf: "wf_store (run_store h)" by (simp add: h(6) pr0(2) wf_store_new)
  have "run_persister (served s h) = []" using c by cases (use check_net(2) [of "server_of h"] wf h(7) pr0(3) in \<open>simp_all add: server_of_def NewServer_def\<close>)
  moreover have "?run pr0 [SignalL, FinalFlushL, CheckL ''bob'' True] (served s h)" using main_more [OF h(1) c] by simp
  ultimately obtain pr where
    pr: "?run pr0 [SignalL, FinalFlushL, CheckL ''bob'' True, WorkL, ReportL, ShutdownL] pr" "pr_phase pr = Down" "run_persister pr = []"
    using main_finishes [of list_CommitBatch "flag_worker api_example_flags" 4 "\<lambda>_ _. ''''" pr0 _ "served s h"] h(2-5) by fastforce
  have "wf_store (run_store pr0)" by (simp add: pr0(2) wf_store_new)
  moreover have "net (run_store pr0) ''bob'' = 0" by (simp add: pr0(2) net_def lookup_def NewStoreWithOptions_def)
  ultimately have "net (run_store pr) ''bob'' = 1"
    using main_run_booked [OF pr(1) list_persister.ledger_persister_axioms, of "''bob''"] pr(3) pr0(3)
    by (simp add: booked_def list_ledger_def)
  with pr0(1) pr show ?thesis by blast
qed

end
