(* ===== verification/Worker_Races.thy ===== *)
theory Worker_Races
  imports Main_Props
begin

text \<open>
  Requests that are served while a commit cycle is between its scan and the persisting of its batch.
  Nothing is held across the two, so the vectors of the batch may be out of date when they are
  persisted and applied.
\<close>

section \<open>Requests keep the instances of keys\<close>

definition keeps_insts :: "store \<Rightarrow> store \<Rightarrow> bool" where
  "keeps_insts st st' \<longleftrightarrow>
     (\<forall>k a. map_option inst (map_of (counters st) k) = Some a \<longrightarrow> map_option inst (map_of (counters st') k) = Some a)
     \<and> length (vsas st) \<le> length (vsas st')"

lemma keeps_insts_refl: "keeps_insts st st"
  by (simp add: keeps_insts_def)

lemma keeps_insts_trans: "keeps_insts st st' \<Longrightarrow> keeps_insts st' st'' \<Longrightarrow> keeps_insts st st''"
  by (auto simp: keeps_insts_def)

lemma keeps_instsD:
  assumes "keeps_insts st st'" and "map_of (counters st) k = Some m"
  obtains m' where "map_of (counters st') k = Some m'" and "inst m' = inst m"
proof -
  have "map_option inst (map_of (counters st') k) = Some (inst m)" using assms by (simp add: keeps_insts_def)
  then show thesis using that by auto
qed

lemma GetOrCreate_insts: "GetOrCreate p now key st = (a, st') \<Longrightarrow> keeps_insts st (write_vsa a v st')"
  by (auto simp: GetOrCreate_def getOrCreate_load_def getOrCreate_alloc_def getOrCreate_publish_def keeps_insts_def
      write_vsa_def split: option.splits if_splits)

lemma check_insts: "handleCheckRateLimit p clk r s = Some (rs, s') \<Longrightarrow> keeps_insts (server_store s) (server_store s')"
  by (auto simp: handleCheckRateLimit_def Let_def keeps_insts_refl
      split: if_splits option.splits prod.splits bool.splits dest: GetOrCreate_insts)

lemma release_insts: "handleRelease p clk r s = Some (rs, s') \<Longrightarrow> keeps_insts (server_store s) (server_store s')"
  by (auto simp: handleRelease_def Let_def keeps_insts_refl
      split: if_splits option.splits prod.splits dest: GetOrCreate_insts)

lemma request_step:
  assumes "main_step cb w p report l pr pr'" and "is_request l" and "wf_store (run_store pr)"
  shows "keeps_insts (run_store pr) (run_store pr') \<and> run_persister pr' = run_persister pr \<and> wf_store (run_store pr')
    \<and> net (run_store pr') k = net (run_store pr) k + label_units k l"
  using assms(1)
proof cases
  case (check clk r rs s)
  from check_insts [OF check(4)] check_net(1,2) [OF _ check(4)] check_net(3) [OF _ check(4), of k] check(1,2) assms(3)
  show ?thesis by auto
next
  case (release clk r rs s)
  from release_insts [OF release(4)] release_net(1,2) [OF _ release(4)] release_net(3) [OF _ release(4), of k] release(1,2) assms(3)
  show ?thesis by auto
qed (use assms(2) in simp_all)

lemma request_run:
  assumes "main_run cb w p report pr ls pr'" and "\<forall>l \<in> set ls. is_request l" and "wf_store (run_store pr)"
  shows "keeps_insts (run_store pr) (run_store pr') \<and> run_persister pr' = run_persister pr \<and> wf_store (run_store pr')
    \<and> net (run_store pr') k = net (run_store pr) k + (\<Sum>l\<leftarrow>ls. label_units k l)"
  using assms(1,2)
proof induction
  case (main_more ls pr1 l pr2)
  with request_step [OF main_more(2), of k] show ?case using keeps_insts_trans by (auto simp: add.assoc)
qed (use assms(3) keeps_insts_refl in simp)

section \<open>A batch that is out of date\<close>

lemma Commit_towards_zero:
  assumes "wf_vsa v" and "0 \<le> sint (currentVector v)" and "0 \<le> sint c"
  shows "currentVector (Commit c v) = currentVector v - (if currentVector v <s c then currentVector v else c)"
proof (cases "c = 0 \<or> currentVector v = 0")
  case True
  then show ?thesis using assms by (auto simp: Commit_def Let_def slt_iff)
next
  case False
  then have "0 < sint (currentVector v)" "sint c \<noteq> - (2 ^ 63)" using assms by (auto simp: less_le)
  with False assms show ?thesis
    by (simp add: Commit_currentVector commit_delta_def commit_mag_def abs_i64_nonneg slt_iff)
qed

abbreviation batch_keys :: "batch \<Rightarrow> string set" where
  "batch_keys b \<equiv> Key ` set (commits b)"

lemma batch_key_entry:
  assumes "wf_store st"
  shows "k \<in> batch_keys (batch_of sel st) \<longleftrightarrow> (\<exists>m. map_of (counters st) k = Some m \<and> sel k m)"
  using assms by (force simp: batch_of_def Let_def wf_store_def image_iff)

text \<open>The addresses of a batch still belong to the keys of the batch.\<close>

lemma stale_address:
  assumes "wf_store st" and "wf_store st'" and "keeps_insts st st'" and "map_of (counters st') k = Some m'"
  shows "inst m' \<in> set (vsaToCommit (batch_of sel st)) \<longleftrightarrow> k \<in> batch_keys (batch_of sel st)"
    and "k \<in> batch_keys (batch_of sel st) \<Longrightarrow> currentVector (vsas st ! inst m') = net st k"
proof -
  have keep: "inst m = inst m'" if "map_of (counters st) k = Some m" for m
    by (rule keeps_instsD [OF assms(3) that]) (use assms(4) in simp)
  show "currentVector (vsas st ! inst m') = net st k" if "k \<in> batch_keys (batch_of sel st)"
    using that keep by (auto simp: batch_key_entry [OF assms(1)] net_def lookup_def)
  show "inst m' \<in> set (vsaToCommit (batch_of sel st)) \<longleftrightarrow> k \<in> batch_keys (batch_of sel st)"
  proof
    assume "inst m' \<in> set (vsaToCommit (batch_of sel st))"
    then obtain k2 m2 where e: "(k2, m2) \<in> set (counters st)" "sel k2 m2" "inst m2 = inst m'" by (auto simp: batch_of_def Let_def)
    then have m2: "map_of (counters st) k2 = Some m2" using assms(1) by (simp add: wf_store_def)
    obtain m3 where "map_of (counters st') k2 = Some m3" "inst m3 = inst m'"
      by (rule keeps_instsD [OF assms(3) m2]) (use e(3) in simp)
    then have "k2 = k" using same_inst_same_key [OF assms(2) _ assms(4)] by blast
    with m2 e(2) show "k \<in> batch_keys (batch_of sel st)" by (auto simp: batch_key_entry [OF assms(1)])
  next
    assume "k \<in> batch_keys (batch_of sel st)"
    then show "inst m' \<in> set (vsaToCommit (batch_of sel st))"
      using keep selected_entry [OF assms(1), of k _ sel] by (metis batch_key_entry [OF assms(1)])
  qed
qed

lemma stale_applied_net:
  assumes "wf_store st" and "wf_store st'" and "keeps_insts st st'"
    and "0 \<le> sint (net st k)" and "0 \<le> sint (net st' k)"
  shows "net (st'\<lparr>vsas := applyCommits (vsaToCommit (batch_of sel st)) (vectorsToCommit (batch_of sel st)) (vsas st')\<rparr>) k =
    net st' k - (if k \<in> batch_keys (batch_of sel st) then if net st' k <s net st k then net st' k else net st k else 0)"
proof (cases "map_of (counters st') k")
  case None
  then have "map_of (counters st) k = None" by (cases "map_of (counters st) k") (auto elim: keeps_instsD [OF assms(3)])
  then have "k \<notin> batch_keys (batch_of sel st)" by (simp add: batch_key_entry [OF assms(1)])
  with None show ?thesis by (simp add: net_def lookup_def)
next
  case (Some m')
  let ?b = "batch_of sel st" and ?v = "vsas st' ! inst m'"
  have v: "net st' k = currentVector ?v" "wf_vsa ?v" using Some wf_store_entry [OF assms(2) Some] by (simp_all add: net_def lookup_def)
  note ad = selected_addresses [OF assms(1), of sel] and sa = stale_address [OF assms(1-3) Some, of sel]
  have sub: "set (vsaToCommit ?b) \<subseteq> {..<length (vsas st')}" using ad(2) assms(3) by (auto simp: keeps_insts_def)
  have "applyCommits (vsaToCommit ?b) (vectorsToCommit ?b) (vsas st') ! inst m' =
    (if k \<in> batch_keys ?b then Commit (net st k) ?v else ?v)"
    unfolding ad(3) nth_applyCommits [OF ad(1) sub] using sa by simp
  then show ?thesis
    using Some v assms(4,5) Commit_towards_zero [OF v(2), of "net st k"] by (auto simp: net_def [of "st'\<lparr>vsas := _\<rparr>"] lookup_def)
qed

text \<open>What the ledger of a key gets from a batch.\<close>

lemma key_weight_sum:
  "distinct ks \<Longrightarrow> (\<Sum>c\<leftarrow>map (\<lambda>x. \<lparr>Key = x, Vector = f x\<rparr>) ks. key_weight c k) = (if k \<in> set ks then f k else 0)"
  by (induction ks) (auto simp: key_weight_def)

lemma batch_key_weight:
  assumes "wf_store st"
  shows "(\<Sum>c\<leftarrow>commits (batch_of sel st). key_weight c k) = (if k \<in> batch_keys (batch_of sel st) then net st k else 0)"
proof -
  let ?b = "batch_of sel st"
  have d: "distinct (map Key (commits ?b))"
    using assms by (simp add: batch_of_def Let_def wf_store_def split_beta comp_def distinct_map_filter)
  have "map (\<lambda>x. \<lparr>Key = x, Vector = net st x\<rparr>) (map Key (commits ?b)) = commits ?b"
    using net_entry [OF assms] by (auto simp: batch_of_def Let_def)
  with key_weight_sum [OF d, where f = "net st" and k = k] show ?thesis by (simp only: list.set_map)
qed

definition scanned :: "store \<Rightarrow> 'p process \<Rightarrow> 'p process" where
  "scanned st pr = pr\<lparr>pr_run := (pr_run pr)\<lparr>rsys := (rsys (pr_run pr))\<lparr>sstore := st\<rparr>\<rparr>\<rparr>"

lemma scan_store:
  assumes "commitScan w now st = (st1, b)"
  shows "b = batch_of (cycle_selects w now st) st" and "keeps_insts st st1" and "net st1 k = net st k"
    and "wf_store st \<Longrightarrow> wf_store st1"
proof -
  have st1: "st1 = st\<lparr>counters := map (\<lambda>(k, v). (k, rearm w now st v)) (counters st)\<rparr>"
    and b: "b = batch_of (cycle_selects w now st) st" using assms by (simp_all add: commitScan_eq)
  show "b = batch_of (cycle_selects w now st) st" by (rule b)
  show "keeps_insts st st1" by (auto simp: st1 keeps_insts_def map_of_map_entries option.map_comp comp_def)
  show "net st1 k = net st k" unfolding st1 net_def by (subst lookup_map_entries) simp_all
  show "wf_store st1" if "wf_store st"
    using wf_store_map_entries [OF that, of "rearm w now st" "vsas st"] that by (simp add: st1 wf_store_def)
qed

section \<open>Property\<close>


text \<open>A release that is served between the scan and the persisting of a batch.\<close>

definition alice_request :: request where
  "alice_request = \<lparr>query = [(''api_key'', ''alice'')]\<rparr>"

lemma alice_released:
  assumes "run_store pr = sstore (example_system ([] :: commit list))" and "live (pr_phase pr)"
    and "commitScan (NewWorker 5 0 0 0 0 0) 9 (run_store pr) = (st, b)"
  shows "\<exists>pr'. main_run cb w 4 report (scanned st pr) [ReleaseL ''alice'' True] pr'" and "commits b = [\<lparr>Key = ''alice'', Vector = 7\<rparr>]"
proof -
  have "case commitScan (NewWorker 5 0 0 0 0 0) 9 (sstore (example_system ([] :: commit list))) of (st, b) \<Rightarrow>
      map_option fst (TryRefund 1 (instance_of 4 ''alice'' st)) = Some True \<and> commits b = [\<lparr>Key = ''alice'', Vector = 7\<rparr>]"
    by code_simp
  with assms(1,3) obtain v where v: "TryRefund 1 (instance_of 4 ''alice'' st) = Some (True, v)"
    and b: "commits b = [\<lparr>Key = ''alice'', Vector = 7\<rparr>]" by auto
  show "commits b = [\<lparr>Key = ''alice'', Vector = 7\<rparr>]" by (rule b)
  let ?s = "server_of (scanned st pr)"
  have k: "api_key alice_request = ''alice''" by code_simp
  have wf: "wf_store (server_store ?s)" using scan_store(4) [OF assms(3)] assms(1) example_store_wf [of "[] :: commit list"] by (simp add: scanned_def)
  have st: "server_store ?s = st" by (simp add: scanned_def)
  from release_keyed [OF wf, of alice_request 4 True v "\<lambda>_. 0"] k v st obtain s' where
    s': "handleRelease 4 (\<lambda>_. 0) alice_request ?s = Some (\<lparr>status = 204, headers = [], body = ''''\<rparr>, s')"
      "appMetrics s' = RecordRefund 1 (appMetrics ?s)" by auto
  have "refunds (appMetrics s') \<noteq> refunds (pr_metrics (scanned st pr))" using s'(2) by (simp add: RecordRefund_def slt_iff)
  with main_step.release [of "scanned st pr", OF _ s'(1), of cb w report] assms(2) k
  have "main_step cb w 4 report (ReleaseL ''alice'' True) (scanned st pr) (served s' (scanned st pr))" by (simp add: scanned_def)
  from main_more [OF main_start this] show "\<exists>pr'. main_run cb w 4 report (scanned st pr) [ReleaseL ''alice'' True] pr'" by auto
qed


end
