(* ===== verification/Exporter_Screen.thy ===== *)
theory Exporter_Screen
  imports Exporter
begin

text \<open>
  What the renderers of the churn exporter leave on a terminal. The terminal keeps rows of characters
  and a cursor, starts a new row on a newline, returns to the first column on a carriage return, and
  obeys the two control sequences that the program sends (two rows up, clear the row); colours change
  no character. Its window is taken to be large enough, so nothing wraps or scrolls.
\<close>

section \<open>A terminal\<close>

record terminal =
  screen :: "string list"
  cur_row :: nat
  cur_col :: nat
  escape :: "string option"

definition blank_terminal :: terminal where
  "blank_terminal = \<lparr>screen = [[]], cur_row = 0, cur_col = 0, escape = None\<rparr>"

definition overwrite :: "nat \<Rightarrow> string \<Rightarrow> string \<Rightarrow> string" where
  "overwrite col s r = take col (r @ replicate (col - length r) CHR '' '') @ s @ drop (col + length s) r"

definition put_text :: "string \<Rightarrow> terminal \<Rightarrow> terminal" where
  "put_text s t =
     t\<lparr>screen := (screen t)[cur_row t := overwrite (cur_col t) s (screen t ! cur_row t)], cur_col := cur_col t + length s\<rparr>"

definition new_line :: "terminal \<Rightarrow> terminal" where
  "new_line t =
     t\<lparr>screen := (if cur_row t + 1 < length (screen t) then screen t else screen t @ [[]]), cur_row := cur_row t + 1, cur_col := 0\<rparr>"

definition control :: "string \<Rightarrow> char \<Rightarrow> terminal \<Rightarrow> terminal" where
  "control params final t =
     (if params = ''2'' \<and> final = CHR ''F'' then t\<lparr>cur_row := cur_row t - 2, cur_col := 0\<rparr>
      else if params = ''2'' \<and> final = CHR ''K'' then t\<lparr>screen := (screen t)[cur_row t := []]\<rparr>
      else t)"

definition receive_char :: "terminal \<Rightarrow> char \<Rightarrow> terminal" where
  "receive_char t c =
     (case escape t of
        None \<Rightarrow>
          if c = ESC then t\<lparr>escape := Some []\<rparr> else if c = NL then new_line t else if c = CR then t\<lparr>cur_col := 0\<rparr>
          else put_text [c] t
      | Some [] \<Rightarrow> if c = CHR ''['' then t\<lparr>escape := Some ''[''\<rparr> else if final_byte c then t\<lparr>escape := None\<rparr> else t
      | Some (_ # params) \<Rightarrow>
          if final_byte c then (control params c t)\<lparr>escape := None\<rparr> else t\<lparr>escape := Some (CHR ''['' # params @ [c])\<rparr>)"

definition display :: "string \<Rightarrow> terminal \<Rightarrow> terminal" where
  "display s t = foldl receive_char t s"

lemma display_append [simp]: "display (s @ s') t = display s' (display s t)"
  by (simp add: display_def)

lemma display_simps [simp]: "display [] t = t" "display (c # s) t = display s (receive_char t c)"
  by (simp_all add: display_def)

section \<open>Coloured text\<close>

text \<open>Printable characters and complete colour sequences; the mode is 0 in text, 1 after ESC, 2 in the parameters.\<close>

fun coloured :: "nat \<Rightarrow> string \<Rightarrow> bool" where
  "coloured m [] = (m = 0)"
| "coloured m (c # s) =
     (if m = 0 then if c = ESC then coloured 1 s else c \<noteq> NL \<and> c \<noteq> CR \<and> coloured 0 s
      else if m = 1 then c = CHR ''['' \<and> coloured 2 s
      else if final_byte c then c = CHR ''m'' \<and> coloured 0 s else coloured m s)"

abbreviation visible :: "string \<Rightarrow> string" where
  "visible s \<equiv> strip_ansi False False s"

lemma put_text_Nil: "cur_row t < length (screen t) \<Longrightarrow> cur_col t \<le> length (screen t ! cur_row t) \<Longrightarrow> put_text [] t = t"
  by (simp add: put_text_def overwrite_def)

lemma put_text_Cons:
  assumes "cur_row t < length (screen t)" and "cur_col t \<le> length (screen t ! cur_row t)"
  shows "put_text s (put_text [c] t) = put_text (c # s) t"
proof -
  have "overwrite (cur_col t + 1) s (overwrite (cur_col t) [c] (screen t ! cur_row t)) = overwrite (cur_col t) (c # s) (screen t ! cur_row t)"
    using assms(2) by (simp add: overwrite_def take_append drop_drop min_def add.commute)
  with assms(1) show ?thesis by (simp add: put_text_def)
qed

lemma put_text_inside:
  assumes "cur_row t < length (screen t)" and "cur_col t \<le> length (screen t ! cur_row t)"
  shows "cur_row (put_text s t) < length (screen (put_text s t))"
    and "cur_col (put_text s t) \<le> length (screen (put_text s t) ! cur_row (put_text s t))"
  using assms by (simp_all add: put_text_def overwrite_def)

lemma display_coloured:
  assumes "cur_row t < length (screen t)" and "cur_col t \<le> length (screen t ! cur_row t)"
  shows "coloured 0 s \<Longrightarrow> escape t = None \<Longrightarrow> display s t = put_text (visible s) t"
    and "coloured 1 s \<Longrightarrow> escape t = Some [] \<Longrightarrow> display s t = (put_text (strip_ansi True False s) t)\<lparr>escape := None\<rparr>"
    and "coloured 2 s \<Longrightarrow> escape t = Some (CHR ''['' # params) \<Longrightarrow> display s t = (put_text (strip_ansi True True s) t)\<lparr>escape := None\<rparr>"
  using assms
proof (induction s arbitrary: t params)
  case Nil
  {
    case 1
    then show ?case by (simp add: put_text_Nil)
  next
    case 2
    then show ?case by simp
  next
    case 3
    then show ?case by simp
  }
next
  case (Cons c s)
  {
    case 1
    show ?case
    proof (cases "c = ESC")
      case True
      let ?t = "t\<lparr>escape := Some []\<rparr>"
      have "display s ?t = (put_text (strip_ansi True False s) ?t)\<lparr>escape := None\<rparr>"
        using 1 True by (intro Cons.IH(2)) simp_all
      then show ?thesis using True 1 by (simp add: receive_char_def put_text_def)
    next
      case False
      then have "display s (put_text [c] t) = put_text (visible s) (put_text [c] t)"
        using 1 put_text_inside [of t "[c]"] by (intro Cons.IH(1)) (simp_all add: put_text_def)
      then show ?thesis using False 1 put_text_Cons [of t] by (simp add: receive_char_def)
    qed
  next
    case 2
    let ?t = "t\<lparr>escape := Some ''[''\<rparr>"
    have "display s ?t = (put_text (strip_ansi True True s) ?t)\<lparr>escape := None\<rparr>" using 2 by (intro Cons.IH(3)) simp_all
    then show ?case using 2 by (simp add: receive_char_def put_text_def)
  next
    case 3
    show ?case
    proof (cases "final_byte c")
      case True
      then have c: "c = CHR ''m''" "coloured 0 s" using 3 by simp_all
      let ?t = "t\<lparr>escape := None\<rparr>"
      have "display s ?t = put_text (visible s) ?t" using 3 c by (intro Cons.IH(1)) simp_all
      then show ?thesis using 3 True c by (simp add: receive_char_def control_def put_text_def)
    next
      case False
      let ?t = "t\<lparr>escape := Some (CHR ''['' # params @ [c])\<rparr>"
      have "display s ?t = (put_text (strip_ansi True True s) ?t)\<lparr>escape := None\<rparr>" using 3 False by (intro Cons.IH(3)) simp_all
      then show ?thesis using 3 False by (simp add: receive_char_def put_text_def)
    qed
  }
qed

section \<open>The texts of a snapshot\<close>

definition plain :: "char \<Rightarrow> bool" where
  "plain c \<longleftrightarrow> c \<noteq> ESC \<and> c \<noteq> NL \<and> c \<noteq> CR"

lemma coloured_plain: "\<forall>c \<in> set s. plain c \<Longrightarrow> coloured 0 s"
  by (induction s) (simp_all add: plain_def)

lemma coloured_append: "coloured m s \<Longrightarrow> coloured 0 s' \<Longrightarrow> coloured m (s @ s')"
  by (induction m s rule: coloured.induct) (simp_all split: if_splits)

lemma plain_code: "32 \<le> (of_char c :: nat) \<Longrightarrow> plain c"
  by (auto simp: plain_def ESC_def NL_def CR_def)

lemma plain_char_of: "32 \<le> n \<Longrightarrow> n < 256 \<Longrightarrow> plain (char_of (n :: nat))"
  by (rule plain_code) simp

lemma plain_digits: "c \<in> set (nat_digits n) \<Longrightarrow> plain c"
  using nat_digits_all_digits [of c n] by (intro plain_code) (auto simp: is_digit_def digit_value_def Let_def split: if_splits)

lemma plain_d: "c \<in> set (sprintf_d n) \<Longrightarrow> plain c"
  by (auto simp: sprintf_d_def plain_digits split: if_splits) (simp add: plain_def ESC_def NL_def CR_def)+

lemma plain_f: "c \<in> set (sprintf_f prec x) \<Longrightarrow> plain c"
  by (auto simp: sprintf_f_def zero_pad_def plain_digits Let_def split: if_splits prod.splits)
    (simp_all add: plain_def ESC_def NL_def CR_def)

lemma plain_hex: "n < 16 \<Longrightarrow> plain (hex_char n)"
proof -
  assume "n < 16"
  then have "unat n < 16" by (simp add: word_less_nat_alt)
  then show ?thesis by (auto simp: hex_char_def intro!: plain_char_of)
qed

lemma hash_bytes_small: "b \<in> set (hash_bytes i h bs) \<Longrightarrow> b \<in> set bs \<or> b < 256"
proof (induction i arbitrary: h bs)
  case (Suc i)
  have "h AND 255 < 256" using word_and_le1 [of h 255] by (rule le_less_trans) simp
  with Suc.IH [of "drop_bit 8 h" "(h AND 255) # bs"] Suc.prems show ?case by auto
qed simp

lemma plain_shortHash: "c \<in> set (shortHash h n) \<Longrightarrow> plain c"
proof -
  assume "c \<in> set (shortHash h n)"
  then have "c \<in> set (concat (map hex_byte (hash_bytes 8 h [])))"
    by (auto simp: shortHash_def Let_def dest: in_set_takeD split: if_splits)
  then obtain b where b: "b \<in> set (hash_bytes 8 h [])" "c \<in> set (hex_byte b)" by auto
  have "b < 256" using hash_bytes_small [OF b(1)] by simp
  then have "unat b < 256" by (simp add: word_less_nat_alt)
  then have "drop_bit 4 b < 16" by (simp add: word_less_nat_alt drop_bit_eq_div unat_div)
  moreover have "b AND 15 < 16" using word_and_le1 [of b 15] by (rule le_less_trans) simp
  ultimately show ?thesis using b(2) by (auto simp: hex_byte_def plain_hex)
qed

lemma coloured_ansi:
  "coloured 0 ansiReset" "coloured 0 ansiBold" "coloured 0 ansiRed" "coloured 0 ansiGreen" "coloured 0 ansiYellow" "coloured 0 ansiCyan"
  by code_simp+

lemma coloured_colours: "coloured 0 s \<Longrightarrow> coloured 0 (colorWR on v s)" "coloured 0 s \<Longrightarrow> coloured 0 (colorCF on v s)"
  by (simp_all add: colorWR_def colorCF_def coloured_append coloured_ansi)

lemma coloured_f: "coloured 0 (sprintf_f prec x)"
  using plain_f by (intro coloured_plain) auto

lemma coloured_d: "coloured 0 (sprintf_d n)"
  using plain_d by (intro coloured_plain) auto

lemma coloured_hash: "coloured 0 (shortHash h n)"
  using plain_shortHash by (intro coloured_plain) auto

lemma coloured_literals:
  "coloured 0 ''churn summary: global_churn=''" "coloured 0 '' write_reduction_est=''" "coloured 0 '' naive=''"
  "coloured 0 '' commits=''" "coloured 0 '' sample=''" "coloured 0 '' topN=''" "coloured 0 ''top key: (none yet)''"
  "coloured 0 ''top key=''" "coloured 0 '' churn=''" "coloured 0 '' abs=''" "coloured 0 '' net=''" "coloured 0 '' | ''"
  by code_simp+

lemmas coloured_parts = coloured_append coloured_colours coloured_f coloured_d coloured_hash coloured_literals

lemma coloured_summary: "coloured 0 (summary_text on cfg wr cf dn dc)"
  unfolding summary_text_def Let_def by (cases on) (simp_all only: if_True if_False prod.case coloured_parts)

lemma coloured_top: "coloured 0 (top_text on cfg rows)"
  unfolding top_text_def Let_def by (cases rows; cases on) (simp_all only: list.case if_True if_False coloured_parts)

section \<open>Rendering\<close>

lemma strip_plain: "ESC \<notin> set s \<Longrightarrow> visible s = s"
  by (induction s) auto

lemma printableLen_visible: "printableLen s = length (visible s)"
  by (simp add: printableLen_def strip_plain)

lemma display_controls:
  assumes "escape t = None"
  shows "display ansiPrevLines2 t = t\<lparr>cur_row := cur_row t - 2, cur_col := 0\<rparr>"
    and "display ansiClearLine t = t\<lparr>screen := (screen t)[cur_row t := []]\<rparr>"
    and "display [NL] t = new_line t" and "display [CR] t = t\<lparr>cur_col := 0\<rparr>"
proof -
  have d: "\<not> final_byte CHR ''2''" "final_byte CHR ''F''" "final_byte CHR ''K''" "NL \<noteq> ESC" "CR \<noteq> ESC" "CR \<noteq> NL" by code_simp+
  show "display ansiPrevLines2 t = t\<lparr>cur_row := cur_row t - 2, cur_col := 0\<rparr>"
    "display ansiClearLine t = t\<lparr>screen := (screen t)[cur_row t := []]\<rparr>"
    "display [NL] t = new_line t" "display [CR] t = t\<lparr>cur_col := 0\<rparr>"
    using assms d by (simp_all add: ansiPrevLines2_def ansiClearLine_def receive_char_def control_def)
qed

lemma display_NL: "escape t = None \<Longrightarrow> display (NL # s) t = display s (new_line t)"
  using display_controls(3) [of t] by simp

definition live_screen :: "string \<Rightarrow> string \<Rightarrow> terminal" where
  "live_screen s t = \<lparr>screen = [visible s, visible t, []], cur_row = 2, cur_col = 0, escape = None\<rparr>"

lemma live_first:
  assumes "coloured 0 s" and "coloured 0 t"
  shows "display (s @ [NL] @ t @ [NL]) blank_terminal = live_screen s t"
  using assms
  by (simp add: display_coloured(1) display_controls display_NL blank_terminal_def put_text_def new_line_def overwrite_def live_screen_def
      del: display_simps)

lemma live_again:
  assumes "coloured 0 s" and "coloured 0 t"
  shows "display (ansiPrevLines2 @ ansiClearLine @ s @ [NL] @ ansiClearLine @ t @ [NL]) (live_screen s0 t0) = live_screen s t"
  using assms
  by (simp add: display_coloured(1) display_controls display_NL put_text_def new_line_def overwrite_def live_screen_def del: display_simps)

definition line_of :: "string \<Rightarrow> string \<Rightarrow> string" where
  "line_of s t = (if t \<noteq> '''' \<and> t \<noteq> ''top key: (none yet)'' then s @ '' | '' @ t else s)"

definition simple_screen :: "string \<Rightarrow> nat \<Rightarrow> nat \<Rightarrow> terminal" where
  "simple_screen line k col = \<lparr>screen = [visible line @ replicate k CHR '' ''], cur_row = 0, cur_col = col, escape = None\<rparr>"

lemma coloured_line: "coloured 0 s \<Longrightarrow> coloured 0 t \<Longrightarrow> coloured 0 (line_of s t)"
  unfolding line_of_def by (simp only: coloured_append coloured_literals simp_thms split: if_split)

lemma simple_first: "coloured 0 l \<Longrightarrow> display l blank_terminal = simple_screen l 0 (length (visible l))"
  by (simp add: display_coloured(1) blank_terminal_def put_text_def overwrite_def simple_screen_def)

lemma coloured_spaces: "coloured 0 (replicate n CHR '' '')"
  by (rule coloured_plain) (simp add: plain_def ESC_def NL_def CR_def)

lemma visible_spaces [simp]: "visible (replicate n CHR '' '') = replicate n CHR '' ''"
  by (rule strip_plain) (simp add: ESC_def)

lemma visible_append: "coloured 0 s \<Longrightarrow> visible (s @ s') = visible s @ visible s'"
proof -
  have "(coloured 0 s \<longrightarrow> visible (s @ s') = visible s @ visible s')
    \<and> (coloured 1 s \<longrightarrow> strip_ansi True False (s @ s') = strip_ansi True False s @ visible s')
    \<and> (coloured 2 s \<longrightarrow> strip_ansi True True (s @ s') = strip_ansi True True s @ visible s')"
    by (induction s) auto
  then show "coloured 0 s \<Longrightarrow> visible (s @ s') = visible s @ visible s'" by blast
qed

lemma simple_again:
  assumes "coloured 0 l" and "length (visible l0) - length (visible l) \<le> pad"
  shows "\<exists>k col. display (CR # l @ replicate pad CHR '' '') (simple_screen l0 k0 col0) = simple_screen l k col"
proof -
  let ?s = "l @ replicate pad CHR '' ''" and ?t = "(simple_screen l0 k0 col0)\<lparr>cur_col := 0\<rparr>"
  have "display (CR # ?s) (simple_screen l0 k0 col0) = display ?s ?t"
    using display_controls(4) [of "simple_screen l0 k0 col0"] by (simp add: simple_screen_def)
  also have "\<dots> = put_text (visible ?s) ?t"
    using assms(1) by (intro display_coloured(1)) (simp_all add: coloured_append coloured_spaces simple_screen_def)
  also have "\<dots> = simple_screen l (max pad (length (visible l0) + k0 - length (visible l))) (length (visible l) + pad)"
    using assms by (auto simp: put_text_def overwrite_def simple_screen_def visible_append max_def replicate_add [symmetric])
  finally show ?thesis by blast
qed

section \<open>Properties\<close>

definition render_all :: "(string \<times> string \<times> string) list \<Rightarrow> exporter \<Rightarrow> exporter" where
  "render_all ps x = foldl (\<lambda>x (stamp, s, t). emit stamp s t x) x ps"

definition snapshot_texts :: "string \<Rightarrow> string \<Rightarrow> bool" where
  "snapshot_texts s t \<longleftrightarrow> (\<exists>on cfg wr cf dn dc rows. s = summary_text on cfg wr cf dn dc \<and> t = top_text on cfg rows)"

lemma snapshot_texts_coloured: "snapshot_texts s t \<Longrightarrow> coloured 0 s \<and> coloured 0 t"
  by (auto simp: snapshot_texts_def coloured_summary coloured_top)

lemma emit_modes [simp]:
  "liveMode (emit stamp s t x) = liveMode x" "ansiSupported (emit stamp s t x) = ansiSupported x"
  by (simp_all add: emit_def renderLive_def renderSimple_def print_def Let_def)

lemma render_modes [simp]: "liveMode (render_all ps x) = liveMode x" "ansiSupported (render_all ps x) = ansiSupported x"
  by (induction ps arbitrary: x) (simp_all add: render_all_def split_beta)

lemma render_snoc: "render_all (ps @ [(stamp, s, t)]) x = emit stamp s t (render_all ps x)"
  by (simp add: render_all_def)

lemma live_rendered:
  assumes "liveMode x" and "ansiSupported x" and "\<not> livePrinted x" and "console x = ''''"
    and "\<forall>(stamp, s, t) \<in> set (ps @ [(stamp, s, t)]). snapshot_texts s t"
  shows "livePrinted (render_all (ps @ [(stamp, s, t)]) x)
    \<and> display (console (render_all (ps @ [(stamp, s, t)]) x)) blank_terminal = live_screen s t"
  using assms(5)
proof (induction ps arbitrary: stamp s t rule: rev_induct)
  case Nil
  then have "coloured 0 s" "coloured 0 t" using snapshot_texts_coloured by auto
  with assms(1-4) live_first show ?case by (simp add: render_all_def emit_def renderLive_def print_def)
next
  case (snoc p ps)
  obtain stamp0 s0 t0 where p: "p = (stamp0, s0, t0)" by (cases p)
  have c: "coloured 0 s" "coloured 0 t" using snoc.prems snapshot_texts_coloured by auto
  let ?x = "render_all (ps @ [(stamp0, s0, t0)]) x"
  have IH: "livePrinted ?x" "display (console ?x) blank_terminal = live_screen s0 t0" using snoc.IH [of stamp0 s0 t0] snoc.prems p by auto
  have e: "emit stamp s t ?x = renderLive s t ?x" using assms(1,2) by (simp add: emit_def)
  have "console (renderLive s t ?x) = console ?x @ ansiPrevLines2 @ ansiClearLine @ s @ [NL] @ ansiClearLine @ t @ [NL]"
    using IH(1) by (simp add: renderLive_def print_def)
  then have "display (console (renderLive s t ?x)) blank_terminal =
      display (ansiPrevLines2 @ ansiClearLine @ s @ [NL] @ ansiClearLine @ t @ [NL]) (display (console ?x) blank_terminal)"
    by (simp only: display_append)
  also have "\<dots> = live_screen s t" by (simp only: IH(2) live_again [OF c])
  finally have d: "display (console (renderLive s t ?x)) blank_terminal = live_screen s t" .
  have "livePrinted (renderLive s t ?x)" using IH(1) by (simp add: renderLive_def print_def)
  moreover have "render_all ((ps @ [p]) @ [(stamp, s, t)]) x = renderLive s t ?x" using render_snoc [of "ps @ [p]" stamp s t x] e p by simp
  ultimately show ?case using d by simp
qed

lemma simple_render_step:
  assumes "livePrinted x" and "display (console x) blank_terminal = simple_screen l0 k0 col0"
    and "prevSimpleLen x = word_of_nat (length (visible l0))" and "int (length (visible l0)) < 2 ^ 63" and "int (length (visible (line_of s t))) < 2 ^ 63"
    and "coloured 0 s" and "coloured 0 t"
  shows "\<exists>k col. display (console (renderSimple s t x)) blank_terminal = simple_screen (line_of s t) k col"
proof -
  let ?l = "line_of s t"
  let ?n = "length (visible ?l)" and ?m = "length (visible l0)"
  have si: "sint (word_of_nat ?n :: i64) = int ?n" "sint (word_of_nat ?m :: i64) = int ?m"
    using assms(4,5) sint_of_int_fits [of "int ?n"] sint_of_int_fits [of "int ?m"] by (simp_all add: fits_def)
  have sd: "sint (prevSimpleLen x - word_of_nat (printableLen ?l)) = int ?m - int ?n"
    unfolding assms(3) printableLen_visible using assms(4,5) si by (subst sint_diff_fits) (simp_all add: fits_def)
  have l: "(if t \<noteq> '''' \<and> t \<noteq> ''top key: (none yet)'' then s @ '' | '' @ t else s) = ?l" by (simp add: line_of_def)
  have "console (renderSimple s t x) = console x @ CR # ?l @ replicate (nat (sint (prevSimpleLen x - word_of_nat (printableLen ?l)))) CHR '' ''"
    using assms(1) unfolding renderSimple_def l by (auto simp: print_def slt_iff Let_def)
  then have pad: "console (renderSimple s t x) = console x @ CR # ?l @ replicate (?m - ?n) CHR '' ''"
    unfolding sd by (simp add: nat_diff_distrib')
  show ?thesis
    unfolding pad display_append assms(2) by (rule simple_again [OF coloured_line [OF assms(6,7)]]) simp
qed

lemma simple_rendered:
  assumes "liveMode x" and "\<not> ansiSupported x" and "\<not> livePrinted x" and "console x = ''''"
    and "\<forall>(stamp, s, t) \<in> set (ps @ [(stamp, s, t)]). snapshot_texts s t \<and> int (length (visible (line_of s t))) < 2 ^ 63"
  shows "livePrinted (render_all (ps @ [(stamp, s, t)]) x)
    \<and> prevSimpleLen (render_all (ps @ [(stamp, s, t)]) x) = word_of_nat (length (visible (line_of s t)))
    \<and> (\<exists>k col. display (console (render_all (ps @ [(stamp, s, t)]) x)) blank_terminal = simple_screen (line_of s t) k col)"
  using assms(5)
proof (induction ps arbitrary: stamp s t rule: rev_induct)
  case Nil
  then have c: "coloured 0 s" "coloured 0 t" using snapshot_texts_coloured by auto
  have "render_all [(stamp, s, t)] x = renderSimple s t x" using assms(1,2) by (simp add: render_all_def emit_def)
  then show ?case
    using assms(3,4) simple_first [OF coloured_line [OF c]]
    by (auto simp: renderSimple_def line_of_def [symmetric] printableLen_visible print_def Let_def)
next
  case (snoc p ps)
  obtain stamp0 s0 t0 where p: "p = (stamp0, s0, t0)" by (cases p)
  have c: "coloured 0 s" "coloured 0 t" using snoc.prems snapshot_texts_coloured by auto
  let ?x = "render_all (ps @ [(stamp0, s0, t0)]) x"
  have IH: "livePrinted ?x" "prevSimpleLen ?x = word_of_nat (length (visible (line_of s0 t0)))"
    "\<exists>k col. display (console ?x) blank_terminal = simple_screen (line_of s0 t0) k col"
    using snoc.IH [of stamp0 s0 t0] snoc.prems p by auto
  then obtain k0 col0 where sc: "display (console ?x) blank_terminal = simple_screen (line_of s0 t0) k0 col0" by blast
  have "int (length (visible (line_of s0 t0))) < 2 ^ 63" "int (length (visible (line_of s t))) < 2 ^ 63" using snoc.prems p by auto
  note st = simple_render_step [OF IH(1) sc IH(2) this c]
  have "render_all ((ps @ [p]) @ [(stamp, s, t)]) x = renderSimple s t ?x"
    using render_snoc [of "ps @ [p]" stamp s t x] assms(1,2) p by (simp add: emit_def)
  moreover have "livePrinted (renderSimple s t ?x) \<and> prevSimpleLen (renderSimple s t ?x) = word_of_nat (length (visible (line_of s t)))"
    using IH(1) by (simp add: renderSimple_def line_of_def [symmetric] printableLen_visible print_def Let_def)
  ultimately show ?case using st by simp
qed

text \<open>
  The live display shows the latest snapshot and nothing else. In live mode, after any number of
  snapshots on an empty terminal, a terminal with cursor movement shows the visible characters of the
  last summary and of the last top-key line in two rows and the cursor below them; a terminal without
  shows the last line in a single row, followed by blanks only. Colours take no room and no text of an
  earlier, longer line survives.
\<close>

theorem live_display_shows_last:
  assumes "liveMode x" and "\<not> livePrinted x" and "console x = ''''"
    and "\<forall>(stamp, s, t) \<in> set (ps @ [(stamp, s, t)]). snapshot_texts s t \<and> int (length (visible (line_of s t))) < 2 ^ 63"
    and "scr = display (console (render_all (ps @ [(stamp, s, t)]) x)) blank_terminal"
  shows "if ansiSupported x then screen scr = [visible s, visible t, []] \<and> cur_row scr = 2 \<and> cur_col scr = 0
    else \<exists>k. screen scr = [visible (line_of s t) @ replicate k CHR '' '']"
proof (cases "ansiSupported x")
  case True
  have "\<forall>(stamp, s, t) \<in> set (ps @ [(stamp, s, t)]). snapshot_texts s t" using assms(4) by blast
  from live_rendered [OF assms(1) True assms(2,3) this] assms(5) True show ?thesis by (simp add: live_screen_def)
next
  case False
  from simple_rendered [OF assms(1) False assms(2-4)] assms(5) False show ?thesis by (auto simp: simple_screen_def)
qed

definition example_summary :: "i64 \<Rightarrow> string" where
  "example_summary n = summary_text True (currCfg zero_exporter) 0 0 n 0"

theorem live_display_shows_last_witness:
  "\<exists>k. screen (display (console (render_all ([('''', example_summary 100, ''top key: (none yet)'')] @ [('''', example_summary 1, ''top key: (none yet)'')])
      (zero_exporter\<lparr>liveMode := True\<rparr>))) blank_terminal)
    = [''churn summary: global_churn=0.000 write_reduction_est=0.000 naive=1 commits=0 sample=0.00 topN=0'' @ replicate k CHR '' '']"
proof -
  let ?t = "''top key: (none yet)''" and ?x = "zero_exporter\<lparr>liveMode := True\<rparr>"
  have vis: "visible (line_of (example_summary 1) ?t) = ''churn summary: global_churn=0.000 write_reduction_est=0.000 naive=1 commits=0 sample=0.00 topN=0''"
    by code_simp
  have len: "int (length (visible (line_of (example_summary 1) ?t))) < 2 ^ 63" "int (length (visible (line_of (example_summary 100) ?t))) < 2 ^ 63"
    by code_simp+
  have "?t = top_text True (currCfg zero_exporter) []" by (simp add: top_text_def)
  then have tx: "snapshot_texts (example_summary n) ?t" for n unfolding snapshot_texts_def example_summary_def by blast
  have x: "liveMode ?x" "\<not> livePrinted ?x" "console ?x = ''''" "\<not> ansiSupported ?x" by (simp_all add: zero_exporter_def)
  have "if ansiSupported ?x then screen (display (console (render_all ([('''', example_summary 100, ?t)] @ [('''', example_summary 1, ?t)]) ?x)) blank_terminal)
        = [visible (example_summary 1), visible ?t, []]
      \<and> cur_row (display (console (render_all ([('''', example_summary 100, ?t)] @ [('''', example_summary 1, ?t)]) ?x)) blank_terminal) = 2
      \<and> cur_col (display (console (render_all ([('''', example_summary 100, ?t)] @ [('''', example_summary 1, ?t)]) ?x)) blank_terminal) = 0
    else \<exists>k. screen (display (console (render_all ([('''', example_summary 100, ?t)] @ [('''', example_summary 1, ?t)]) ?x)) blank_terminal)
        = [visible (line_of (example_summary 1) ?t) @ replicate k CHR '' '']"
    by (rule live_display_shows_last [OF x(1-3) _ refl]) (use tx len in auto)
  with x(4) show ?thesis unfolding vis by (simp only: if_False)
qed

end
