(* ===== verification/Exporter_Props.thy ===== *)
theory Exporter_Props
  imports Exporter_Screen
begin

text \<open>
  The rolling window of the churn exporter against the full history of snapshots, and what its two
  renderers leave on the screen.
\<close>

section \<open>The full history\<close>

text \<open>The four totals after a list of calls, for an enabled module with the given sampling threshold.\<close>

definition sampled_key :: "u64 \<Rightarrow> string \<Rightarrow> bool" where
  "sampled_key thr key \<longleftrightarrow> key \<noteq> '''' \<and> thr \<noteq> 0 \<and> hashKey key \<le> thr"

fun event_totals :: "u64 \<Rightarrow> churn_event \<Rightarrow> i64 \<times> i64 \<times> i64 \<times> i64" where
  "event_totals thr (RequestSeen now key admitted) =
     (if admitted then 1 else 0, 0, if admitted \<and> sampled_key thr key then 1 else 0, 0)"
| "event_totals thr (BatchSeen sz) = (0, if 0 <s sz then sz else 0, 0, 0)"
| "event_totals thr (CommitSeen now key vec) = (0, 0, 0, if sampled_key thr key then abs64 vec else 0)"
| "event_totals thr (CommitErrorSeen n) = (0, 0, 0, 0)"
| "event_totals thr (Tick now0 now stamp) = (0, 0, 0, 0)"

definition total_of :: "(i64 \<times> i64 \<times> i64 \<times> i64 \<Rightarrow> i64) \<Rightarrow> u64 \<Rightarrow> churn_event list \<Rightarrow> i64" where
  "total_of f thr es = (\<Sum>e\<leftarrow>es. f (event_totals thr e))"

definition snapshot_point :: "u64 \<Rightarrow> int \<Rightarrow> churn_event list \<Rightarrow> point" where
  "snapshot_point thr now es =
     \<lparr>pt_ts = now, pt_naive = total_of fst thr es, pt_commits = total_of (fst \<circ> snd) thr es,
      pt_sumAbs = total_of (fst \<circ> snd \<circ> snd) thr es, pt_sumNet = total_of (snd \<circ> snd \<circ> snd) thr es\<rparr>"

text \<open>One point for every tick, with the totals of all calls before it.\<close>

fun history :: "u64 \<Rightarrow> churn_event list \<Rightarrow> churn_event list \<Rightarrow> point list" where
  "history thr pre [] = []"
| "history thr pre (e # es) =
     (case e of Tick now0 now stamp \<Rightarrow> [snapshot_point thr now pre] | _ \<Rightarrow> []) @ history thr (pre @ [e]) es"

fun is_tick :: "churn_event \<Rightarrow> bool" where
  "is_tick (Tick now0 now stamp) = True"
| "is_tick e = False"

fun tick_times :: "churn_event list \<Rightarrow> int list" where
  "tick_times [] = []"
| "tick_times (e # es) = (case e of Tick now0 now stamp \<Rightarrow> [now] | _ \<Rightarrow> []) @ tick_times es"

lemma tick_times_append [simp]: "tick_times (xs @ ys) = tick_times xs @ tick_times ys"
  by (induction xs) simp_all

lemma history_append: "history thr pre (xs @ ys) = history thr pre xs @ history thr (pre @ xs) ys"
  by (induction xs arbitrary: pre) simp_all

lemma history_ts: "map pt_ts (history thr pre es) = tick_times es"
  by (induction es arbitrary: pre) (auto simp: snapshot_point_def split: churn_event.splits)

lemma total_of_append [simp]: "total_of f thr (xs @ ys) = total_of f thr xs + total_of f thr ys"
  by (simp add: total_of_def)

section \<open>Recording\<close>

definition counters_at :: "u64 \<Rightarrow> churn_event list \<Rightarrow> churn \<Rightarrow> bool" where
  "counters_at thr es c \<longleftrightarrow>
     modEnabled c \<and> samplingThreshold c = thr \<and> naiveWritesAll c = total_of fst thr es
     \<and> commitRowsInternal c = total_of (fst \<circ> snd) thr es
     \<and> sumAbsGlobal c = total_of (fst \<circ> snd \<circ> snd) thr es \<and> sumNetGlobal c = total_of (snd \<circ> snd \<circ> snd) thr es"

lemmas churn_ops = ObserveRequest_def ObserveBatch_def ObserveCommit_def ObserveCommitError_def
  exporterRecordAdmit_def exporterRecordCommit_def exporterObserveBatchInternal_def

lemma request_counters:
  "naiveWritesAll (ObserveRequest now key admitted c) = naiveWritesAll c + (if modEnabled c \<and> admitted then 1 else 0)"
  "commitRowsInternal (ObserveRequest now key admitted c) = commitRowsInternal c"
  "sumAbsGlobal (ObserveRequest now key admitted c) =
     sumAbsGlobal c + (if modEnabled c \<and> admitted \<and> sampled_key (samplingThreshold c) key then 1 else 0)"
  "sumNetGlobal (ObserveRequest now key admitted c) = sumNetGlobal c"
  by (simp_all add: churn_ops sampled_def sampled_key_def Let_def)

lemma batch_counters:
  "naiveWritesAll (ObserveBatch sz c) = naiveWritesAll c"
  "commitRowsInternal (ObserveBatch sz c) = commitRowsInternal c + (if modEnabled c \<and> 0 <s sz then sz else 0)"
  "sumAbsGlobal (ObserveBatch sz c) = sumAbsGlobal c" "sumNetGlobal (ObserveBatch sz c) = sumNetGlobal c"
  by (simp_all add: churn_ops sle_iff slt_iff)

lemma commit_counters:
  "naiveWritesAll (ObserveCommit now key vec c) = naiveWritesAll c"
  "commitRowsInternal (ObserveCommit now key vec c) = commitRowsInternal c"
  "sumAbsGlobal (ObserveCommit now key vec c) = sumAbsGlobal c"
  "sumNetGlobal (ObserveCommit now key vec c) =
     sumNetGlobal c + (if modEnabled c \<and> sampled_key (samplingThreshold c) key then abs64 vec else 0)"
  by (simp_all add: churn_ops sampled_def sampled_key_def abs64_def Let_def)

lemma error_counters:
  "naiveWritesAll (ObserveCommitError n c) = naiveWritesAll c"
  "commitRowsInternal (ObserveCommitError n c) = commitRowsInternal c"
  "sumAbsGlobal (ObserveCommitError n c) = sumAbsGlobal c" "sumNetGlobal (ObserveCommitError n c) = sumNetGlobal c"
  by (simp_all add: churn_ops)

lemmas counters = request_counters batch_counters commit_counters error_counters

lemma counters_step:
  assumes "counters_at thr es (ex_churn x)" and "churn_step e x = Some x'" and "\<not> is_tick e"
  shows "counters_at thr (es @ [e]) (ex_churn x') \<and> x' = x\<lparr>ex_churn := ex_churn x'\<rparr>"
  using assms by (cases e) (auto simp: counters_at_def counters total_of_def)

lemma emit_frame [simp]:
  "ex_churn (emit stamp s t x) = ex_churn x" "currCfg (emit stamp s t x) = currCfg x"
  "exporterRunning (emit stamp s t x) = exporterRunning x" "windowPoints (emit stamp s t x) = windowPoints x"
  by (simp_all add: emit_def renderLive_def renderSimple_def print_def Let_def)

section \<open>Pruning\<close>

lemma prune_filter: "sorted (map pt_ts ps) \<Longrightarrow> prune w ps = filter (\<lambda>p. w \<le> pt_ts p) ps"
proof (induction w ps rule: prune.induct)
  case (2 w p ps)
  then show ?case
  proof (cases "pt_ts p < w")
    case False
    then have "\<forall>q \<in> set ps. w \<le> pt_ts q" using 2(2) by fastforce
    with False show ?thesis by simp
  qed simp
qed simp

lemma prune_twice:
  "w \<le> w' \<Longrightarrow> filter (\<lambda>p. w' \<le> pt_ts p) (filter (\<lambda>p. w \<le> pt_ts p) ps @ qs) = filter (\<lambda>p. w' \<le> pt_ts p) (ps @ qs)"
  by (simp add: conj_commute) (metis (no_types, lifting) filter_cong order_trans)

section \<open>Snapshots\<close>

definition window_calls :: "point \<Rightarrow> point \<Rightarrow> prom_call list" where
  "window_calls old pt =
     (let dNaive = pt_naive pt - pt_naive old; dCommits = pt_commits pt - pt_commits old;
          dAbs = pt_sumAbs pt - pt_sumAbs old; dNet = pt_sumNet pt - pt_sumNet old
      in [WriteReductionSet (f64 (1 - ratio dCommits (max64 1 dNaive))), ChurnRatioSet (ratio dAbs (max64 1 (abs64 dNet)))])"

lemma publish_outcome:
  assumes "0 <s TopN (currCfg x)" and "0 <s Window (currCfg x)" and "counters_at thr es (ex_churn x)"
    and "sorted (map pt_ts (windowPoints x))" and "\<forall>p \<in> set (windowPoints x). pt_ts p \<le> now"
  obtains x' tracked where "publishSnapshot now0 now stamp x = Some x'"
    and "windowPoints x' = filter (\<lambda>p. now - sint (Window (currCfg x)) \<le> pt_ts p) (windowPoints x @ [snapshot_point thr now es])"
    and "ex_churn x' = (ex_churn x)\<lparr>agg := filter (\<lambda>p. \<not> idle (word_of_int (now0 - sint (Window (currCfg x) * 2))) (snd p)) (agg (ex_churn x)),
      promCalls := promCalls (ex_churn x) @ KeysTrackedSet tracked # window_calls (hd (windowPoints x')) (snapshot_point thr now es)\<rparr>"
    and "currCfg x' = currCfg x" and "exporterRunning x' = exporterRunning x"
proof -
  let ?cfg = "currCfg x" and ?c = "ex_churn x" and ?pt = "snapshot_point thr now es"
  let ?w = "now - sint (Window ?cfg)"
  let ?cut = "word_of_int (now0 - sint (Window ?cfg * 2)) :: i64"
  obtain rows kept where rk: "snapshotRows ?cut (agg ?c) = (rows, kept)" by fastforce
  then have kept: "kept = filter (\<lambda>p. \<not> idle ?cut (snd p)) (agg ?c)" by (simp add: snapshotRows_def Let_def)
  have pt: "?pt = \<lparr>pt_ts = now, pt_naive = naiveWritesAll ?c, pt_commits = commitRowsInternal ?c,
      pt_sumAbs = sumAbsGlobal ?c, pt_sumNet = sumNetGlobal ?c\<rparr>"
    using assms(3) by (simp add: counters_at_def snapshot_point_def)
  have srt: "sorted (map pt_ts (windowPoints x @ [?pt]))" using assms(4,5) by (simp add: sorted_append snapshot_point_def)
  have pr: "prune ?w (windowPoints x @ [?pt]) = filter (\<lambda>p. ?w \<le> pt_ts p) (windowPoints x @ [?pt])" by (rule prune_filter [OF srt])
  have "?w \<le> pt_ts ?pt" using assms(2) by (simp add: snapshot_point_def slt_iff)
  then have "prune ?w (windowPoints x @ [?pt]) \<noteq> []" using pr by simp
  then obtain old rest where or: "prune ?w (windowPoints x @ [?pt]) = old # rest" by (meson neq_Nil_conv)
  have top: "\<not> TopN ?cfg <s 0" using assms(1) by (simp add: slt_iff)
  from that show thesis
    using rk kept pt pr or top
    by (simp add: publishSnapshot_def Let_def window_calls_def)
qed

section \<open>The window along a run\<close>

definition recent :: "i64 \<Rightarrow> u64 \<Rightarrow> churn_event list \<Rightarrow> point list" where
  "recent w thr es =
     (if tick_times es = [] then [] else filter (\<lambda>p. last (tick_times es) - sint w \<le> pt_ts p) (history thr [] es))"

definition window_inv :: "Config \<Rightarrow> u64 \<Rightarrow> churn_event list \<Rightarrow> exporter \<Rightarrow> bool" where
  "window_inv cfg thr es x \<longleftrightarrow>
     currCfg x = cfg \<and> exporterRunning x \<and> counters_at thr es (ex_churn x) \<and> windowPoints x = recent (Window cfg) thr es"

lemma recent_other: "\<not> is_tick e \<Longrightarrow> recent w thr (es @ [e]) = recent w thr es"
  by (cases e) (simp_all add: recent_def history_append)

lemma recent_tick:
  assumes "sorted (tick_times es @ [now])"
  shows "recent w thr (es @ [Tick now0 now stamp]) = filter (\<lambda>p. now - sint w \<le> pt_ts p) (recent w thr es @ [snapshot_point thr now es])"
proof (cases "tick_times es = []")
  case True
  then have "history thr [] es = []" using history_ts [of thr "[]" es] by simp
  with True show ?thesis by (simp add: recent_def history_append)
next
  case False
  then have "last (tick_times es) \<le> now" using assms by (simp add: sorted_append)
  then have "last (tick_times es) - sint w \<le> now - sint w" by simp
  from prune_twice [OF this, of "history thr [] es" "[snapshot_point thr now es]"] False show ?thesis
    by (simp add: recent_def history_append)
qed

lemma recent_sorted:
  assumes "sorted (tick_times es)"
  shows "sorted (map pt_ts (recent w thr es))" and "p \<in> set (recent w thr es) \<Longrightarrow> pt_ts p \<in> set (tick_times es)"
proof -
  have "sorted (map pt_ts (history thr [] es))" using assms by (simp add: history_ts)
  then show "sorted (map pt_ts (recent w thr es))" by (simp add: recent_def sorted_filter)
  show "p \<in> set (recent w thr es) \<Longrightarrow> pt_ts p \<in> set (tick_times es)"
    using history_ts [of thr "[]" es, symmetric] by (auto simp: recent_def split: if_splits)
qed

lemma window_step:
  assumes "window_inv cfg thr es x" and "sorted (tick_times (es @ [e]))" and "0 <s TopN cfg" and "0 <s Window cfg"
  shows "\<exists>x'. churn_step e x = Some x' \<and> window_inv cfg thr (es @ [e]) x'
    \<and> (\<forall>now0 now stamp. e = Tick now0 now stamp \<longrightarrow> (\<exists>tracked. promCalls (ex_churn x') =
      promCalls (ex_churn x) @ KeysTrackedSet tracked # window_calls (hd (recent (Window cfg) thr (es @ [e]))) (snapshot_point thr now es)))"
proof (cases "is_tick e")
  case False
  then obtain x' where x': "churn_step e x = Some x'" by (cases e) auto
  from counters_step [of thr es x e x'] False x' assms(1) recent_other [of e]
  have "window_inv cfg thr (es @ [e]) x'" by (cases x') (auto simp: window_inv_def)
  with x' False show ?thesis by auto
next
  case True
  then obtain now0 now stamp where e: "e = Tick now0 now stamp" by (cases e) auto
  have inv: "currCfg x = cfg" "exporterRunning x" "counters_at thr es (ex_churn x)" "windowPoints x = recent (Window cfg) thr es"
    using assms(1) by (simp_all add: window_inv_def)
  have srt: "sorted (tick_times es)" "\<forall>t \<in> set (tick_times es). t \<le> now" using assms(2) e by (simp_all add: sorted_append)
  have le: "\<forall>p \<in> set (windowPoints x). pt_ts p \<le> now" using recent_sorted(2) [OF srt(1)] srt(2) inv(4) by auto
  have srt': "sorted (map pt_ts (windowPoints x))" using recent_sorted(1) [OF srt(1)] inv(4) by simp
  obtain x' tracked where x': "publishSnapshot now0 now stamp x = Some x'"
    "windowPoints x' = filter (\<lambda>p. now - sint (Window (currCfg x)) \<le> pt_ts p) (windowPoints x @ [snapshot_point thr now es])"
    "ex_churn x' = (ex_churn x)\<lparr>agg := filter (\<lambda>p. \<not> idle (word_of_int (now0 - sint (Window (currCfg x) * 2))) (snd p)) (agg (ex_churn x)),
      promCalls := promCalls (ex_churn x) @ KeysTrackedSet tracked # window_calls (hd (windowPoints x')) (snapshot_point thr now es)\<rparr>"
    "currCfg x' = currCfg x" "exporterRunning x' = exporterRunning x"
    using publish_outcome [OF _ _ inv(3) srt' le] assms(3,4) inv(1) by metis
  have wp: "windowPoints x' = recent (Window cfg) thr (es @ [e])"
    using x'(2) recent_tick [of es now "Window cfg" thr now0 stamp] assms(2) e inv(1,4) by simp
  have "counters_at thr (es @ [e]) (ex_churn x')"
    using inv(3) x'(3) e by (simp add: counters_at_def total_of_def)
  then have "window_inv cfg thr (es @ [e]) x'" using wp x'(4,5) inv(1,2) by (simp add: window_inv_def)
  moreover have "promCalls (ex_churn x') =
      promCalls (ex_churn x) @ KeysTrackedSet tracked # window_calls (hd (recent (Window cfg) thr (es @ [e]))) (snapshot_point thr now es)"
    using x'(3) wp by simp
  ultimately show ?thesis using x'(1) e inv(2) by auto
qed

lemma churn_run_append: "churn_run (xs @ ys) x = (case churn_run xs x of None \<Rightarrow> None | Some x1 \<Rightarrow> churn_run ys x1)"
  by (induction xs arbitrary: x) (auto split: option.split)

lemma window_run:
  assumes "window_inv cfg thr [] x0" and "0 <s TopN cfg" and "0 <s Window cfg" and "sorted (tick_times es)"
  shows "\<exists>x. churn_run es x0 = Some x \<and> window_inv cfg thr es x"
  using assms(4)
proof (induction es rule: rev_induct)
  case (snoc e es)
  then obtain x where x: "churn_run es x0 = Some x" "window_inv cfg thr es x" by (auto simp: sorted_append)
  from window_step [OF x(2) snoc.prems assms(2,3)] obtain x' where "churn_step e x = Some x'" "window_inv cfg thr (es @ [e]) x'" by blast
  with x(1) show ?case by (auto simp: churn_run_append)
qed (use assms(1) in simp)

text \<open>A module that has recorded nothing yet.\<close>

definition fresh :: "exporter \<Rightarrow> bool" where
  "fresh x \<longleftrightarrow>
     windowPoints x = [] \<and> naiveWritesAll (ex_churn x) = 0 \<and> commitRowsInternal (ex_churn x) = 0
     \<and> sumAbsGlobal (ex_churn x) = 0 \<and> sumNetGlobal (ex_churn x) = 0"

lemma saneConfig_pos: "0 <s TopN (saneConfig cfg)" "0 <s Window (saneConfig cfg)"
  by (auto simp: saneConfig_def slt_iff sle_iff)

lemma Enable_inv:
  assumes "fresh x" and "Enabled cfg" and "0 <s LogInterval cfg"
  shows "window_inv (saneConfig cfg) (sampling_threshold (SampleRate (saneConfig cfg))) [] (Enable env goos cfg x)"
proof -
  have cfg: "Enabled (saneConfig cfg)" "\<not> LogInterval (saneConfig cfg) \<le>s 0"
    using assms(2,3) by (simp_all add: saneConfig_def sle_iff slt_iff)
  show ?thesis
    using assms(1) cfg
    by (simp add: Enable_def startOrUpdateExporter_def startMetricsEndpoint_def window_inv_def counters_at_def fresh_def
        recent_def total_of_def Let_def)
qed

section \<open>Properties\<close>

text \<open>
  C38. The rolling window is exact. Enable the module once, let any calls record requests and batches,
  and let its loop tick at times that never go back. No tick panics, and after the last one the pruned
  window is the list of all snapshots of the whole run that are no older than the configured window;
  the two gauges were set from the totals at the oldest of them and at this tick.
\<close>

theorem window_is_recent_history:
  assumes "fresh x0" and "Enabled cfg" and "0 <s LogInterval cfg" and "sorted (tick_times (es @ [Tick now0 now stamp]))"
    and "thr = sampling_threshold (SampleRate (saneConfig cfg))"
  shows "\<exists>x before. churn_run (es @ [Tick now0 now stamp]) (Enable env goos cfg x0) = Some x
    \<and> windowPoints x = filter (\<lambda>p. now - sint (Window (saneConfig cfg)) \<le> pt_ts p) (history thr [] (es @ [Tick now0 now stamp]))
    \<and> promCalls (ex_churn x) = before @ window_calls (hd (windowPoints x)) (snapshot_point thr now es)"
proof -
  let ?cfg = "saneConfig cfg"
  have "sorted (tick_times es)" using assms(4) by (simp add: sorted_append)
  from window_run [OF Enable_inv [OF assms(1-3), of env goos, folded assms(5)] saneConfig_pos this]
  obtain x1 where x1: "churn_run es (Enable env goos cfg x0) = Some x1" "window_inv ?cfg thr es x1" by blast
  from window_step [OF x1(2) assms(4) saneConfig_pos] obtain x where
    x: "churn_step (Tick now0 now stamp) x1 = Some x" "window_inv ?cfg thr (es @ [Tick now0 now stamp]) x"
      "\<exists>tracked. promCalls (ex_churn x) = promCalls (ex_churn x1) @ KeysTrackedSet tracked
        # window_calls (hd (recent (Window ?cfg) thr (es @ [Tick now0 now stamp]))) (snapshot_point thr now es)"
    by blast
  from x(3) have "\<exists>before. promCalls (ex_churn x) = before @ window_calls (hd (recent (Window ?cfg) thr (es @ [Tick now0 now stamp]))) (snapshot_point thr now es)"
    by (metis append.assoc append_Cons append_Nil)
  moreover have "churn_run (es @ [Tick now0 now stamp]) (Enable env goos cfg x0) = Some x" using x1(1) x(1) by (simp only: churn_run_append option.case churn_run.simps)
  moreover have "recent (Window ?cfg) thr (es @ [Tick now0 now stamp])
      = filter (\<lambda>p. now - sint (Window ?cfg) \<le> pt_ts p) (history thr [] (es @ [Tick now0 now stamp]))" by (simp add: recent_def)
  ultimately show ?thesis using x(2) by (auto simp: window_inv_def)
qed

definition example_config :: Config where
  "example_config =
     \<lparr>Enabled = True, SampleRate = 1, MetricsAddr = '''', LogInterval = 1, Window = 5, TopN = 1, KeyHashLen = 8\<rparr>"

definition example_calls :: "churn_event list" where
  "example_calls = [RequestSeen 1 ''a'' True, Tick 1 1 '''', RequestSeen 4 ''a'' True, Tick 4 4 '''', RequestSeen 5 ''a'' True]"

theorem window_is_recent_history_witness:
  "\<exists>x before. churn_run (example_calls @ [Tick 7 7 '''']) (Enable (\<lambda>_. '''') ''linux'' example_config zero_exporter) = Some x
    \<and> map pt_naive (windowPoints x) = [2, 3]
    \<and> promCalls (ex_churn x) = before @ [WriteReductionSet (f64 1), ChurnRatioSet (ratio 1 1)]"
proof -
  let ?thr = "sampling_threshold (SampleRate (saneConfig example_config))"
  have "fresh zero_exporter" "Enabled example_config" "0 <s LogInterval example_config" "sorted (tick_times (example_calls @ [Tick 7 7 '''']))"
    by code_simp+
  from window_is_recent_history [OF this refl, of "\<lambda>_. ''''" "''linux''"] obtain x before where
    x: "churn_run (example_calls @ [Tick 7 7 '''']) (Enable (\<lambda>_. '''') ''linux'' example_config zero_exporter) = Some x"
      "windowPoints x = filter (\<lambda>p. 7 - sint (Window (saneConfig example_config)) \<le> pt_ts p) (history ?thr [] (example_calls @ [Tick 7 7 '''']))"
      "promCalls (ex_churn x) = before @ window_calls (hd (windowPoints x)) (snapshot_point ?thr 7 example_calls)" by blast
  have w: "map pt_naive (filter (\<lambda>p. 7 - sint (Window (saneConfig example_config)) \<le> pt_ts p)
      (history ?thr [] (example_calls @ [Tick 7 7 '''']))) = [2, 3]"
    "window_calls (hd (filter (\<lambda>p. 7 - sint (Window (saneConfig example_config)) \<le> pt_ts p)
      (history ?thr [] (example_calls @ [Tick 7 7 ''''])))) (snapshot_point ?thr 7 example_calls) = [WriteReductionSet (f64 1), ChurnRatioSet (ratio 1 1)]"
    by code_simp+
  from x w show ?thesis by (intro exI [of _ x] exI [of _ before]) simp
qed

section \<open>Bounds\<close>

fun rows_of :: "churn_event list \<Rightarrow> int" where
  "rows_of [] = 0"
| "rows_of (e # es) = (case e of BatchSeen sz \<Rightarrow> max 0 (sint sz) | _ \<Rightarrow> 0) + rows_of es"

lemma rows_of_nonneg: "0 \<le> rows_of es"
  by (induction es) (auto split: churn_event.split)

lemma rows_of_append [simp]: "rows_of (xs @ ys) = rows_of xs + rows_of ys"
  by (induction xs) simp_all

lemma rows_total: "rows_of es < 2 ^ 63 \<Longrightarrow> sint (total_of (fst \<circ> snd) thr es) = rows_of es"
proof (induction es)
  case (Cons e es)
  let ?c = "fst (snd (event_totals thr e))"
  have c: "sint ?c = (case e of BatchSeen sz \<Rightarrow> max 0 (sint sz) | _ \<Rightarrow> 0)" by (cases e) (auto simp: slt_iff)
  then have nn: "0 \<le> sint ?c" by (auto split: churn_event.splits)
  have "rows_of (e # es) = sint ?c + rows_of es" by (simp add: c)
  with Cons nn rows_of_nonneg [of es] have "sint (total_of (fst \<circ> snd) thr es) = rows_of es" "fits (sint ?c + rows_of es)"
    by (simp_all add: fits_def o_def)
  then show ?case using sint_add_fits [of ?c "total_of (fst \<circ> snd) thr es"] c by (simp add: total_of_def)
qed (simp add: total_of_def)

lemma history_prefix:
  "p \<in> set (history thr pre es) \<Longrightarrow> \<exists>xs ys. es = xs @ ys \<and> p = snapshot_point thr (pt_ts p) (pre @ xs)"
proof (induction es arbitrary: pre)
  case (Cons e es)
  then consider "\<exists>t. p = snapshot_point thr t pre" | "p \<in> set (history thr (pre @ [e]) es)"
    by (auto split: churn_event.splits)
  then show ?case
  proof cases
    case 1
    then show ?thesis by (intro exI [of _ "[]"] exI [of _ "e # es"]) (auto simp: snapshot_point_def)
  next
    case 2
    from Cons.IH [OF this] obtain xs ys where "es = xs @ ys" "p = snapshot_point thr (pt_ts p) ((pre @ [e]) @ xs)" by blast
    then show ?thesis by (intro exI [of _ "e # xs"] exI [of _ ys]) simp
  qed
qed simp

lemma ratio_nonneg: "0 \<le> sint a \<Longrightarrow> 0 \<le> sint b \<Longrightarrow> 0 \<le> ratio a b"
  unfolding ratio_def f64_of_int_def by (intro f64_nonneg divide_nonneg_nonneg) (simp_all only: of_int_0_le_iff)

lemma window_calls_le_1:
  assumes "p \<in> set (history thr [] es)" and "rows_of es < 2 ^ 63" and "WriteReductionSet v \<in> set (window_calls p (snapshot_point thr now es))"
  shows "v \<le> 1"
proof -
  obtain xs ys where es: "es = xs @ ys" and p: "p = snapshot_point thr (pt_ts p) xs" using history_prefix [OF assms(1)] by auto
  have pc: "pt_commits p = total_of (fst \<circ> snd) thr xs" by (subst p) (simp add: snapshot_point_def)
  have "rows_of ys < 2 ^ 63" using assms(2) es rows_of_nonneg [of xs] by simp
  from rows_total [OF this, of thr] es pc rows_of_nonneg [of ys] have "0 \<le> sint (pt_commits (snapshot_point thr now es) - pt_commits p)"
    by (simp add: snapshot_point_def)
  moreover have "0 \<le> sint (max64 1 d)" for d by (simp add: max64_def slt_iff)
  ultimately show ?thesis using assms(3) by (auto simp: window_calls_def Let_def intro!: f64_le_1 ratio_nonneg)
qed

definition reductions :: "exporter \<Rightarrow> rat set" where
  "reductions x = {v. WriteReductionSet v \<in> set (promCalls (ex_churn x))}"

lemma snapshot_point_tick: "snapshot_point thr now (es @ [Tick now0 now' stamp]) = snapshot_point thr now es"
  by (simp add: snapshot_point_def total_of_def)

lemma reductions_record:
  assumes "churn_step e x = Some x'" and "\<not> is_tick e"
  shows "reductions x' = reductions x"
  using assms by (cases e) (auto simp: reductions_def churn_ops Let_def split: if_splits)

lemma reductions_step:
  assumes "window_inv cfg thr es x" and "sorted (tick_times (es @ [e]))" and "0 <s TopN cfg" and "0 <s Window cfg"
    and "rows_of (es @ [e]) < 2 ^ 63" and "\<forall>v \<in> reductions x. v \<le> 1"
  shows "\<exists>x'. churn_step e x = Some x' \<and> window_inv cfg thr (es @ [e]) x' \<and> (\<forall>v \<in> reductions x'. v \<le> 1)"
proof -
  obtain x' where x': "churn_step e x = Some x'" "window_inv cfg thr (es @ [e]) x'"
    and calls: "\<forall>now0 now stamp. e = Tick now0 now stamp \<longrightarrow> (\<exists>tracked. promCalls (ex_churn x') =
      promCalls (ex_churn x) @ KeysTrackedSet tracked # window_calls (hd (recent (Window cfg) thr (es @ [e]))) (snapshot_point thr now es))"
    using window_step [OF assms(1-4)] by blast
  show ?thesis
  proof (cases "is_tick e")
    case False
    then show ?thesis using x' reductions_record [OF x'(1)] assms(6) by auto
  next
    case True
    then obtain now0 now stamp where e: "e = Tick now0 now stamp" by (cases e) auto
    let ?p = "hd (recent (Window cfg) thr (es @ [e]))"
    have "snapshot_point thr now es \<in> set (recent (Window cfg) thr (es @ [e]))"
      using recent_tick [of es now "Window cfg" thr now0 stamp] assms(2,4) e by (simp add: snapshot_point_def slt_iff)
    then have "?p \<in> set (recent (Window cfg) thr (es @ [e]))" by (intro hd_in_set) auto
    then have p: "?p \<in> set (history thr [] (es @ [e]))" by (auto simp: recent_def split: if_splits)
    obtain tracked where pc: "promCalls (ex_churn x') = promCalls (ex_churn x) @ KeysTrackedSet tracked # window_calls ?p (snapshot_point thr now es)"
      using calls e by blast
    have "v \<le> 1" if "v \<in> reductions x'" for v
    proof (cases "v \<in> reductions x")
      case False
      with that pc have "WriteReductionSet v \<in> set (window_calls ?p (snapshot_point thr now (es @ [e])))"
        by (simp add: reductions_def e snapshot_point_tick)
      from window_calls_le_1 [OF p assms(5) this] show ?thesis .
    qed (use assms(6) in blast)
    with x' show ?thesis by blast
  qed
qed

text \<open>
  The reported write reduction never exceeds one. While the rows committed since the start fit 63
  bits, no tick panics and every value that the gauge was set to, rounded as float64 arithmetic rounds
  it, is at most one.
\<close>

theorem write_reduction_at_most_one:
  assumes "fresh x0" and "promCalls (ex_churn x0) = []" and "Enabled cfg" and "0 <s LogInterval cfg" and "sorted (tick_times es)"
    and "rows_of es < 2 ^ 63"
  shows "\<exists>x. churn_run es (Enable env goos cfg x0) = Some x \<and> (\<forall>v. WriteReductionSet v \<in> set (promCalls (ex_churn x)) \<longrightarrow> v \<le> 1)"
proof -
  let ?cfg = "saneConfig cfg" and ?thr = "sampling_threshold (SampleRate (saneConfig cfg))" and ?x = "Enable env goos cfg x0"
  have "reductions ?x = {}"
    using assms(2) by (simp add: reductions_def Enable_def startOrUpdateExporter_def startMetricsEndpoint_def Let_def)
  moreover note inv = Enable_inv [OF assms(1,3,4), of env goos]
  have "\<exists>x. churn_run es ?x = Some x \<and> window_inv ?cfg ?thr es x \<and> (\<forall>v \<in> reductions x. v \<le> 1)"
    using assms(5,6)
  proof (induction es rule: rev_induct)
    case (snoc e es)
    have "rows_of es < 2 ^ 63" using snoc.prems(2) rows_of_nonneg [of "[e]"] by simp
    with snoc obtain x where x: "churn_run es ?x = Some x" "window_inv ?cfg ?thr es x" "\<forall>v \<in> reductions x. v \<le> 1"
      by (auto simp: sorted_append)
    from reductions_step [OF x(2) snoc.prems(1) saneConfig_pos snoc.prems(2) x(3)] x(1) show ?case by (auto simp: churn_run_append)
  qed (use inv calculation in simp)
  then show ?thesis by (auto simp: reductions_def)
qed

theorem write_reduction_at_most_one_witness:
  "\<exists>x. churn_run [RequestSeen 1 ''a'' True, BatchSeen 2, Tick 1 1 ''''] (Enable (\<lambda>_. '''') ''linux'' example_config zero_exporter) = Some x
    \<and> (\<forall>v. WriteReductionSet v \<in> set (promCalls (ex_churn x)) \<longrightarrow> v \<le> 1)"
proof -
  have "fresh zero_exporter" "promCalls (ex_churn zero_exporter) = []" "Enabled example_config" "0 <s LogInterval example_config"
    "sorted (tick_times [RequestSeen 1 ''a'' True, BatchSeen 2, Tick 1 1 ''''])"
    "rows_of [RequestSeen 1 ''a'' True, BatchSeen 2, Tick 1 1 ''''] < 2 ^ 63" by code_simp+
  from write_reduction_at_most_one [OF this] show ?thesis .
qed

end
