(* ===== verification/JSON.thy ===== *)
theory JSON
  imports HTTP
begin

text \<open>
  encoding/json as the log files and the handlers use it: the scanner, which validates a text one
  byte at a time with a stack of open containers, and the printing of values. Strings keep their
  escapes; they are only decoded when a key is compared with a field name.
\<close>

section \<open>Values\<close>

datatype json =
    JNull
  | JBool bool
  | JNum string
  | JStr string
  | JArr "json list"
  | JObj "(string \<times> json) list"

fun join_comma :: "string list \<Rightarrow> string" where
  "join_comma [] = []"
| "join_comma [x] = x"
| "join_comma (x # xs) = x @ CHR '','' # join_comma xs"

fun show_json :: "json \<Rightarrow> string" where
  "show_json JNull = ''null''"
| "show_json (JBool b) = (if b then ''true'' else ''false'')"
| "show_json (JNum lit) = lit"
| "show_json (JStr s) = CHR 0x22 # s @ [CHR 0x22]"
| "show_json (JArr vs) = CHR ''['' # join_comma (map show_json vs) @ '']''"
| "show_json (JObj ms) =
     CHR ''{'' # join_comma (map (\<lambda>(k, v). CHR 0x22 # k @ CHR 0x22 # CHR '':'' # show_json v) ms) @ ''}''"

section \<open>The scanner\<close>

datatype frame =
    InArr "json list"
  | InKey "(string \<times> json) list"
  | InVal "(string \<times> json) list" string

datatype scan_mode =
    BeginValue | BeginValueOrEmpty | BeginString | BeginStringOrEmpty
  | InStr string | InStrEsc string | InStrEscU string nat
  | AfterKey string
  | Neg string | Zero string | Digits string | Dot string | Dot0 string
  | Exp string | ExpSign string | Exp0 string
  | Lit string json
  | EndArr | EndObj
  | Done json
  | ScanError

type_synonym scan_state = "scan_mode \<times> frame list"

definition is_space :: "char \<Rightarrow> bool" where
  "is_space c \<longleftrightarrow> c = CHR '' '' \<or> c = CHR 0x09 \<or> c = CHR 0x0A \<or> c = CHR 0x0D"

definition is_hex :: "char \<Rightarrow> bool" where
  "is_hex c \<longleftrightarrow> (let n = of_char c :: nat in 48 \<le> n \<and> n \<le> 57 \<or> 65 \<le> n \<and> n \<le> 70 \<or> 97 \<le> n \<and> n \<le> 102)"

definition maxNestingDepth :: nat where
  "maxNestingDepth = 10000"

definition push :: "scan_mode \<Rightarrow> frame \<Rightarrow> frame list \<Rightarrow> scan_state" where
  "push m f st = (if length st < maxNestingDepth then (m, f # st) else (ScanError, []))"

text \<open>A complete value is handed to the container it stands in.\<close>

fun finish :: "json \<Rightarrow> frame list \<Rightarrow> scan_state" where
  "finish v [] = (Done v, [])"
| "finish v (InArr vs # st) = (EndArr, InArr (vs @ [v]) # st)"
| "finish v (InVal ms k # st) = (EndObj, InKey (ms @ [(k, v)]) # st)"
| "finish v (InKey ms # st) = (ScanError, [])"

definition begin_value :: "char \<Rightarrow> frame list \<Rightarrow> scan_state" where
  "begin_value c st =
     (if is_space c then (BeginValue, st)
      else if c = CHR ''{'' then push BeginStringOrEmpty (InKey []) st
      else if c = CHR ''['' then push BeginValueOrEmpty (InArr []) st
      else if c = CHR 0x22 then (InStr [], st)
      else if c = CHR ''-'' then (Neg [c], st)
      else if c = CHR ''0'' then (Zero [c], st)
      else if is_digit c then (Digits [c], st)
      else if c = CHR ''t'' then (Lit ''rue'' (JBool True), st)
      else if c = CHR ''f'' then (Lit ''alse'' (JBool False), st)
      else if c = CHR ''n'' then (Lit ''ull'' JNull, st)
      else (ScanError, []))"

definition begin_string :: "char \<Rightarrow> frame list \<Rightarrow> scan_state" where
  "begin_string c st =
     (if is_space c then (BeginString, st) else if c = CHR 0x22 then (InStr [], st) else (ScanError, []))"

fun step_end :: "scan_state \<Rightarrow> char \<Rightarrow> scan_state" where
  "step_end (Done v, st) c = (if is_space c then (Done v, st) else (ScanError, []))"
| "step_end (EndArr, InArr vs # st) c =
     (if is_space c then (EndArr, InArr vs # st)
      else if c = CHR '','' then (BeginValue, InArr vs # st)
      else if c = CHR '']'' then finish (JArr vs) st
      else (ScanError, []))"
| "step_end (EndObj, InKey ms # st) c =
     (if is_space c then (EndObj, InKey ms # st)
      else if c = CHR '','' then (BeginString, InKey ms # st)
      else if c = CHR ''}'' then finish (JObj ms) st
      else (ScanError, []))"
| "step_end _ c = (ScanError, [])"

definition end_string :: "string \<Rightarrow> frame list \<Rightarrow> scan_state" where
  "end_string s st = (case st of InKey ms # st' \<Rightarrow> (AfterKey s, st) | _ \<Rightarrow> finish (JStr s) st)"

definition exponent :: "char \<Rightarrow> bool" where
  "exponent c \<longleftrightarrow> c = CHR ''e'' \<or> c = CHR ''E''"

fun step :: "scan_state \<Rightarrow> char \<Rightarrow> scan_state" where
  "step (BeginValue, st) c = begin_value c st"
| "step (BeginValueOrEmpty, st) c =
     (if is_space c then (BeginValueOrEmpty, st)
      else case st of InArr vs # st' \<Rightarrow> if c = CHR '']'' then finish (JArr vs) st' else begin_value c st
           | _ \<Rightarrow> (ScanError, []))"
| "step (BeginString, st) c = begin_string c st"
| "step (BeginStringOrEmpty, st) c =
     (if is_space c then (BeginStringOrEmpty, st)
      else case st of InKey ms # st' \<Rightarrow> if c = CHR ''}'' then finish (JObj ms) st' else begin_string c st
           | _ \<Rightarrow> (ScanError, []))"
| "step (InStr s, st) c =
     (if c = CHR 0x22 then end_string s st
      else if c = CHR 0x5C then (InStrEsc (s @ [c]), st)
      else if (of_char c :: nat) < 32 then (ScanError, [])
      else (InStr (s @ [c]), st))"
| "step (InStrEsc s, st) c =
     (if c \<in> set [CHR ''b'', CHR ''f'', CHR ''n'', CHR ''r'', CHR ''t'', CHR 0x5C, CHR ''/'', CHR 0x22]
      then (InStr (s @ [c]), st)
      else if c = CHR ''u'' then (InStrEscU (s @ [c]) 4, st)
      else (ScanError, []))"
| "step (InStrEscU s n, st) c =
     (if is_hex c then (if n \<le> 1 then InStr (s @ [c]) else InStrEscU (s @ [c]) (n - 1), st) else (ScanError, []))"
| "step (AfterKey k, st) c =
     (if is_space c then (AfterKey k, st)
      else case st of InKey ms # st' \<Rightarrow> if c = CHR '':'' then (BeginValue, InVal ms k # st') else (ScanError, [])
           | _ \<Rightarrow> (ScanError, []))"
| "step (Neg s, st) c =
     (if c = CHR ''0'' then (Zero (s @ [c]), st) else if is_digit c then (Digits (s @ [c]), st) else (ScanError, []))"
| "step (Digits s, st) c =
     (if is_digit c then (Digits (s @ [c]), st)
      else if c = CHR ''.'' then (Dot (s @ [c]), st)
      else if exponent c then (Exp (s @ [c]), st)
      else step_end (finish (JNum s) st) c)"
| "step (Zero s, st) c =
     (if c = CHR ''.'' then (Dot (s @ [c]), st)
      else if exponent c then (Exp (s @ [c]), st)
      else step_end (finish (JNum s) st) c)"
| "step (Dot s, st) c = (if is_digit c then (Dot0 (s @ [c]), st) else (ScanError, []))"
| "step (Dot0 s, st) c =
     (if is_digit c then (Dot0 (s @ [c]), st)
      else if exponent c then (Exp (s @ [c]), st)
      else step_end (finish (JNum s) st) c)"
| "step (Exp s, st) c =
     (if c = CHR ''+'' \<or> c = CHR ''-'' then (ExpSign (s @ [c]), st)
      else if is_digit c then (Exp0 (s @ [c]), st) else (ScanError, []))"
| "step (ExpSign s, st) c = (if is_digit c then (Exp0 (s @ [c]), st) else (ScanError, []))"
| "step (Exp0 s, st) c =
     (if is_digit c then (Exp0 (s @ [c]), st) else step_end (finish (JNum s) st) c)"
| "step (Lit rest v, st) c =
     (case rest of
        [] \<Rightarrow> (ScanError, [])
      | r # rs \<Rightarrow> if c \<noteq> r then (ScanError, []) else if rs = [] then finish v st else (Lit rs v, st))"
| "step (EndArr, st) c = step_end (EndArr, st) c"
| "step (EndObj, st) c = step_end (EndObj, st) c"
| "step (Done v, st) c = step_end (Done v, st) c"
| "step (ScanError, st) c = (ScanError, [])"

definition scan :: "string \<Rightarrow> scan_state" where
  "scan s = foldl step (BeginValue, []) s"

text \<open>The end of the input counts as a space.\<close>

definition parse_json :: "string \<Rightarrow> json option" where
  "parse_json s = (case step (scan s) (CHR '' '') of (Done v, _) \<Rightarrow> Some v | _ \<Rightarrow> None)"

section \<open>Field names\<close>

text \<open>
  Keys are decoded and compared with field names up to the case folding of encoding/json, which also
  folds the Kelvin sign and the long s. Surrogates, which occur in no field name, are left as the
  bytes of the replacement character.
\<close>

definition hex_value :: "char \<Rightarrow> nat" where
  "hex_value c = (let n = of_char c :: nat in if n \<le> 57 then n - 48 else if n \<le> 70 then n - 55 else n - 87)"

definition utf8_encode :: "nat \<Rightarrow> string" where
  "utf8_encode n =
     (if n < 128 then [char_of n]
      else if n < 2048 then [char_of (192 + n div 64), char_of (128 + n mod 64)]
      else if 55296 \<le> n \<and> n < 57344 then [CHR 0xEF, CHR 0xBF, CHR 0xBD]
      else [char_of (224 + n div 4096), char_of (128 + n div 64 mod 64), char_of (128 + n mod 64)])"

definition unescape :: "char \<Rightarrow> char" where
  "unescape c =
     (if c = CHR ''b'' then CHR 0x08 else if c = CHR ''f'' then CHR 0x0C else if c = CHR ''n'' then CHR 0x0A
      else if c = CHR ''r'' then CHR 0x0D else if c = CHR ''t'' then CHR 0x09 else c)"

fun unquote :: "string \<Rightarrow> string" where
  "unquote (c # d # a # b # e # f # s) =
     (if c = CHR 0x5C then
        if d = CHR ''u''
        then utf8_encode (((hex_value a * 16 + hex_value b) * 16 + hex_value e) * 16 + hex_value f) @ unquote s
        else unescape d # unquote (a # b # e # f # s)
      else c # unquote (d # a # b # e # f # s))"
| "unquote (c # d # s) = (if c = CHR 0x5C then unescape d # unquote s else c # unquote (d # s))"
| "unquote s = s"

definition upper_ascii :: "char \<Rightarrow> char" where
  "upper_ascii c = (let n = of_char c :: nat in if 97 \<le> n \<and> n \<le> 122 then char_of (n - 32) else c)"

fun fold_name :: "string \<Rightarrow> string" where
  "fold_name (c # d # e # s) =
     (if [c, d, e] = [CHR 0xE2, CHR 0x84, CHR 0xAA] then CHR ''K'' # fold_name s
      else if [c, d] = [CHR 0xC5, CHR 0xBF] then CHR ''S'' # fold_name (e # s)
      else upper_ascii c # fold_name (d # e # s))"
| "fold_name [c, d] = (if [c, d] = [CHR 0xC5, CHR 0xBF] then ''S'' else [upper_ascii c, upper_ascii d])"
| "fold_name [c] = [upper_ascii c]"
| "fold_name [] = []"

definition field_is :: "string \<Rightarrow> string \<Rightarrow> bool" where
  "field_is name key \<longleftrightarrow> fold_name (unquote key) = fold_name name"

section \<open>Decoding into fields\<close>

text \<open>A field keeps its value on null; \<open>None\<close> is a type error.\<close>

definition dec_u64 :: "json \<Rightarrow> u64 \<Rightarrow> u64 option" where
  "dec_u64 v old = (case v of JNum lit \<Rightarrow> ParseUint lit | JNull \<Rightarrow> Some old | _ \<Rightarrow> None)"

definition dec_i64 :: "json \<Rightarrow> i64 \<Rightarrow> i64 option" where
  "dec_i64 v old = (case v of JNum lit \<Rightarrow> ParseInt lit | JNull \<Rightarrow> Some old | _ \<Rightarrow> None)"

definition dec_u8 :: "json \<Rightarrow> u8 \<Rightarrow> u8 option" where
  "dec_u8 v old =
     (case v of
        JNum lit \<Rightarrow> (case ParseUint lit of None \<Rightarrow> None | Some x \<Rightarrow> if unat x < 256 then Some (word_of_nat (unat x)) else None)
      | JNull \<Rightarrow> Some old
      | _ \<Rightarrow> None)"

definition dec_bool :: "json \<Rightarrow> bool \<Rightarrow> bool option" where
  "dec_bool v old = (case v of JBool b \<Rightarrow> Some b | JNull \<Rightarrow> Some old | _ \<Rightarrow> None)"

text \<open>A fixed-size byte array: surplus elements are skipped, missing ones become zero.\<close>

fun dec_elems :: "json list \<Rightarrow> u8 list \<Rightarrow> u8 list option" where
  "dec_elems [] old = Some (map (\<lambda>_. 0) old)"
| "dec_elems vs [] = Some []"
| "dec_elems (v # vs) (x # old) =
     (case dec_u8 v x of None \<Rightarrow> None | Some y \<Rightarrow> map_option ((#) y) (dec_elems vs old))"

definition dec_bytes :: "json \<Rightarrow> u8 list \<Rightarrow> u8 list option" where
  "dec_bytes v old = (case v of JArr vs \<Rightarrow> dec_elems vs old | JNull \<Rightarrow> Some old | _ \<Rightarrow> None)"

fun dec_members :: "(string \<Rightarrow> json \<Rightarrow> 'a \<Rightarrow> 'a option) \<Rightarrow> (string \<times> json) list \<Rightarrow> 'a \<Rightarrow> 'a option" where
  "dec_members field [] x = Some x"
| "dec_members field ((k, v) # ms) x =
     (case field k v x of None \<Rightarrow> None | Some y \<Rightarrow> dec_members field ms y)"

definition dec_struct :: "(string \<Rightarrow> json \<Rightarrow> 'a \<Rightarrow> 'a option) \<Rightarrow> json \<Rightarrow> 'a \<Rightarrow> 'a option" where
  "dec_struct field v x = (case v of JObj ms \<Rightarrow> dec_members field ms x | JNull \<Rightarrow> Some x | _ \<Rightarrow> None)"

definition Unmarshal :: "(string \<Rightarrow> json \<Rightarrow> 'a \<Rightarrow> 'a option) \<Rightarrow> 'a \<Rightarrow> string \<Rightarrow> 'a option" where
  "Unmarshal field zero s = (case parse_json s of None \<Rightarrow> None | Some v \<Rightarrow> dec_struct field v zero)"

section \<open>Scanning printed values\<close>

definition num_char :: "char \<Rightarrow> bool" where
  "num_char c \<longleftrightarrow> is_digit c \<or> c = CHR ''.'' \<or> exponent c"

definition opens_value :: "char \<Rightarrow> bool" where
  "opens_value c \<longleftrightarrow> c \<noteq> CHR '']'' \<and> \<not> is_space c"

text \<open>Where a value may stand: not in the place of a key.\<close>

fun value_place :: "frame list \<Rightarrow> bool" where
  "value_place (InKey ms # st) = False"
| "value_place st = True"

text \<open>
  A value of nesting depth \<open>d\<close> that the scanner reads back: in any context with room for it, its
  text and the character after it lead to where the complete value and that character lead.
\<close>

definition scans :: "nat \<Rightarrow> json \<Rightarrow> bool" where
  "scans d v \<longleftrightarrow>
     show_json v \<noteq> [] \<and> opens_value (hd (show_json v))
     \<and> (\<forall>st c. value_place st \<longrightarrow> length st + d \<le> maxNestingDepth \<longrightarrow> \<not> num_char c \<longrightarrow>
          foldl step (BeginValue, st) (show_json v @ [c]) = step_end (finish v st) c)"

lemma scansD:
  "scans d v \<Longrightarrow> length st + d \<le> maxNestingDepth \<Longrightarrow> \<not> num_char c \<Longrightarrow> value_place st \<Longrightarrow>
     foldl step (BeginValue, st) (show_json v @ c # rest) = foldl step (step_end (finish v st) c) rest"
  using foldl_append [of step "(BeginValue, st)" "show_json v @ [c]" rest] by (simp add: scans_def)

lemma scans_mono: "scans d v \<Longrightarrow> d \<le> d' \<Longrightarrow> scans d' v"
  by (simp add: scans_def)

lemma step_finish [simp]: "step (finish v st) c = step_end (finish v st) c"
  by (induction v st rule: finish.induct) simp_all

lemma delimiters [simp]:
  "\<not> num_char (CHR '','')" "\<not> num_char (CHR '']'')" "\<not> num_char (CHR ''}'')" "\<not> num_char (CHR '' '')"
  "\<not> is_space (CHR '','')" "\<not> is_space (CHR '']'')" "\<not> is_space (CHR ''}'')" "\<not> is_space (CHR ''{'')"
  "\<not> is_space (CHR ''['')" "\<not> is_space (CHR 0x22)" "\<not> is_space (CHR '':'')" "is_space (CHR '' '')"
  by (simp_all add: num_char_def exponent_def is_digit_def digit_value_def is_space_def)

lemma is_digit_range: "is_digit c \<longleftrightarrow> 48 \<le> (of_char c :: nat) \<and> (of_char c :: nat) \<le> 57"
  by (simp add: is_digit_def digit_value_def Let_def)

lemma digit_not_special:
  assumes "is_digit c"
  shows "\<not> is_space c" "c \<noteq> CHR ''{''" "c \<noteq> CHR ''[''" "c \<noteq> CHR '']''" "c \<noteq> CHR 0x22" "c \<noteq> CHR ''-''"
  using assms by (auto simp: is_digit_range is_space_def)

subsection \<open>Literals\<close>

lemma scan_digits:
  "\<forall>c \<in> set ds. is_digit c \<Longrightarrow> foldl step (Digits s, st) ds = (Digits (s @ ds), st)"
  by (induction ds arbitrary: s) simp_all

text \<open>Printed naturals start with a zero only if they are zero.\<close>

lemma nat_digits_leading: "0 < n \<Longrightarrow> hd (nat_digits n) \<noteq> CHR ''0''"
proof (induction n rule: nat_digits.induct)
  case (1 n)
  show ?case
  proof (cases "n < 10")
    case True
    have "char_of (48 + n) \<noteq> CHR ''0''"
    proof
      assume "char_of (48 + n) = CHR ''0''"
      then have "(of_char (char_of (48 + n) :: char) :: nat) = of_char (CHR ''0'')" by (rule arg_cong)
      then show False using True \<open>0 < n\<close> by simp
    qed
    then show ?thesis using True by (subst nat_digits.simps) simp
  next
    case False
    then show ?thesis using 1 by (subst nat_digits.simps) (simp add: hd_append)
  qed
qed

lemma nat_digits_0: "nat_digits 0 = ''0''"
  by code_simp

lemma scan_nat:
  "foldl step (step (BeginValue, st) (hd (nat_digits n))) (tl (nat_digits n)) =
     (if n = 0 then (Zero ''0'', st) else (Digits (nat_digits n), st))"
proof -
  obtain d ds where ds: "nat_digits n = d # ds" by (cases "nat_digits n") auto
  have dig: "is_digit d" "\<forall>c \<in> set ds. is_digit c" using nat_digits_all_digits [of _ n] ds by auto
  show ?thesis
  proof (cases "n = 0")
    case True
    then show ?thesis by (simp add: nat_digits_0 begin_value_def is_space_def)
  next
    case False
    then have "d \<noteq> CHR ''0''" using nat_digits_leading [of n] ds by simp
    then have "step (BeginValue, st) d = (Digits [d], st)"
      using dig(1) digit_not_special [of d] by (simp add: begin_value_def)
    then show ?thesis using False ds scan_digits [OF dig(2), of "[d]"] by simp
  qed
qed

lemma step_number_end:
  "\<not> num_char c \<Longrightarrow> step (Zero s, st) c = step_end (finish (JNum s) st) c"
  "\<not> num_char c \<Longrightarrow> step (Digits s, st) c = step_end (finish (JNum s) st) c"
  by (simp_all add: num_char_def)

lemma scans_nat: "scans 0 (JNum (nat_digits n))"
  unfolding scans_def
proof (intro conjI allI impI)
  obtain d ds where ds: "nat_digits n = d # ds" by (cases "nat_digits n") auto
  have "is_digit d" using nat_digits_all_digits [of d n] ds by simp
  then show "opens_value (hd (show_json (JNum (nat_digits n))))"
    using digit_not_special [of d] ds by (simp add: opens_value_def)
  fix st c
  assume "\<not> num_char c"
  then show "foldl step (BeginValue, st) (show_json (JNum (nat_digits n)) @ [c]) = step_end (finish (JNum (nat_digits n)) st) c"
    using scan_nat [of st n] ds step_number_end [of c]
    by (cases "n = 0") (simp_all add: nat_digits_0)
qed simp

lemma scans_int: "scans 0 (JNum (sprintf_d x))"
proof (cases "sint x < 0")
  case True
  let ?n = "nat (- sint x)"
  obtain d ds where ds: "nat_digits ?n = d # ds" by (cases "nat_digits ?n") auto
  have dig: "is_digit d" "\<forall>c \<in> set ds. is_digit c" using nat_digits_all_digits [of _ ?n] ds by auto
  have "d \<noteq> CHR ''0''" using nat_digits_leading [of ?n] ds True by simp
  have s: "sprintf_d x = CHR ''-'' # d # ds" using True ds by (simp add: sprintf_d_def)
  have "opens_value (CHR ''-'')" by (simp add: opens_value_def is_space_def)
  moreover have "foldl step (BeginValue, st) (sprintf_d x @ [c]) = step_end (finish (JNum (sprintf_d x)) st) c"
    if "\<not> num_char c" for st c
  proof -
    have "step (BeginValue, st) (CHR ''-'') = (Neg ''-'', st)"
      by (simp add: begin_value_def is_space_def is_digit_def digit_value_def)
    moreover have "step (Neg ''-'', st) d = (Digits [CHR ''-'', d], st)" using dig(1) \<open>d \<noteq> CHR ''0''\<close> by simp
    ultimately show ?thesis
      using scan_digits [OF dig(2), of "[CHR ''-'', d]" st] step_number_end(2) [OF that] s by simp
  qed
  ultimately show ?thesis using s by (simp add: scans_def)
next
  case False
  then show ?thesis using scans_nat by (simp add: sprintf_d_def)
qed

lemma scans_bool: "scans 0 (JBool b)"
  by (cases b) (simp_all add: scans_def opens_value_def is_space_def begin_value_def is_digit_def digit_value_def)

subsection \<open>Arrays and objects\<close>

lemma step_open: "opens_value c \<Longrightarrow> step (BeginValueOrEmpty, InArr vs # st) c = step (BeginValue, InArr vs # st) c"
  by (simp add: opens_value_def begin_value_def)

lemma join_comma_Cons: "xs \<noteq> [] \<Longrightarrow> join_comma (x # xs) = x @ CHR '','' # join_comma xs"
  by (cases xs) simp_all

lemma scan_elems:
  assumes "vs \<noteq> []" and "\<forall>v \<in> set vs. scans d v" and "length st + Suc d \<le> maxNestingDepth"
  shows "foldl step (BeginValue, InArr us # st) (join_comma (map show_json vs) @ '']'') = finish (JArr (us @ vs)) st"
  using assms(1,2)
proof (induction vs arbitrary: us)
  case (Cons v vs)
  have v: "scans d v" "length (InArr us # st) + d \<le> maxNestingDepth" using Cons.prems assms(3) by simp_all
  show ?case
  proof (cases "vs = []")
    case True
    then show ?thesis using scansD [OF v, of "CHR '']''" "[]"] by simp
  next
    case False
    then show ?thesis
      using Cons scansD [OF v, of "CHR '',''" "join_comma (map show_json vs) @ '']''"]
      by (simp add: join_comma_Cons)
  qed
qed simp

lemma scans_arr:
  assumes "\<forall>v \<in> set vs. scans d v"
  shows "scans (Suc d) (JArr vs)"
proof -
  have "foldl step (BeginValue, st) (show_json (JArr vs)) = finish (JArr vs) st" if "length st + Suc d \<le> maxNestingDepth" for st
  proof -
    have open_: "step (BeginValue, st) (CHR ''['') = (BeginValueOrEmpty, InArr [] # st)"
      using that by (simp add: begin_value_def push_def)
    show ?thesis
    proof (cases "vs = []")
      case True
      then show ?thesis using open_ by simp
    next
      case False
      then obtain v vs' where vs: "vs = v # vs'" by (cases vs) auto
      then have "scans d v" using assms by simp
      then obtain c cs where c: "show_json v = c # cs" "opens_value c" by (cases "show_json v") (auto simp: scans_def)
      then obtain cs' where "join_comma (map show_json vs) = c # cs'" using vs by (cases vs') auto
      then show ?thesis
        using open_ scan_elems [OF False assms that, of "[]"] step_open [OF c(2), of "[]" st] by simp
    qed
  qed
  then show ?thesis by (simp add: scans_def opens_value_def foldl_append)
qed

definition plain_key :: "string \<Rightarrow> bool" where
  "plain_key k \<longleftrightarrow> (\<forall>c \<in> set k. c \<noteq> CHR 0x22 \<and> c \<noteq> CHR 0x5C \<and> 32 \<le> (of_char c :: nat))"

lemma scan_plain: "plain_key k \<Longrightarrow> foldl step (InStr s, st) k = (InStr (s @ k), st)"
  by (induction k arbitrary: s) (simp_all add: plain_key_def)

lemma scan_key:
  assumes "plain_key k" and "m = BeginString \<or> m = BeginStringOrEmpty"
  shows "foldl step (m, InKey ms # st) (CHR 0x22 # k @ CHR 0x22 # CHR '':'' # rest) =
    foldl step (BeginValue, InVal ms k # st) rest"
  using assms(2) by (auto simp: begin_string_def scan_plain [OF assms(1)] end_string_def)

abbreviation show_member :: "string \<times> json \<Rightarrow> string" where
  "show_member \<equiv> \<lambda>(k, v). CHR 0x22 # k @ CHR 0x22 # CHR '':'' # show_json v"

lemma scan_members:
  assumes "ms \<noteq> []" and "\<forall>(k, v) \<in> set ms. plain_key k \<and> scans d v" and "length st + Suc d \<le> maxNestingDepth"
    and "m = BeginString \<or> m = BeginStringOrEmpty"
  shows "foldl step (m, InKey us # st) (join_comma (map show_member ms) @ ''}'') = finish (JObj (us @ ms)) st"
  using assms(1,2,4)
proof (induction ms arbitrary: us m)
  case (Cons x ms)
  obtain k v where x: "x = (k, v)" by (cases x)
  have k: "plain_key k" and v: "scans d v" "length (InVal us k # st) + d \<le> maxNestingDepth"
    using Cons.prems assms(3) x by simp_all
  show ?case
  proof (cases "ms = []")
    case True
    then show ?thesis
      using scan_key [OF k Cons.prems(3), of us st "show_json v @ ''}''"] scansD [OF v, of "CHR ''}''" "[]"] x by simp
  next
    case False
    then show ?thesis
      using Cons.IH [of BeginString "us @ [(k, v)]"] Cons.prems(2) x
        scan_key [OF k Cons.prems(3), of us st "show_json v @ CHR '','' # join_comma (map show_member ms) @ ''}''"]
        scansD [OF v, of "CHR '',''" "join_comma (map show_member ms) @ ''}''"]
      by (simp add: join_comma_Cons)
  qed
qed simp

lemma scans_obj:
  assumes "\<forall>(k, v) \<in> set ms. plain_key k \<and> scans d v"
  shows "scans (Suc d) (JObj ms)"
proof -
  have "foldl step (BeginValue, st) (show_json (JObj ms)) = finish (JObj ms) st" if "length st + Suc d \<le> maxNestingDepth" for st
  proof -
    have open_: "step (BeginValue, st) (CHR ''{'') = (BeginStringOrEmpty, InKey [] # st)"
      using that by (simp add: begin_value_def push_def)
    show ?thesis
    proof (cases "ms = []")
      case True
      then show ?thesis using open_ by simp
    next
      case False
      from scan_members [OF False assms that, of BeginStringOrEmpty "[]"] open_ show ?thesis by simp
    qed
  qed
  then show ?thesis by (simp add: scans_def opens_value_def foldl_append)
qed

text \<open>Printing and parsing.\<close>

theorem parse_show: "scans d v \<Longrightarrow> d \<le> maxNestingDepth \<Longrightarrow> parse_json (show_json v) = Some v"
  using scansD [of d v "[]" "CHR '' ''" "[]"] by (simp add: parse_json_def scan_def foldl_append)

section \<open>Incomplete texts\<close>

text \<open>
  Inside a container, the scanner stays there until the container is closed; after the outermost one
  only spaces are accepted. So no proper prefix of the text of an object is a text.
\<close>

fun nested :: "scan_state \<Rightarrow> bool" where
  "nested (Done v, st) = True"
| "nested (ScanError, st) = True"
| "nested (m, st) = (st \<noteq> [])"

lemma nested_finish [simp]: "nested (finish v st)"
  by (induction v st rule: finish.induct) simp_all

lemma nested_step_end [simp]: "nested (step_end s c)"
  by (induction s c rule: step_end.induct) simp_all

lemma nested_iff: "nested (m, st) \<longleftrightarrow> st \<noteq> [] \<or> (\<exists>v. m = Done v) \<or> m = ScanError"
  by (cases m) simp_all

lemma nested_step:
  assumes "nested s"
  shows "nested (step s c)"
proof (cases s)
  case (Pair m st)
  have "st \<noteq> [] \<Longrightarrow> nested (begin_value c st)" "st \<noteq> [] \<Longrightarrow> nested (begin_string c st)"
    by (simp_all add: begin_value_def begin_string_def push_def)
  then show ?thesis
    using assms Pair by (cases m; cases st) (auto simp: end_string_def nested_iff split: frame.split list.split)
qed

lemma finish_not_done: "st \<noteq> [] \<Longrightarrow> finish v st \<noteq> (Done w, st')"
  by (induction v st rule: finish.induct) simp_all

lemma step_end_space: "step_end s (CHR '' '') = (Done v, st) \<Longrightarrow> s = (Done v, st)"
  by (cases "(s, CHR '' '')" rule: step_end.cases) (auto split: if_splits)

lemma nested_eof:
  assumes "nested s" and "step s (CHR '' '') = (Done v, st')"
  shows "s = (Done v, st')"
proof (cases s)
  case (Pair m st)
  have "is_digit (CHR '' '') = False" "exponent (CHR '' '') = False" "is_hex (CHR '' '') = False"
    by (simp_all add: is_digit_def digit_value_def exponent_def is_hex_def)
  note sp = this begin_value_def begin_string_def push_def end_string_def finish_not_done
  show ?thesis
  proof (cases "st = []")
    case True
    then show ?thesis using assms Pair by (cases m) (auto dest: step_end_space)
  next
    case False
    then show ?thesis
      using assms Pair sp by (cases m) (auto dest!: step_end_space split: if_splits list.splits frame.splits)
  qed
qed

lemma done_then_spaces: "foldl step (Done v, st) q = (Done w, st') \<Longrightarrow> \<forall>c \<in> set q. is_space c"
proof (induction q)
  case (Cons c q)
  have "foldl step (ScanError, []) q = (ScanError, [])" by (induction q) simp_all
  with Cons show ?case by (cases "is_space c") auto
qed simp

lemma nested_foldl: "nested s \<Longrightarrow> nested (foldl step s q)"
  by (induction q arbitrary: s) (simp_all add: nested_step)

lemma parse_proper_prefix:
  assumes "parse_json (CHR ''{'' # p @ q) \<noteq> None" and "q \<noteq> []" and "\<not> is_space (last q)"
  shows "parse_json (CHR ''{'' # p) = None" and "parse_json [] = None"
proof -
  let ?s = "step (BeginValue, []) (CHR ''{'')"
  have open_: "nested ?s" by (simp add: begin_value_def push_def maxNestingDepth_def)
  let ?p = "foldl step ?s p"
  obtain w st where full: "step (foldl step ?p q) (CHR '' '') = (Done w, st)"
    using assms(1) by (auto simp: parse_json_def scan_def split: prod.splits scan_mode.splits)
  have done_: "foldl step ?p q = (Done w, st)"
    using nested_eof [OF nested_foldl [OF nested_foldl [OF open_]] full] .
  have "False" if "step ?p (CHR '' '') = (Done v, st')" for v st'
  proof -
    have "?p = (Done v, st')" by (rule nested_eof [OF nested_foldl [OF open_] that])
    with done_ have "\<forall>c \<in> set q. is_space c" using done_then_spaces by metis
    with assms(2,3) show False by simp
  qed
  then show "parse_json (CHR ''{'' # p) = None"
    by (auto simp: parse_json_def scan_def split: prod.splits scan_mode.splits)
  show "parse_json [] = None" by (simp add: parse_json_def scan_def begin_value_def)
qed

end
