(* ===== verification/TFD_Types.thy ===== *)
theory TFD_Types
  imports Prelude
begin

text \<open>
  Types and classification of the time-footprint decomposition (plugin/tfd/types.go and
  classifier.go): channels, footprints, envelopes, flushed batches, the hashes and the projection
  of an operation onto its lane. Also the additive cell sums in which the rest of the plugin is
  specified.
\<close>

section \<open>Types\<close>

datatype Channel = ChannelScalar | ChannelVector

record TimeFootprint =
  time_BucketID :: u64
  All :: bool

record Footprint =
  fp_KeyID :: u64
  fp_Time :: TimeFootprint
  fp_Scope :: Channel

record Envelope =
  env_Channel :: Channel
  env_Footprint :: Footprint
  Delta :: i64
  env_SeqEnd :: u64
  HashPrev :: "u8 list"

record SBatch =
  KeyID :: u64
  BucketID :: u64
  NetDelta :: i64
  SeqEnd :: u64

definition Disjoint :: "Footprint \<Rightarrow> Footprint \<Rightarrow> bool" where
  "Disjoint f other =
     (if fp_Scope f \<noteq> ChannelScalar \<or> fp_Scope other \<noteq> ChannelScalar then False
      else if fp_KeyID f \<noteq> fp_KeyID other then True
      else if All (fp_Time f) \<or> All (fp_Time other) then False
      else time_BucketID (fp_Time f) \<noteq> time_BucketID (fp_Time other))"

section \<open>Hashes\<close>

definition HashKey :: "string \<Rightarrow> u64" where
  "HashKey s = fnv64a (string_bytes s)"

definition putUint64_le :: "u64 \<Rightarrow> u8 list" where
  "putUint64_le x = map (\<lambda>i. ucast (drop_bit (8 * i) x)) [0..<8]"

fun writeParts :: "u64 \<Rightarrow> u64 list \<Rightarrow> u64" where
  "writeParts h [] = h"
| "writeParts h (p # ps) = writeParts (fnv1a_write h (putUint64_le p)) ps"

definition Hash128 :: "u64 list \<Rightarrow> u8 list" where
  "Hash128 parts =
     (let s1 = writeParts fnv_offset64 parts;
          s2 = fnv1a_write s1 (putUint64_le (word_of_nat (length parts) XOR 0x9e3779b97f4a7c15))
      in putUint64_le s1 @ putUint64_le s2)"

lemma length_Hash128: "length (Hash128 parts) = 16"
  by (simp add: Hash128_def Let_def putUint64_le_def)

section \<open>Classification\<close>

record Op =
  op_Key :: string
  op_Bucket :: string
  Amount :: i64
  IsBackdated :: bool
  IsCrossKey :: bool
  ChangesPolicy :: bool
  NeedsExternalDecision :: bool
  IsGlobal :: bool
  IsSingleKey :: bool
  IsConservativeDelta :: bool
  op_SeqEnd :: u64

datatype classify_error = ErrNoKey

definition zero_Footprint :: Footprint where
  "zero_Footprint =
     \<lparr>fp_KeyID = 0, fp_Time = \<lparr>time_BucketID = 0, All = False\<rparr>, fp_Scope = ChannelScalar\<rparr>"

definition Classify :: "Op \<Rightarrow> Channel \<times> Footprint \<times> i64 \<times> classify_error option" where
  "Classify op =
     (if op_Key op = '''' then (ChannelVector, zero_Footprint, 0, Some ErrNoKey)
      else let keyID = HashKey (op_Key op);
               (bucketID, all) = (if op_Bucket op = '''' then (0, True) else (HashKey (op_Bucket op), False));
               fp = \<lambda>scope. \<lparr>fp_KeyID = keyID, fp_Time = \<lparr>time_BucketID = bucketID, All = all\<rparr>, fp_Scope = scope\<rparr>
           in if IsBackdated op \<or> IsCrossKey op \<or> ChangesPolicy op \<or> NeedsExternalDecision op \<or> IsGlobal op
              then (ChannelVector, fp ChannelVector, Amount op, None)
              else if \<not> IsSingleKey op \<or> \<not> IsConservativeDelta op
              then (ChannelVector, fp ChannelVector, Amount op, None)
              else (ChannelScalar, fp ChannelScalar, Amount op, None))"

section \<open>Cells\<close>

type_synonym cell = "u64 \<times> u64"

definition env_cell :: "Envelope \<Rightarrow> cell" where
  "env_cell e = (fp_KeyID (env_Footprint e), time_BucketID (fp_Time (env_Footprint e)))"

definition batch_cell :: "SBatch \<Rightarrow> cell" where
  "batch_cell b = (KeyID b, BucketID b)"

text \<open>The sum of the deltas that a list of batches, or of envelopes, has for one cell.\<close>

definition batch_net :: "SBatch list \<Rightarrow> cell \<Rightarrow> i64" where
  "batch_net bs c = (\<Sum>b\<leftarrow>filter (\<lambda>b. batch_cell b = c) bs. NetDelta b)"

definition env_net :: "Envelope list \<Rightarrow> cell \<Rightarrow> i64" where
  "env_net es c = (\<Sum>e\<leftarrow>filter (\<lambda>e. env_cell e = c) es. Delta e)"

lemma batch_net_simps [simp]:
  "batch_net [] c = 0"
  "batch_net (b # bs) c = (if batch_cell b = c then NetDelta b else 0) + batch_net bs c"
  "batch_net (bs @ bs') c = batch_net bs c + batch_net bs' c"
  by (simp_all add: batch_net_def)

lemma env_net_simps [simp]:
  "env_net [] c = 0"
  "env_net (e # es) c = (if env_cell e = c then Delta e else 0) + env_net es c"
  "env_net (es @ es') c = env_net es c + env_net es' c"
  by (simp_all add: env_net_def)

lemma batch_net_absent: "c \<notin> batch_cell ` set bs \<Longrightarrow> batch_net bs c = 0"
  by (induction bs) auto

section \<open>Properties\<close>

lemma Classify_cases:
  "op_Key op \<noteq> [] \<Longrightarrow> Classify op =
     (let scope = (if IsSingleKey op \<and> IsConservativeDelta op \<and> \<not> IsBackdated op \<and> \<not> IsCrossKey op
           \<and> \<not> ChangesPolicy op \<and> \<not> NeedsExternalDecision op \<and> \<not> IsGlobal op then ChannelScalar else ChannelVector)
      in (scope, \<lparr>fp_KeyID = HashKey (op_Key op),
            fp_Time = \<lparr>time_BucketID = (if op_Bucket op = [] then 0 else HashKey (op_Bucket op)), All = (op_Bucket op = [])\<rparr>,
            fp_Scope = scope\<rparr>, Amount op, None))"
  by (auto simp: Classify_def Let_def)

text \<open>
  The parallel lane is sound. Two operations that are both classified Scalar and whose
  footprints are disjoint in either order really address different accumulator cells, and an
  operation reaches the Scalar lane only if it has a key, is a single-key conservative delta and
  carries none of the flags that force the Vector lane; the channel always agrees with the scope of
  the footprint and the amount is passed on unchanged.
\<close>

theorem scalar_lane_sound:
  assumes "Classify op = (ChannelScalar, f, d, err)" and "Classify op' = (ChannelScalar, f', d', err')"
    and "Disjoint f f' \<or> Disjoint f' f"
  shows "(fp_KeyID f, time_BucketID (fp_Time f)) \<noteq> (fp_KeyID f', time_BucketID (fp_Time f'))
    \<and> Disjoint f f' = Disjoint f' f \<and> op_Key op \<noteq> [] \<and> err = None \<and> d = Amount op \<and> fp_Scope f = ChannelScalar
    \<and> IsSingleKey op \<and> IsConservativeDelta op
    \<and> \<not> (IsBackdated op \<or> IsCrossKey op \<or> ChangesPolicy op \<or> NeedsExternalDecision op \<or> IsGlobal op)"
proof -
  have key: "op_Key op \<noteq> []" using assms(1) by (auto simp: Classify_def)
  then have "IsSingleKey op \<and> IsConservativeDelta op \<and> \<not> IsBackdated op \<and> \<not> IsCrossKey op
           \<and> \<not> ChangesPolicy op \<and> \<not> NeedsExternalDecision op \<and> \<not> IsGlobal op
           \<and> err = None \<and> d = Amount op \<and> fp_Scope f = ChannelScalar"
    using assms(1) by (auto simp: Classify_cases Let_def split: if_splits)
  moreover have "Disjoint f f' = Disjoint f' f"
    by (auto simp: Disjoint_def)
  moreover have "(fp_KeyID f, time_BucketID (fp_Time f)) \<noteq> (fp_KeyID f', time_BucketID (fp_Time f'))"
    using assms(3) by (auto simp: Disjoint_def split: if_splits)
  ultimately show ?thesis using key by simp
qed

definition example_op :: "string \<Rightarrow> Op" where
  "example_op key =
     \<lparr>op_Key = key, op_Bucket = ''b'', Amount = 5, IsBackdated = False, IsCrossKey = False, ChangesPolicy = False,
      NeedsExternalDecision = False, IsGlobal = False, IsSingleKey = True, IsConservativeDelta = True, op_SeqEnd = 1\<rparr>"

theorem scalar_lane_sound_witness: "HashKey ''x'' \<noteq> HashKey ''y''"
proof -
  let ?f = "\<lambda>k. \<lparr>fp_KeyID = HashKey k, fp_Time = \<lparr>time_BucketID = HashKey ''b'', All = False\<rparr>, fp_Scope = ChannelScalar\<rparr>"
  have "Classify (example_op ''x'') = (ChannelScalar, ?f ''x'', 5, None)"
    and "Classify (example_op ''y'') = (ChannelScalar, ?f ''y'', 5, None)"
    by (simp_all add: Classify_cases example_op_def)
  moreover have "Disjoint (?f ''x'') (?f ''y'')" by code_simp
  ultimately show ?thesis using scalar_lane_sound by fastforce
qed

end
