(* ===== verification/Sinks.thy ===== *)
theory Sinks
  imports JSON TFD_Types "HOL-Library.Sublist"
begin

text \<open>
  The append-only logs of the two lanes (internal/sinks): JSON lines written through a buffered
  writer, and their readers. Files live on a disk whose writes may fail or be cut short, as a
  pattern of faults says; \<open>bufio.Writer\<close>, \<open>json.Encoder\<close> and \<open>bufio.Scanner\<close> are modelled with
  their error states.
\<close>

section \<open>Encodings\<close>

abbreviation ju64 :: "u64 \<Rightarrow> json" where
  "ju64 x \<equiv> JNum (nat_digits (unat x))"

abbreviation ji64 :: "i64 \<Rightarrow> json" where
  "ji64 x \<equiv> JNum (sprintf_d x)"

definition channel_int :: "Channel \<Rightarrow> i64" where
  "channel_int ch = (case ch of ChannelScalar \<Rightarrow> 0 | ChannelVector \<Rightarrow> 1)"

definition sbatch_json :: "SBatch \<Rightarrow> json" where
  "sbatch_json b =
     JObj [(''KeyID'', ju64 (KeyID b)), (''BucketID'', ju64 (BucketID b)), (''NetDelta'', ji64 (NetDelta b)),
           (''SeqEnd'', ju64 (SeqEnd b))]"

definition time_json :: "TimeFootprint \<Rightarrow> json" where
  "time_json t = JObj [(''BucketID'', ju64 (time_BucketID t)), (''All'', JBool (All t))]"

definition footprint_json :: "Footprint \<Rightarrow> json" where
  "footprint_json f =
     JObj [(''KeyID'', ju64 (fp_KeyID f)), (''Time'', time_json (fp_Time f)), (''Scope'', ji64 (channel_int (fp_Scope f)))]"

definition envelope_json :: "Envelope \<Rightarrow> json" where
  "envelope_json e =
     JObj [(''Channel'', ji64 (channel_int (env_Channel e))), (''Footprint'', footprint_json (env_Footprint e)),
           (''Delta'', ji64 (Delta e)), (''SeqEnd'', ju64 (env_SeqEnd e)),
           (''HashPrev'', JArr (map (\<lambda>b. JNum (nat_digits (unat b))) (HashPrev e)))]"

definition enc_sbatch :: "SBatch \<Rightarrow> string" where
  "enc_sbatch b = show_json (sbatch_json b)"

definition enc_envelope :: "Envelope \<Rightarrow> string" where
  "enc_envelope e = show_json (envelope_json e)"

definition sbatch_field :: "string \<Rightarrow> json \<Rightarrow> SBatch \<Rightarrow> SBatch option" where
  "sbatch_field key v b =
     (if field_is ''KeyID'' key then map_option (\<lambda>x. b\<lparr>KeyID := x\<rparr>) (dec_u64 v (KeyID b))
      else if field_is ''BucketID'' key then map_option (\<lambda>x. b\<lparr>BucketID := x\<rparr>) (dec_u64 v (BucketID b))
      else if field_is ''NetDelta'' key then map_option (\<lambda>x. b\<lparr>NetDelta := x\<rparr>) (dec_i64 v (NetDelta b))
      else if field_is ''SeqEnd'' key then map_option (\<lambda>x. b\<lparr>SeqEnd := x\<rparr>) (dec_u64 v (SeqEnd b))
      else Some b)"

text \<open>
  A channel is an integer in Go; values other than the two constants, which only a foreign log could
  hold, are read as Vector. Reconstruction does not look at the channel of an envelope.
\<close>

definition dec_channel :: "json \<Rightarrow> Channel \<Rightarrow> Channel option" where
  "dec_channel v old =
     map_option (\<lambda>k. if k = 0 then ChannelScalar else ChannelVector) (dec_i64 v (channel_int old))"

definition time_field :: "string \<Rightarrow> json \<Rightarrow> TimeFootprint \<Rightarrow> TimeFootprint option" where
  "time_field key v t =
     (if field_is ''BucketID'' key then map_option (\<lambda>x. t\<lparr>time_BucketID := x\<rparr>) (dec_u64 v (time_BucketID t))
      else if field_is ''All'' key then map_option (\<lambda>x. t\<lparr>All := x\<rparr>) (dec_bool v (All t))
      else Some t)"

definition footprint_field :: "string \<Rightarrow> json \<Rightarrow> Footprint \<Rightarrow> Footprint option" where
  "footprint_field key v f =
     (if field_is ''KeyID'' key then map_option (\<lambda>x. f\<lparr>fp_KeyID := x\<rparr>) (dec_u64 v (fp_KeyID f))
      else if field_is ''Time'' key then map_option (\<lambda>x. f\<lparr>fp_Time := x\<rparr>) (dec_struct time_field v (fp_Time f))
      else if field_is ''Scope'' key then map_option (\<lambda>x. f\<lparr>fp_Scope := x\<rparr>) (dec_channel v (fp_Scope f))
      else Some f)"

definition envelope_field :: "string \<Rightarrow> json \<Rightarrow> Envelope \<Rightarrow> Envelope option" where
  "envelope_field key v e =
     (if field_is ''Channel'' key then map_option (\<lambda>x. e\<lparr>env_Channel := x\<rparr>) (dec_channel v (env_Channel e))
      else if field_is ''Footprint'' key
        then map_option (\<lambda>x. e\<lparr>env_Footprint := x\<rparr>) (dec_struct footprint_field v (env_Footprint e))
      else if field_is ''Delta'' key then map_option (\<lambda>x. e\<lparr>Delta := x\<rparr>) (dec_i64 v (Delta e))
      else if field_is ''SeqEnd'' key then map_option (\<lambda>x. e\<lparr>env_SeqEnd := x\<rparr>) (dec_u64 v (env_SeqEnd e))
      else if field_is ''HashPrev'' key then map_option (\<lambda>x. e\<lparr>HashPrev := x\<rparr>) (dec_bytes v (HashPrev e))
      else Some e)"

definition zero_SBatch :: SBatch where
  "zero_SBatch = \<lparr>KeyID = 0, BucketID = 0, NetDelta = 0, SeqEnd = 0\<rparr>"

definition zero_Envelope :: Envelope where
  "zero_Envelope =
     \<lparr>env_Channel = ChannelScalar, env_Footprint = zero_Footprint, Delta = 0, env_SeqEnd = 0, HashPrev = replicate 16 0\<rparr>"

definition dec_sbatch :: "string \<Rightarrow> SBatch option" where
  "dec_sbatch = Unmarshal sbatch_field zero_SBatch"

definition dec_envelope :: "string \<Rightarrow> Envelope option" where
  "dec_envelope = Unmarshal envelope_field zero_Envelope"

section \<open>Files\<close>

text \<open>
  \<open>faults n\<close> says how the \<open>n\<close>-th write to the disk ends: it succeeds, or it fails after some bytes.
\<close>

type_synonym faults = "nat \<Rightarrow> nat option"

record disk =
  files :: "(string \<times> string) list"
  writes :: nat

record file_handle =
  fpath :: string
  fclosed :: bool

definition content :: "disk \<Rightarrow> string \<Rightarrow> string" where
  "content d path = (case map_of (files d) path of None \<Rightarrow> [] | Some s \<Rightarrow> s)"

definition append_file :: "string \<Rightarrow> string \<Rightarrow> disk \<Rightarrow> disk" where
  "append_file path p d = d\<lparr>files := al_update path (content d path @ p) (files d), writes := Suc (writes d)\<rparr>"

definition file_write :: "faults \<Rightarrow> file_handle \<Rightarrow> string \<Rightarrow> disk \<Rightarrow> nat \<times> bool \<times> disk" where
  "file_write F h p d =
     (if fclosed h then (0, False, d)
      else case F (writes d) of
             None \<Rightarrow> (length p, True, append_file (fpath h) p d)
           | Some k \<Rightarrow> (min k (length p), False, append_file (fpath h) (take k p) d))"

section \<open>Buffered writing\<close>

record bufw =
  wbuf :: string
  werr :: bool

definition available :: "bufw \<Rightarrow> int" where
  "available w = 1048576 - int (length (wbuf w))"

definition bufw_flush :: "faults \<Rightarrow> file_handle \<Rightarrow> bufw \<times> disk \<Rightarrow> bool \<times> bufw \<times> disk" where
  "bufw_flush F h = (\<lambda>(w, d).
     if werr w then (False, w, d)
     else if wbuf w = [] then (True, w, d)
     else let (n, ok, d1) = file_write F h (wbuf w) d
          in if ok then (True, w\<lparr>wbuf := []\<rparr>, d1)
             else (False, w\<lparr>wbuf := drop n (wbuf w), werr := True\<rparr>, d1))"

lemma file_write_ok: "file_write F h p d = (n, True, d1) \<Longrightarrow> n = length p \<and> d1 = append_file (fpath h) p d"
  by (auto simp: file_write_def split: if_splits option.splits)

lemma bufw_flush_result: "bufw_flush F h (w, d) = (ok, w1, d1) \<Longrightarrow> ok = (\<not> werr w1) \<and> (ok \<longrightarrow> wbuf w1 = [])"
  by (auto simp: bufw_flush_def Let_def split: if_splits prod.splits)

function bufw_write :: "faults \<Rightarrow> file_handle \<Rightarrow> string \<Rightarrow> bufw \<Rightarrow> disk \<Rightarrow> bool \<times> bufw \<times> disk" where
  "bufw_write F h p w d =
     (if available w < int (length p) \<and> \<not> werr w then
        if wbuf w = [] then
          let (n, ok, d1) = file_write F h p d
          in bufw_write F h (drop n p) (w\<lparr>werr := \<not> ok\<rparr>) d1
        else
          let n = nat (available w); (ok, w1, d1) = bufw_flush F h (w\<lparr>wbuf := wbuf w @ take n p\<rparr>, d)
          in bufw_write F h (drop n p) w1 d1
      else if werr w then (False, w, d)
      else (True, w\<lparr>wbuf := wbuf w @ p\<rparr>, d))"
  by auto

termination
proof (relation "measure (\<lambda>(F, h, p, w, d). if werr w then 0 else Suc (2 * length p + (if wbuf w = [] then 0 else 1)))")
qed (auto simp: available_def dest!: file_write_ok [OF sym] bufw_flush_result [OF sym] split: if_splits)

declare bufw_write.simps [simp del]

text \<open>An encoder remembers its first error.\<close>

definition encode :: "faults \<Rightarrow> file_handle \<Rightarrow> string \<Rightarrow> bool \<times> bufw \<times> disk \<Rightarrow> bool \<times> bool \<times> bufw \<times> disk" where
  "encode F h line = (\<lambda>(eerr, w, d).
     if eerr then (False, eerr, w, d)
     else let (ok, w1, d1) = bufw_write F h (line @ [CHR 0x0A]) w d in (ok, \<not> ok, w1, d1))"

section \<open>The sinks\<close>

text \<open>\<open>SBatchFileSink\<close> and \<open>VEnvFileSink\<close> have the same fields.\<close>

record file_sink =
  sk_f :: file_handle
  sk_w :: bufw
  lastFlush :: i64

type_synonym SBatchFileSink = file_sink
type_synonym VEnvFileSink = file_sink

definition open_sink :: "bool \<Rightarrow> string \<Rightarrow> i64 \<Rightarrow> disk \<Rightarrow> (file_sink \<times> disk) option" where
  "open_sink open_fails path now d =
     (if open_fails then None
      else Some (\<lparr>sk_f = \<lparr>fpath = path, fclosed = False\<rparr>, sk_w = \<lparr>wbuf = [], werr = False\<rparr>, lastFlush = now\<rparr>,
                 d\<lparr>files := al_update path (content d path) (files d)\<rparr>))"

definition NewSBatchFileSink :: "bool \<Rightarrow> string \<Rightarrow> i64 \<Rightarrow> disk \<Rightarrow> (SBatchFileSink \<times> disk) option" where
  "NewSBatchFileSink open_fails path now d = open_sink open_fails path now d"

definition NewVEnvFileSink :: "bool \<Rightarrow> string \<Rightarrow> i64 \<Rightarrow> disk \<Rightarrow> (VEnvFileSink \<times> disk) option" where
  "NewVEnvFileSink open_fails path now d = open_sink open_fails path now d"

text \<open>Flush when more than 100 ms have passed since the last flush; two clock readings.\<close>

definition flush_if_due :: "faults \<Rightarrow> (nat \<Rightarrow> i64) \<Rightarrow> file_sink \<times> disk \<Rightarrow> file_sink \<times> disk" where
  "flush_if_due F clk = (\<lambda>(s, d).
     if 100000000 <s time_Sub (clk 0) (lastFlush s) then
       let (_, w, d1) = bufw_flush F (sk_f s) (sk_w s, d) in (s\<lparr>sk_w := w, lastFlush := clk 1\<rparr>, d1)
     else (s, d))"

fun encodeSBatches :: "faults \<Rightarrow> file_handle \<Rightarrow> SBatch list \<Rightarrow> bool \<times> bufw \<times> disk \<Rightarrow> bool \<times> bufw \<times> disk" where
  "encodeSBatches F h [] es = es"
| "encodeSBatches F h (sb # b) es =
     (case encode F h (enc_sbatch sb) es of
        (True, es1) \<Rightarrow> encodeSBatches F h b es1
      | (False, eerr, w, d) \<Rightarrow>
          let (_, w1, d1) = bufw_flush F h (w, d); (_, es2) = encode F h (enc_sbatch sb) (eerr, w1, d1)
          in encodeSBatches F h b es2)"

definition OnSBatches :: "faults \<Rightarrow> (nat \<Rightarrow> i64) \<Rightarrow> SBatch list \<Rightarrow> SBatchFileSink \<times> disk \<Rightarrow> SBatchFileSink \<times> disk" where
  "OnSBatches F clk b = (\<lambda>(s, d).
     if b = [] then (s, d)
     else let (_, w, d1) = encodeSBatches F (sk_f s) b (False, sk_w s, d)
          in flush_if_due F clk (s\<lparr>sk_w := w\<rparr>, d1))"

definition Append :: "faults \<Rightarrow> (nat \<Rightarrow> i64) \<Rightarrow> Envelope \<Rightarrow> VEnvFileSink \<times> disk \<Rightarrow> VEnvFileSink \<times> disk" where
  "Append F clk env = (\<lambda>(s, d).
     let (_, _, w, d1) = encode F (sk_f s) (enc_envelope env) (False, sk_w s, d)
     in flush_if_due F clk (s\<lparr>sk_w := w\<rparr>, d1))"

fun encodeEnvelopes :: "faults \<Rightarrow> file_handle \<Rightarrow> Envelope list \<Rightarrow> bool \<times> bufw \<times> disk \<Rightarrow> bool \<times> bufw \<times> disk" where
  "encodeEnvelopes F h [] es = es"
| "encodeEnvelopes F h (e # envs) es = encodeEnvelopes F h envs (snd (encode F h (enc_envelope e) es))"

definition AppendAll :: "faults \<Rightarrow> (nat \<Rightarrow> i64) \<Rightarrow> Envelope list \<Rightarrow> VEnvFileSink \<times> disk \<Rightarrow> VEnvFileSink \<times> disk" where
  "AppendAll F clk envs = (\<lambda>(s, d).
     if envs = [] then (s, d)
     else let (_, w, d1) = encodeEnvelopes F (sk_f s) envs (False, sk_w s, d)
          in flush_if_due F clk (s\<lparr>sk_w := w\<rparr>, d1))"

text \<open>\<open>Flush\<close> and \<open>Close\<close> report whether they succeeded; both sinks have the same ones.\<close>

definition sink_Flush :: "faults \<Rightarrow> i64 \<Rightarrow> file_sink \<times> disk \<Rightarrow> bool \<times> file_sink \<times> disk" where
  "sink_Flush F now = (\<lambda>(s, d).
     let (ok, w, d1) = bufw_flush F (sk_f s) (sk_w s, d) in (ok, s\<lparr>sk_w := w, lastFlush := now\<rparr>, d1))"

definition sink_Close :: "faults \<Rightarrow> file_sink \<times> disk \<Rightarrow> bool \<times> file_sink \<times> disk" where
  "sink_Close F = (\<lambda>(s, d).
     let (_, w, d1) = bufw_flush F (sk_f s) (sk_w s, d)
     in (\<not> fclosed (sk_f s), s\<lparr>sk_w := w, sk_f := (sk_f s)\<lparr>fclosed := True\<rparr>\<rparr>, d1))"

section \<open>The readers\<close>

datatype read_error = ErrOpen | ErrTooLong

fun split_lines :: "string \<Rightarrow> string \<Rightarrow> string list" where
  "split_lines acc [] = (if acc = [] then [] else [acc])"
| "split_lines acc (c # cs) = (if c = CHR 0x0A then acc # split_lines [] cs else split_lines (acc @ [c]) cs)"

definition dropCR :: "string \<Rightarrow> string" where
  "dropCR l = (if l \<noteq> [] \<and> last l = CHR 0x0D then butlast l else l)"

fun read_lines :: "(string \<Rightarrow> 'a option) \<Rightarrow> string list \<Rightarrow> 'a list \<times> read_error option" where
  "read_lines dec [] = ([], None)"
| "read_lines dec (l # ls) =
     (if int (length l) < 67108864 then
        let (out, err) = read_lines dec ls
        in (case dec (dropCR l) of None \<Rightarrow> out | Some x \<Rightarrow> x # out, err)
      else ([], Some ErrTooLong))"

definition read_log :: "(string \<Rightarrow> 'a option) \<Rightarrow> string \<Rightarrow> disk \<Rightarrow> 'a list \<times> read_error option" where
  "read_log dec path d =
     (case map_of (files d) path of None \<Rightarrow> ([], Some ErrOpen) | Some s \<Rightarrow> read_lines dec (split_lines [] s))"

definition ReadAllSLog :: "string \<Rightarrow> disk \<Rightarrow> SBatch list \<times> read_error option" where
  "ReadAllSLog = read_log dec_sbatch"

definition ReadAllVLog :: "string \<Rightarrow> disk \<Rightarrow> Envelope list \<times> read_error option" where
  "ReadAllVLog = read_log dec_envelope"

section \<open>Lines\<close>

definition lines_of :: "('a \<Rightarrow> string) \<Rightarrow> 'a list \<Rightarrow> string" where
  "lines_of enc xs = concat (map (\<lambda>x. enc x @ [CHR 0x0A]) xs)"

lemma lines_of_simps [simp]:
  "lines_of enc [] = []" "lines_of enc (x # xs) = enc x @ CHR 0x0A # lines_of enc xs"
  "lines_of enc (xs @ ys) = lines_of enc xs @ lines_of enc ys"
  by (simp_all add: lines_of_def)

text \<open>What a log needs of the encoding of its entries.\<close>

locale line_codec =
  fixes enc :: "'a \<Rightarrow> string" and dec :: "string \<Rightarrow> 'a option" and ok :: "'a \<Rightarrow> bool"
  assumes dec_enc: "ok x \<Longrightarrow> dec (enc x) = Some x"
    and one_line: "ok x \<Longrightarrow> c \<in> set (enc x) \<Longrightarrow> c \<noteq> CHR 0x0A \<and> c \<noteq> CHR 0x0D"
    and nonempty: "ok x \<Longrightarrow> enc x \<noteq> []"
    and short: "ok x \<Longrightarrow> int (length (enc x)) < 67108864"
    and torn: "ok x \<Longrightarrow> enc x = p @ q \<Longrightarrow> q \<noteq> [] \<Longrightarrow> dec p = None"
begin

abbreviation log_of :: "'a list \<Rightarrow> string" where
  "log_of xs \<equiv> lines_of enc xs"

abbreviation read :: "string \<Rightarrow> 'a list \<times> read_error option" where
  "read s \<equiv> read_lines dec (split_lines [] s)"

lemma split_no_newline: "CHR 0x0A \<notin> set l \<Longrightarrow> split_lines acc (l @ s) = split_lines (acc @ l) s"
  by (induction l arbitrary: acc) auto

lemma dropCR_id: "CHR 0x0D \<notin> set l \<Longrightarrow> dropCR l = l"
  by (auto simp: dropCR_def dest: last_in_set)

lemma read_line:
  assumes "ok x"
  shows "read (enc x @ CHR 0x0A # s) = (let (out, err) = read s in (x # out, err))"
proof -
  have "CHR 0x0A \<notin> set (enc x)" "CHR 0x0D \<notin> set (enc x)" using one_line [OF assms] by auto
  then show ?thesis
    using short [OF assms] dec_enc [OF assms] by (simp add: split_no_newline dropCR_id)
qed

lemma read_log_append:
  "\<forall>x \<in> set xs. ok x \<Longrightarrow> read (log_of xs @ s) = (let (out, err) = read s in (xs @ out, err))"
  by (induction xs) (simp_all add: lines_of_def read_line split_beta Let_def)

lemma read_log_of: "\<forall>x \<in> set xs. ok x \<Longrightarrow> read (log_of xs) = (xs, None)"
  using read_log_append [of xs "[]"] by simp

text \<open>A text cut off anywhere is read as a prefix of the entries.\<close>

lemma read_torn:
  assumes "ok x" and "enc x = p @ q" and "q \<noteq> []"
  shows "read p = ([], None)"
proof -
  have c: "CHR 0x0A \<notin> set p" "CHR 0x0D \<notin> set p" using one_line [OF assms(1)] assms(2) by auto
  have "int (length p) < 67108864" using short [OF assms(1)] assms(2) by simp
  then show ?thesis
    using split_no_newline [OF c(1), of "[]" "[]"] torn [OF assms] by (simp add: dropCR_id [OF c(2)])
qed

lemma read_whole_line:
  assumes "ok x"
  shows "read (enc x) = ([x], None)"
proof -
  have c: "CHR 0x0A \<notin> set (enc x)" "CHR 0x0D \<notin> set (enc x)" using one_line [OF assms] by auto
  then show ?thesis
    using split_no_newline [OF c(1), of "[]" "[]"] short [OF assms] dec_enc [OF assms] nonempty [OF assms]
    by (simp add: dropCR_id)
qed

lemma read_prefix:
  "\<forall>x \<in> set xs. ok x \<Longrightarrow> prefix p (log_of xs) \<Longrightarrow> \<exists>n. read p = (take n xs, None)"
proof (induction xs arbitrary: p)
  case Nil
  then show ?case by (simp add: lines_of_def)
next
  case (Cons x xs)
  then have "prefix p ((enc x @ [CHR 0x0A]) @ log_of xs)" by (simp add: lines_of_def)
  then consider (short) "prefix p (enc x @ [CHR 0x0A])" | (long) p' where "p = enc x @ CHR 0x0A # p'" "prefix p' (log_of xs)"
    using prefix_append [of p "enc x @ [CHR 0x0A]" "log_of xs"] by fastforce
  then show ?case
  proof cases
    case short
    then consider "p = enc x @ [CHR 0x0A]" | "p = enc x" | q where "enc x = p @ q" "q \<noteq> []"
      unfolding prefix_snoc by (metis append_Nil2 prefixE)
    then show ?thesis
    proof cases
      case 1
      then show ?thesis using read_line [of x "[]"] Cons.prems(1) by (intro exI [of _ 1]) simp
    next
      case 2
      then show ?thesis using read_whole_line [of x] Cons.prems(1) by (intro exI [of _ 1]) simp
    next
      case 3
      then show ?thesis using read_torn [of x p q] Cons.prems(1) by (intro exI [of _ 0]) simp
    qed
  next
    case long
    with Cons obtain n where "read p' = (take n xs, None)" by auto
    then show ?thesis using long read_line [of x p'] Cons.prems(1) by (intro exI [of _ "Suc n"]) simp
  qed
qed

end

section \<open>Batches and envelopes as lines\<close>

text \<open>Texts without control characters.\<close>

definition clean :: "string \<Rightarrow> bool" where
  "clean s \<longleftrightarrow> (\<forall>c \<in> set s. 32 \<le> (of_char c :: nat))"

lemma clean_simps [simp]:
  "clean []" "clean (c # s) \<longleftrightarrow> 32 \<le> (of_char c :: nat) \<and> clean s" "clean (s @ t) \<longleftrightarrow> clean s \<and> clean t"
  by (auto simp: clean_def)

lemma clean_join: "\<forall>s \<in> set ss. clean s \<Longrightarrow> clean (join_comma ss)"
  by (induction ss rule: join_comma.induct) simp_all

lemma clean_digits [simp]: "clean (nat_digits n)"
  unfolding clean_def
proof
  fix c
  assume "c \<in> set (nat_digits n)"
  from nat_digits_all_digits [OF this] show "32 \<le> (of_char c :: nat)" by (simp add: is_digit_range)
qed

lemma clean_int [simp]: "clean (sprintf_d x)"
  by (simp add: sprintf_d_def)

lemma length_nat_digits: "n < 10 ^ Suc k \<Longrightarrow> length (nat_digits n) \<le> Suc k"
proof (induction k arbitrary: n)
  case 0
  then show ?case by (subst nat_digits.simps) simp
next
  case (Suc k)
  then have "n div 10 < 10 ^ Suc k" by simp
  then show ?case using Suc.IH [of "n div 10"] by (subst nat_digits.simps) simp
qed

lemma length_u64: "length (nat_digits (unat (x :: u64))) \<le> 20"
proof -
  have "unat x < 2 ^ LENGTH(64)" by (rule unsigned_less)
  then show ?thesis using length_nat_digits [of "unat x" 19] by simp
qed

lemma length_i64: "length (sprintf_d x) \<le> 20"
proof -
  have "nat (- sint x) < 10 ^ 19" "nat (sint x) < 10 ^ 19" using sint_range [of x] by simp_all
  then show ?thesis
    using length_nat_digits [of "nat (- sint x)" 18] length_nat_digits [of "nat (sint x)" 18]
    unfolding sprintf_d_def by simp
qed

lemma length_u8: "length (nat_digits (unat (b :: u8))) \<le> 3"
proof -
  have "unat b < 2 ^ LENGTH(8)" by (rule unsigned_less)
  then show ?thesis using length_nat_digits [of "unat b" 2] by simp
qed

lemma length_join: "\<forall>s \<in> set ss. length s \<le> k \<Longrightarrow> length (join_comma ss) \<le> length ss * Suc k"
  by (induction ss rule: join_comma.induct) auto

lemma plain_names [simp]:
  "plain_key ''KeyID''" "plain_key ''BucketID''" "plain_key ''NetDelta''" "plain_key ''SeqEnd''" "plain_key ''Time''"
  "plain_key ''All''" "plain_key ''Scope''" "plain_key ''Channel''" "plain_key ''Footprint''" "plain_key ''Delta''"
  "plain_key ''HashPrev''"
  by (simp_all add: plain_key_def)

lemma field_names [simp]:
  "field_is ''KeyID'' ''KeyID''" "field_is ''BucketID'' ''BucketID''" "field_is ''NetDelta'' ''NetDelta''"
  "field_is ''SeqEnd'' ''SeqEnd''" "field_is ''Time'' ''Time''" "field_is ''All'' ''All''" "field_is ''Scope'' ''Scope''"
  "field_is ''Channel'' ''Channel''" "field_is ''Footprint'' ''Footprint''" "field_is ''Delta'' ''Delta''"
  "field_is ''HashPrev'' ''HashPrev''"
  by (simp_all add: field_is_def)

lemma field_names_differ [simp]:
  "\<not> field_is ''KeyID'' ''BucketID''" "\<not> field_is ''KeyID'' ''NetDelta''" "\<not> field_is ''KeyID'' ''SeqEnd''"
  "\<not> field_is ''BucketID'' ''NetDelta''" "\<not> field_is ''BucketID'' ''SeqEnd''" "\<not> field_is ''NetDelta'' ''SeqEnd''"
  "\<not> field_is ''BucketID'' ''All''" "\<not> field_is ''KeyID'' ''Time''" "\<not> field_is ''KeyID'' ''Scope''"
  "\<not> field_is ''Time'' ''Scope''" "\<not> field_is ''Channel'' ''Footprint''" "\<not> field_is ''Channel'' ''Delta''"
  "\<not> field_is ''Channel'' ''SeqEnd''" "\<not> field_is ''Channel'' ''HashPrev''" "\<not> field_is ''Footprint'' ''Delta''"
  "\<not> field_is ''Footprint'' ''SeqEnd''" "\<not> field_is ''Footprint'' ''HashPrev''" "\<not> field_is ''Delta'' ''SeqEnd''"
  "\<not> field_is ''Delta'' ''HashPrev''" "\<not> field_is ''SeqEnd'' ''HashPrev''"
  by code_simp+

lemma decode_numbers [simp]:
  "dec_u64 (ju64 x) old = Some x" "dec_i64 (ji64 y) old' = Some y" "dec_bool (JBool b) old'' = Some b"
  "dec_channel (ji64 (channel_int ch)) ch' = Some ch"
  by (simp_all add: dec_u64_def dec_i64_def dec_bool_def dec_channel_def channel_int_def split: Channel.split)

lemma decode_u8 [simp]: "dec_u8 (JNum (nat_digits (unat b))) old = Some b"
proof -
  have b: "unat b < 2 ^ LENGTH(8)" by (rule unsigned_less)
  then have "ParseUint (nat_digits (unat b)) = Some (word_of_nat (unat b))" by (simp add: ParseUint_def)
  moreover have "unat (word_of_nat (unat b) :: u64) = unat b" using b by (intro unat_of_nat_small) simp
  ultimately show ?thesis using b unfolding dec_u8_def by (simp only: json.case option.case) simp
qed

lemma decode_bytes: "length bs = length old \<Longrightarrow> dec_bytes (JArr (map (\<lambda>b. JNum (nat_digits (unat b))) bs)) old = Some bs"
proof -
  assume "length bs = length old"
  then have "dec_elems (map (\<lambda>b. JNum (nat_digits (unat b))) bs) old = Some bs"
    by (induction bs old rule: list_induct2) simp_all
  then show ?thesis by (simp add: dec_bytes_def)
qed

lemma torn_object:
  assumes "parse_json (show_json (JObj ms)) \<noteq> None" and "show_json (JObj ms) = p @ q" and "q \<noteq> []"
  shows "Unmarshal field zero p = None"
proof (cases p)
  case Nil
  then show ?thesis by (simp add: Unmarshal_def parse_json_def scan_def begin_value_def)
next
  case (Cons c p')
  then have "c = CHR ''{''" "last q = CHR ''}''" using assms(2,3) by (auto dest!: arg_cong [of _ _ last])
  then show ?thesis using parse_proper_prefix(1) [of p' q] assms Cons by (simp add: Unmarshal_def)
qed

lemma scans_sbatch: "scans 1 (sbatch_json b)"
proof -
  have "scans (Suc 0) (sbatch_json b)"
    unfolding sbatch_json_def by (rule scans_obj) (simp add: scans_nat scans_int)
  then show ?thesis by simp
qed

lemma scans_envelope: "scans 3 (envelope_json e)"
proof -
  have "scans 1 (time_json t)" for t
    unfolding time_json_def One_nat_def by (rule scans_obj) (simp add: scans_nat scans_bool)
  then have "scans (Suc 1) (footprint_json f)" for f
    unfolding footprint_json_def
    by (intro scans_obj) (auto intro: scans_mono [OF scans_nat] scans_mono [OF scans_int])
  moreover have "scans (Suc 1) (JArr (map (\<lambda>b. JNum (nat_digits (unat b))) (HashPrev e)))"
    by (intro scans_arr) (auto intro: scans_mono [OF scans_nat])
  ultimately have "scans (Suc (Suc 1)) (envelope_json e)"
    unfolding envelope_json_def
    by (intro scans_obj) (auto intro: scans_mono [OF scans_nat] scans_mono [OF scans_int])
  then show ?thesis by (simp add: numeral_3_eq_3)
qed

lemma parse_sbatch: "parse_json (enc_sbatch b) = Some (sbatch_json b)"
  unfolding enc_sbatch_def using parse_show [OF scans_sbatch] by (simp add: maxNestingDepth_def)

lemma parse_envelope: "parse_json (enc_envelope e) = Some (envelope_json e)"
  unfolding enc_envelope_def using parse_show [OF scans_envelope] by (simp add: maxNestingDepth_def)

lemma clean_sbatch: "clean (enc_sbatch b)"
  by (simp add: enc_sbatch_def sbatch_json_def)

lemma clean_envelope: "clean (enc_envelope e)"
proof -
  have "clean (join_comma (map (show_json \<circ> (\<lambda>b. JNum (nat_digits (unat b)))) (HashPrev e)))"
    by (rule clean_join) auto
  then show ?thesis
    by (simp add: enc_envelope_def envelope_json_def footprint_json_def time_json_def comp_def)
qed

lemma clean_line: "clean s \<Longrightarrow> c \<in> set s \<Longrightarrow> c \<noteq> CHR 0x0A \<and> c \<noteq> CHR 0x0D"
  by (auto simp: clean_def)

lemma length_sbatch: "length (enc_sbatch b) \<le> 200"
  using length_u64 [of "KeyID b"] length_u64 [of "BucketID b"] length_i64 [of "NetDelta b"] length_u64 [of "SeqEnd b"]
  by (simp add: enc_sbatch_def sbatch_json_def)

lemma length_envelope: "length (HashPrev e) = 16 \<Longrightarrow> length (enc_envelope e) \<le> 400"
proof -
  assume "length (HashPrev e) = 16"
  then have "length (join_comma (map (\<lambda>b. nat_digits (unat b)) (HashPrev e))) \<le> 16 * Suc 3"
    using length_join [of "map (\<lambda>b. nat_digits (unat b)) (HashPrev e)" 3] length_u8 by auto
  then show ?thesis
    using length_i64 [of "channel_int (env_Channel e)"] length_u64 [of "fp_KeyID (env_Footprint e)"]
      length_u64 [of "time_BucketID (fp_Time (env_Footprint e))"] length_i64 [of "channel_int (fp_Scope (env_Footprint e))"]
      length_i64 [of "Delta e"] length_u64 [of "env_SeqEnd e"]
    by (simp add: enc_envelope_def envelope_json_def footprint_json_def time_json_def comp_def)
qed

lemma unmarshal_sbatch: "dec_sbatch (enc_sbatch b) = Some b"
  by (simp add: dec_sbatch_def Unmarshal_def parse_sbatch) (simp add: sbatch_json_def dec_struct_def sbatch_field_def)

lemma unmarshal_envelope: "length (HashPrev e) = 16 \<Longrightarrow> dec_envelope (enc_envelope e) = Some e"
  by (simp add: dec_envelope_def Unmarshal_def parse_envelope)
    (simp add: envelope_json_def footprint_json_def time_json_def dec_struct_def envelope_field_def footprint_field_def
      time_field_def decode_bytes zero_Envelope_def)

lemma torn_sbatch: "enc_sbatch b = p @ q \<Longrightarrow> q \<noteq> [] \<Longrightarrow> dec_sbatch p = None"
  using parse_sbatch [of b] torn_object unfolding dec_sbatch_def enc_sbatch_def sbatch_json_def by (metis option.distinct(1))

lemma torn_envelope: "enc_envelope e = p @ q \<Longrightarrow> q \<noteq> [] \<Longrightarrow> dec_envelope p = None"
  using parse_envelope [of e] torn_object unfolding dec_envelope_def enc_envelope_def envelope_json_def by (metis option.distinct(1))

interpretation sbatch_log: line_codec enc_sbatch dec_sbatch "\<lambda>_. True"
proof
  show "int (length (enc_sbatch x)) < 67108864" for x using length_sbatch [of x] by simp
  show "enc_sbatch x \<noteq> []" for x by (simp add: enc_sbatch_def sbatch_json_def)
qed (auto intro: unmarshal_sbatch torn_sbatch simp: clean_line [OF clean_sbatch])

interpretation envelope_log: line_codec enc_envelope dec_envelope "\<lambda>e. length (HashPrev e) = 16"
proof
  show "int (length (enc_envelope x)) < 67108864" if "length (HashPrev x) = 16" for x
    using length_envelope [OF that] by simp
  show "enc_envelope x \<noteq> []" for x by (simp add: enc_envelope_def envelope_json_def)
qed (auto intro: unmarshal_envelope torn_envelope simp: clean_line [OF clean_envelope])

section \<open>What reaches the file\<close>

text \<open>
  Since it was opened with content \<open>init\<close>, a writer has been given \<open>stream\<close>: file and buffer together
  hold it, and after an error the file holds a prefix of it.
\<close>

definition tracks :: "string \<Rightarrow> string \<Rightarrow> string \<Rightarrow> bufw \<Rightarrow> disk \<Rightarrow> bool" where
  "tracks init stream path w d \<longleftrightarrow>
     (\<exists>written. map_of (files d) path = Some (init @ written)
        \<and> (if werr w then prefix written stream else written @ wbuf w = stream))"

lemma append_file_other [simp]: "q \<noteq> path \<Longrightarrow> map_of (files (append_file path p d)) q = map_of (files d) q"
  by (simp add: append_file_def)

lemma append_file_same: "map_of (files d) path = Some s \<Longrightarrow> map_of (files (append_file path p d)) path = Some (s @ p)"
  by (simp add: append_file_def content_def)

lemma tracks_flush:
  assumes "tracks init stream (fpath h) w d" and "bufw_flush F h (w, d) = (ok, w1, d1)"
  shows "tracks init stream (fpath h) w1 d1"
proof (cases "werr w \<or> wbuf w = [] \<or> fclosed h")
  case True
  then show ?thesis
    using assms by (auto simp: bufw_flush_def file_write_def tracks_def split: if_splits)
next
  case False
  then obtain u where u: "map_of (files d) (fpath h) = Some (init @ u)" "u @ wbuf w = stream"
    using assms(1) by (auto simp: tracks_def)
  show ?thesis
  proof (cases "F (writes d)")
    case None
    then show ?thesis
      using False assms(2) u append_file_same [OF u(1), of "wbuf w"]
      by (auto simp: bufw_flush_def file_write_def tracks_def)
  next
    case (Some k)
    have "prefix (u @ take k (wbuf w)) stream" using u(2) take_is_prefix by auto
    then show ?thesis
      using False Some assms(2) append_file_same [OF u(1), of "take k (wbuf w)"]
      by (auto simp: bufw_flush_def file_write_def tracks_def)
  qed
qed

lemma tracks_fill: "tracks init stream path w d \<Longrightarrow> tracks init (stream @ p) path (w\<lparr>wbuf := wbuf w @ p\<rparr>) d"
  by (auto simp: tracks_def intro: prefix_prefix)

lemma tracks_direct:
  assumes "tracks init stream (fpath h) w d" and "wbuf w = []" and "\<not> werr w" and "file_write F h p d = (n, ok, d1)"
  shows "tracks init (stream @ take n p) (fpath h) (w\<lparr>werr := \<not> ok\<rparr>) d1"
proof -
  obtain u where u: "map_of (files d) (fpath h) = Some (init @ u)" "u = stream"
    using assms(1-3) by (auto simp: tracks_def)
  show ?thesis
  proof (cases "fclosed h")
    case True
    then show ?thesis using assms u by (auto simp: file_write_def tracks_def)
  next
    case False
    then show ?thesis
      using assms(2-4) u append_file_same [OF u(1)]
      by (auto simp: file_write_def tracks_def min_def split: option.splits if_splits)
  qed
qed

lemma tracks_write:
  "tracks init stream (fpath h) w d \<Longrightarrow> bufw_write F h p w d = (ok, w1, d1) \<Longrightarrow>
     tracks init (stream @ p) (fpath h) w1 d1 \<and> ok = (\<not> werr w1)"
proof (induction F h p w d arbitrary: stream rule: bufw_write.induct)
  case (1 F h p w d)
  consider (direct) "available w < int (length p)" "\<not> werr w" "wbuf w = []"
    | (through) "available w < int (length p)" "\<not> werr w" "wbuf w \<noteq> []"
    | (rest) "\<not> (available w < int (length p) \<and> \<not> werr w)" by blast
  then show ?case
  proof cases
    case direct
    obtain n o' d' where fw: "file_write F h p d = (n, o', d')" by (metis prod_cases3)
    have "bufw_write F h (drop n p) (w\<lparr>werr := \<not> o'\<rparr>) d' = (ok, w1, d1)"
      using "1.prems"(2) direct fw by (subst (asm) bufw_write.simps) simp
    from "1.IH"(1) [OF _ direct(3) fw [symmetric] refl refl tracks_direct [OF "1.prems"(1) direct(3,2) fw] this] direct
    show ?thesis by simp
  next
    case through
    let ?n = "nat (available w)"
    obtain o' w' d' where fl: "bufw_flush F h (w\<lparr>wbuf := wbuf w @ take ?n p\<rparr>, d) = (o', w', d')" by (metis prod_cases3)
    have "bufw_write F h (drop ?n p) w' d' = (ok, w1, d1)"
      using "1.prems"(2) through fl by (subst (asm) bufw_write.simps) simp
    from "1.IH"(2) [OF _ through(3) refl fl [symmetric] refl refl tracks_flush [OF tracks_fill [OF "1.prems"(1)] fl] this] through
    show ?thesis by simp
  next
    case rest
    then show ?thesis
      using "1.prems" by (subst (asm) bufw_write.simps) (auto simp: tracks_def intro: prefix_prefix split: if_splits)
  qed
qed

lemma tracks_encode:
  assumes "tracks init stream (fpath h) w d" and "eerr \<longrightarrow> werr w"
    and "encode F h line (eerr, w, d) = (ok, eerr1, w1, d1)"
  shows "tracks init (stream @ line @ [CHR 0x0A]) (fpath h) w1 d1" and "eerr1 = (\<not> ok)" and "\<not> ok \<Longrightarrow> werr w1"
proof -
  have "tracks init (stream @ line @ [CHR 0x0A]) (fpath h) w1 d1 \<and> eerr1 = (\<not> ok) \<and> (\<not> ok \<longrightarrow> werr w1)"
  proof (cases eerr)
    case True
    then show ?thesis using assms by (auto simp: encode_def tracks_def intro: prefix_prefix)
  next
    case False
    obtain o' w' d' where "bufw_write F h (line @ [CHR 0x0A]) w d = (o', w', d')" by (metis prod_cases3)
    with tracks_write [OF assms(1) this] assms(3) False show ?thesis by (auto simp: encode_def)
  qed
  then show "tracks init (stream @ line @ [CHR 0x0A]) (fpath h) w1 d1" "eerr1 = (\<not> ok)" "\<not> ok \<Longrightarrow> werr w1" by blast+
qed

text \<open>After an error nothing more is written, and the retry of \<open>OnSBatches\<close> does nothing.\<close>

lemma flush_after_error: "werr w \<Longrightarrow> bufw_flush F h (w, d) = (False, w, d)"
  by (simp add: bufw_flush_def)

lemma write_after_error: "werr w \<Longrightarrow> bufw_write F h p w d = (False, w, d)"
  by (subst bufw_write.simps) simp

lemma encode_after_error: "werr w \<Longrightarrow> encode F h line (eerr, w, d) = (False, True, w, d)"
  by (simp add: encode_def write_after_error)

lemma encodeSBatches_after_error: "werr w \<Longrightarrow> snd (encodeSBatches F h b (eerr, w, d)) = (w, d)"
  by (induction b arbitrary: eerr) (simp_all add: encode_after_error flush_after_error)

lemma encodeEnvelopes_after_error: "werr w \<Longrightarrow> snd (encodeEnvelopes F h b (eerr, w, d)) = (w, d)"
  by (induction b arbitrary: eerr) (simp_all add: encode_after_error)

lemma tracks_sbatches:
  "tracks init stream (fpath h) w d \<Longrightarrow> eerr \<longrightarrow> werr w \<Longrightarrow>
     case encodeSBatches F h b (eerr, w, d) of (_, w1, d1) \<Rightarrow> tracks init (stream @ lines_of enc_sbatch b) (fpath h) w1 d1"
proof (induction b arbitrary: eerr w d stream)
  case (Cons sb b)
  obtain ok eerr1 w1 d1 where e: "encode F h (enc_sbatch sb) (eerr, w, d) = (ok, eerr1, w1, d1)" by (metis prod_cases4)
  note t = tracks_encode [OF Cons.prems e]
  show ?case
  proof (cases ok)
    case True
    then show ?thesis using Cons.IH [OF t(1), of eerr1] t(2) e by (simp split: prod.splits)
  next
    case False
    then show ?thesis
      using Cons.IH [OF t(1), of True] t(2,3) e by (simp add: flush_after_error encode_after_error split: prod.splits)
  qed
qed simp

lemma tracks_envelopes:
  "tracks init stream (fpath h) w d \<Longrightarrow> eerr \<longrightarrow> werr w \<Longrightarrow>
     case encodeEnvelopes F h es (eerr, w, d) of (_, w1, d1) \<Rightarrow> tracks init (stream @ lines_of enc_envelope es) (fpath h) w1 d1"
proof (induction es arbitrary: eerr w d stream)
  case (Cons env es)
  obtain ok eerr1 w1 d1 where e: "encode F h (enc_envelope env) (eerr, w, d) = (ok, eerr1, w1, d1)" by (metis prod_cases4)
  note t = tracks_encode [OF Cons.prems e]
  then show ?case using Cons.IH [OF t(1), of eerr1] e by (cases ok) (simp_all split: prod.splits)
qed simp

section \<open>Runs of the sinks\<close>

datatype sink_event =
    Batches "nat \<Rightarrow> i64" "SBatch list"
  | FlushNow i64
  | CloseNow

fun slog_step :: "faults \<Rightarrow> sink_event \<Rightarrow> SBatchFileSink \<times> disk \<Rightarrow> SBatchFileSink \<times> disk" where
  "slog_step F (Batches clk b) sd = OnSBatches F clk b sd"
| "slog_step F (FlushNow t) sd = snd (sink_Flush F t sd)"
| "slog_step F CloseNow sd = snd (sink_Close F sd)"

definition slog_run :: "faults \<Rightarrow> sink_event list \<Rightarrow> SBatchFileSink \<times> disk \<Rightarrow> SBatchFileSink \<times> disk" where
  "slog_run F evs sd = foldl (\<lambda>sd ev. slog_step F ev sd) sd evs"

fun batches_of :: "sink_event list \<Rightarrow> SBatch list" where
  "batches_of [] = []"
| "batches_of (Batches clk b # evs) = b @ batches_of evs"
| "batches_of (_ # evs) = batches_of evs"

definition sink_tracks :: "string \<Rightarrow> string \<Rightarrow> string \<Rightarrow> file_sink \<times> disk \<Rightarrow> bool" where
  "sink_tracks init stream path = (\<lambda>(s, d). fpath (sk_f s) = path \<and> tracks init stream path (sk_w s) d)"

lemma sink_tracks_flush:
  "sink_tracks init stream path sd \<Longrightarrow> sink_tracks init stream path (snd (sink_Flush F t sd))"
  "sink_tracks init stream path sd \<Longrightarrow> sink_tracks init stream path (snd (sink_Close F sd))"
  "sink_tracks init stream path sd \<Longrightarrow> sink_tracks init stream path (flush_if_due F clk sd)"
  using tracks_flush by (fastforce simp: sink_tracks_def sink_Flush_def sink_Close_def flush_if_due_def split: prod.splits)+

lemma sink_tracks_batches:
  assumes "sink_tracks init stream path sd"
  shows "sink_tracks init (stream @ lines_of enc_sbatch b) path (OnSBatches F clk b sd)"
proof (cases "b = []")
  case True
  then show ?thesis using assms by (simp add: OnSBatches_def split: prod.splits)
next
  case False
  obtain s d where sd: "sd = (s, d)" by (cases sd)
  obtain eerr w d1 where e: "encodeSBatches F (sk_f s) b (False, sk_w s, d) = (eerr, w, d1)" by (metis prod_cases3)
  have "sink_tracks init (stream @ lines_of enc_sbatch b) path (s\<lparr>sk_w := w\<rparr>, d1)"
    using assms tracks_sbatches [where F = F and h = "sk_f s" and b = b and eerr = False and w = "sk_w s" and d = d] e sd by (simp add: sink_tracks_def)
  then show ?thesis using False e sd sink_tracks_flush(3) by (simp add: OnSBatches_def)
qed

lemma slog_run_tracks:
  "sink_tracks init stream path sd \<Longrightarrow> sink_tracks init (stream @ lines_of enc_sbatch (batches_of evs)) path (slog_run F evs sd)"
proof (induction evs arbitrary: sd stream)
  case (Cons ev evs)
  have "sink_tracks init (stream @ lines_of enc_sbatch (batches_of [ev])) path (slog_step F ev sd)"
    using Cons.prems sink_tracks_batches sink_tracks_flush by (cases ev) simp_all
  from Cons.IH [OF this] show ?case by (cases ev) (simp_all add: slog_run_def)
qed (simp add: slog_run_def)

lemma open_tracks:
  "open_sink fails path now d = Some (s, d1) \<Longrightarrow> sink_tracks (content d path) [] path (s, d1)"
  by (auto simp: open_sink_def sink_tracks_def tracks_def split: if_splits)

end
