(* ===== verification/Sink_Props.thy ===== *)
theory Sink_Props
  imports Sinks
begin

text \<open>
  Properties of the logs of internal/sinks: what was written is read back, a log cut off by a crash or
  a failing disk is read as a prefix of what was written, and a failed writer stays failed.
\<close>

section \<open>Appending envelopes\<close>

lemma sink_tracks_append:
  assumes "sink_tracks init stream path sd"
  shows "sink_tracks init (stream @ lines_of enc_envelope [env]) path (Append F clk env sd)"
proof -
  obtain s d where sd: "sd = (s, d)" by (cases sd)
  obtain ok eerr w d1 where e: "encode F (sk_f s) (enc_envelope env) (False, sk_w s, d) = (ok, eerr, w, d1)" by (metis prod_cases4)
  have "sink_tracks init (stream @ lines_of enc_envelope [env]) path (s\<lparr>sk_w := w\<rparr>, d1)"
    using assms tracks_encode(1) [OF _ _ e] sd by (simp add: sink_tracks_def)
  then show ?thesis using e sd sink_tracks_flush(3) by (simp add: Append_def)
qed

lemma sink_tracks_append_all:
  assumes "sink_tracks init stream path sd"
  shows "sink_tracks init (stream @ lines_of enc_envelope es) path (AppendAll F clk es sd)"
proof (cases "es = []")
  case True
  then show ?thesis using assms by (simp add: AppendAll_def split: prod.splits)
next
  case False
  obtain s d where sd: "sd = (s, d)" by (cases sd)
  obtain eerr w d1 where e: "encodeEnvelopes F (sk_f s) es (False, sk_w s, d) = (eerr, w, d1)" by (metis prod_cases3)
  have "sink_tracks init (stream @ lines_of enc_envelope es) path (s\<lparr>sk_w := w\<rparr>, d1)"
    using assms tracks_envelopes [where F = F and h = "sk_f s" and es = es and eerr = False and w = "sk_w s" and d = d] e sd
    by (simp add: sink_tracks_def)
  then show ?thesis using False e sd sink_tracks_flush(3) by (simp add: AppendAll_def)
qed

section \<open>Disks that do not fail\<close>

definition healthy :: "file_sink \<Rightarrow> bool" where
  "healthy s \<longleftrightarrow> \<not> werr (sk_w s) \<and> \<not> fclosed (sk_f s)"

definition faultless :: "faults \<Rightarrow> bool" where
  "faultless F \<longleftrightarrow> (\<forall>n. F n = None)"

lemma file_write_faultless: "faultless F \<Longrightarrow> \<not> fclosed h \<Longrightarrow> file_write F h p d = (length p, True, append_file (fpath h) p d)"
  by (simp add: file_write_def faultless_def)

lemma flush_faultless:
  "faultless F \<Longrightarrow> \<not> fclosed h \<Longrightarrow> \<not> werr w \<Longrightarrow> bufw_flush F h (w, d) = (ok, w1, d1) \<Longrightarrow> ok \<and> wbuf w1 = [] \<and> \<not> werr w1"
  by (auto simp: bufw_flush_def file_write_faultless split: if_splits)

lemma write_faultless:
  "faultless F \<Longrightarrow> \<not> fclosed h \<Longrightarrow> \<not> werr w \<Longrightarrow> bufw_write F h p w d = (ok, w1, d1) \<Longrightarrow> ok \<and> \<not> werr w1"
proof (induction F h p w d rule: bufw_write.induct)
  case (1 F h p w d)
  show ?case
  proof (cases "available w < int (length p)")
    case False
    then show ?thesis using 1 by (subst (asm) bufw_write.simps) auto
  next
    case full: True
    show ?thesis
    proof (cases "wbuf w = []")
      case True
      have "bufw_write F h [] (w\<lparr>werr := False\<rparr>) (append_file (fpath h) p d) = (ok, w1, d1)"
        using "1.prems" full True by (subst (asm) bufw_write.simps) (simp add: file_write_faultless)
      with "1.IH"(1) [OF _ True file_write_faultless [OF "1.prems"(1,2), symmetric] refl refl] "1.prems" full
      show ?thesis by simp
    next
      case False
      let ?n = "nat (available w)"
      obtain o' w' d' where fl: "bufw_flush F h (w\<lparr>wbuf := wbuf w @ take ?n p\<rparr>, d) = (o', w', d')" by (metis prod_cases3)
      then have "\<not> werr w'" using flush_faultless [OF "1.prems"(1,2) _ fl] "1.prems"(3) by simp
      moreover have "bufw_write F h (drop ?n p) w' d' = (ok, w1, d1)"
        using "1.prems" full False fl by (subst (asm) bufw_write.simps) simp
      ultimately show ?thesis
        using "1.IH"(2) [OF _ False refl fl [symmetric] refl refl] "1.prems" full by simp
    qed
  qed
qed

lemma encode_faultless:
  assumes "faultless F" and "\<not> fclosed h" and "\<not> werr w" and "encode F h line (False, w, d) = (ok, eerr, w1, d1)"
  shows "ok \<and> \<not> eerr \<and> \<not> werr w1"
proof -
  obtain o' w' d' where "bufw_write F h (line @ [CHR 0x0A]) w d = (o', w', d')" by (metis prod_cases3)
  with write_faultless [OF assms(1-3) this] assms(4) show ?thesis by (auto simp: encode_def)
qed

lemma encodeSBatches_faultless:
  "faultless F \<Longrightarrow> \<not> fclosed h \<Longrightarrow> \<not> werr w \<Longrightarrow> \<not> werr (fst (snd (encodeSBatches F h b (False, w, d))))"
proof (induction b arbitrary: w d)
  case (Cons sb b)
  obtain ok eerr w1 d1 where e: "encode F h (enc_sbatch sb) (False, w, d) = (ok, eerr, w1, d1)" by (metis prod_cases4)
  with encode_faultless [OF Cons.prems e] Cons show ?case by simp
qed simp

lemma healthy_flush:
  assumes "faultless F" and "healthy s"
  shows "healthy (fst (flush_if_due F clk (s, d)))" and "healthy (fst (snd (sink_Flush F t (s, d))))"
    and "fst (sink_Flush F t (s, d))" and "wbuf (sk_w (fst (snd (sink_Flush F t (s, d))))) = []"
  using assms flush_faultless [of F "sk_f s" "sk_w s" d]
  by (auto simp: healthy_def flush_if_due_def sink_Flush_def split: prod.splits)

lemma healthy_batches:
  assumes "faultless F" and "healthy s"
  shows "healthy (fst (OnSBatches F clk b (s, d)))"
proof -
  obtain eerr w d1 where e: "encodeSBatches F (sk_f s) b (False, sk_w s, d) = (eerr, w, d1)" by (metis prod_cases3)
  have "healthy (s\<lparr>sk_w := w\<rparr>)"
    using encodeSBatches_faultless [OF assms(1), of "sk_f s" "sk_w s" b d] assms(2) e by (simp add: healthy_def)
  then show ?thesis using e assms healthy_flush(1) by (simp add: OnSBatches_def)
qed

lemma healthy_append:
  assumes "faultless F" and "healthy s"
  shows "healthy (fst (Append F clk env (s, d)))"
proof -
  obtain ok eerr w d1 where e: "encode F (sk_f s) (enc_envelope env) (False, sk_w s, d) = (ok, eerr, w, d1)" by (metis prod_cases4)
  have "healthy (s\<lparr>sk_w := w\<rparr>)"
    using encode_faultless [OF assms(1) _ _ e] assms(2) by (simp add: healthy_def)
  then show ?thesis using e assms healthy_flush(1) by (simp add: Append_def)
qed

lemma flushed_content:
  assumes "faultless F" and "healthy s" and "sink_tracks init stream path (s, d)"
  shows "map_of (files (snd (snd (sink_Flush F t (s, d))))) path = Some (init @ stream)"
proof -
  obtain ok s1 d1 where f: "sink_Flush F t (s, d) = (ok, s1, d1)" by (metis prod_cases3)
  with healthy_flush(2,4) [OF assms(1,2), where t = t and d = d] sink_tracks_flush(1) [OF assms(3), of F t]
  show ?thesis by (auto simp: sink_tracks_def tracks_def healthy_def)
qed

definition no_close :: "sink_event list \<Rightarrow> bool" where
  "no_close evs \<longleftrightarrow> CloseNow \<notin> set evs"

lemma healthy_run:
  "faultless F \<Longrightarrow> no_close evs \<Longrightarrow> healthy s \<Longrightarrow> healthy (fst (slog_run F evs (s, d)))"
proof (induction evs arbitrary: s d)
  case (Cons ev evs)
  obtain s1 d1 where st: "slog_step F ev (s, d) = (s1, d1)" by (cases "slog_step F ev (s, d)")
  have "healthy (fst (slog_step F ev (s, d)))"
    using Cons.prems healthy_batches healthy_flush(2) by (cases ev) (simp_all add: no_close_def)
  then have "healthy s1" using st by simp
  from Cons.IH [OF Cons.prems(1) _ this] Cons.prems(2) st show ?case by (simp add: slog_run_def no_close_def)
qed (simp add: slog_run_def)

lemma tracks_prefix:
  assumes "tracks init stream path w d"
  shows "\<exists>u. map_of (files d) path = Some (init @ u) \<and> prefix u stream"
proof -
  obtain u where "map_of (files d) path = Some (init @ u)" "if werr w then prefix u stream else u @ wbuf w = stream"
    using assms unfolding tracks_def by blast
  then show ?thesis by (intro exI [of _ u]) (auto split: if_splits)
qed

lemma read_content:
  "map_of (files d) path = Some s \<Longrightarrow> ReadAllSLog path d = read_lines dec_sbatch (split_lines [] s)"
  "map_of (files d) path = Some s \<Longrightarrow> ReadAllVLog path d = read_lines dec_envelope (split_lines [] s)"
  by (simp_all add: ReadAllSLog_def ReadAllVLog_def read_log_def)

section \<open>Properties\<close>

text \<open>
  C32. Round trip of the batch log. Open a log that holds whole lines (or is new) on a disk that does
  not fail, make any calls of \<open>OnSBatches\<close> and \<open>Flush\<close>, with any clock and through any buffer
  overflows, and flush: the flush succeeds and reading the log gives the old batches followed by all
  batches handed to the sink, in order, without an error.
\<close>

theorem slog_roundtrip:
  assumes "NewSBatchFileSink False path now d = Some sd" and "content d path = lines_of enc_sbatch old"
    and "\<forall>n. F n = None" and "CloseNow \<notin> set evs"
  shows "fst (sink_Flush F t (slog_run F evs sd))
    \<and> ReadAllSLog path (snd (snd (sink_Flush F t (slog_run F evs sd)))) = (old @ batches_of evs, None)"
proof -
  obtain s0 d0 where sd: "sd = (s0, d0)" by (cases sd)
  obtain s1 d1 where run: "slog_run F evs sd = (s1, d1)" by (cases "slog_run F evs sd")
  have F: "faultless F" using assms(3) by (simp add: faultless_def)
  have "healthy s0" using assms(1) sd by (auto simp: NewSBatchFileSink_def open_sink_def healthy_def)
  then have h: "healthy s1" using healthy_run [OF F, of evs s0 d0] assms(4) sd run by (simp add: no_close_def)
  have "sink_tracks (content d path) [] path sd"
    using open_tracks assms(1) sd unfolding NewSBatchFileSink_def by blast
  from slog_run_tracks [OF this, of evs F] run
  have "sink_tracks (content d path) (lines_of enc_sbatch (batches_of evs)) path (s1, d1)" by simp
  from flushed_content [OF F h this, of t]
  have "map_of (files (snd (snd (sink_Flush F t (s1, d1))))) path = Some (lines_of enc_sbatch (old @ batches_of evs))"
    using assms(2) by simp
  from read_content(1) [OF this] show ?thesis
    using sbatch_log.read_log_of [of "old @ batches_of evs"] healthy_flush(3) [OF F h] run by simp
qed

definition example_batch :: "u64 \<Rightarrow> i64 \<Rightarrow> SBatch" where
  "example_batch k n = \<lparr>KeyID = k, BucketID = 2, NetDelta = n, SeqEnd = 7\<rparr>"

definition empty_disk :: disk where
  "empty_disk = \<lparr>files = [], writes = 0\<rparr>"

definition no_faults :: faults where
  "no_faults n = None"

theorem slog_roundtrip_witness:
  "\<exists>sd. NewSBatchFileSink False ''s.log'' 0 empty_disk = Some sd
     \<and> ReadAllSLog ''s.log'' (snd (snd (sink_Flush no_faults 3
           (slog_run no_faults [Batches (\<lambda>_. 1) [example_batch 1 5, example_batch 2 (- 9)], Batches (\<lambda>_. 2) [example_batch 3 0]] sd))))
         = ([example_batch 1 5, example_batch 2 (- 9), example_batch 3 0], None)"
proof -
  let ?evs = "[Batches (\<lambda>_. 1) [example_batch 1 5, example_batch 2 (- 9)], Batches (\<lambda>_. 2) [example_batch 3 0]]"
  obtain sd where sd: "NewSBatchFileSink False ''s.log'' 0 empty_disk = Some sd"
    by (simp add: NewSBatchFileSink_def open_sink_def)
  have "content empty_disk ''s.log'' = lines_of enc_sbatch []" by (simp add: content_def empty_disk_def)
  from slog_roundtrip [OF sd this, of no_faults ?evs 3] sd show ?thesis by (simp add: no_faults_def)
qed

text \<open>
  C33. A crash loses a suffix. Whatever writes fail or are cut short, and at whatever moment the program
  stops, the file is read without an error as the old batches followed by a prefix of the batches
  handed to the sink: no batch is altered, reordered or read in part.
\<close>

theorem slog_crash_prefix:
  assumes "NewSBatchFileSink False path now d = Some sd" and "content d path = lines_of enc_sbatch old"
  shows "\<exists>n. ReadAllSLog path (snd (slog_run F evs sd)) = (old @ take n (batches_of evs), None)"
proof -
  obtain s0 d0 where sd: "sd = (s0, d0)" by (cases sd)
  obtain s1 d1 where run: "slog_run F evs sd = (s1, d1)" by (cases "slog_run F evs sd")
  have "sink_tracks (content d path) [] path sd"
    using open_tracks assms(1) sd unfolding NewSBatchFileSink_def by blast
  from slog_run_tracks [OF this, of evs F] run obtain u where
    u: "map_of (files d1) path = Some (lines_of enc_sbatch old @ u)" "prefix u (lines_of enc_sbatch (batches_of evs))"
    using assms(2) tracks_prefix [of "content d path" _ path] by (fastforce simp: sink_tracks_def)
  from sbatch_log.read_prefix [OF _ u(2)] obtain n where "read_lines dec_sbatch (split_lines [] u) = (take n (batches_of evs), None)"
    by auto
  with sbatch_log.read_log_append [of old u] have "ReadAllSLog path d1 = (old @ take n (batches_of evs), None)"
    by (simp add: read_content(1) [OF u(1)])
  then show ?thesis using run by auto
qed

definition fail_first :: faults where
  "fail_first n = (if n = 0 then Some 80 else None)"

theorem slog_crash_prefix_witness:
  "\<exists>sd n. NewSBatchFileSink False ''s.log'' 0 empty_disk = Some sd
     \<and> ReadAllSLog ''s.log'' (snd (slog_run fail_first [Batches (\<lambda>_. 1) [example_batch 1 5, example_batch 2 6], FlushNow 1] sd))
         = (take n [example_batch 1 5, example_batch 2 6], None)"
proof -
  obtain sd where sd: "NewSBatchFileSink False ''s.log'' 0 empty_disk = Some sd"
    by (simp add: NewSBatchFileSink_def open_sink_def)
  have "content empty_disk ''s.log'' = lines_of enc_sbatch []" by (simp add: content_def empty_disk_def)
  from slog_crash_prefix [OF sd this, of fail_first "[Batches (\<lambda>_. 1) [example_batch 1 5, example_batch 2 6], FlushNow 1]"] sd
  show ?thesis by auto
qed

text \<open>
  C34. A failed writer stays failed. Once a write of the batch log has failed, no later call changes
  the disk, whatever batches arrive (the retry in \<open>OnSBatches\<close> included), and every later \<open>Flush\<close>
  reports the failure, while \<open>OnSBatches\<close> reports nothing.
\<close>

theorem slog_error_sticky:
  assumes "werr (sk_w (fst sd))"
  shows "snd (slog_run F evs sd) = snd sd \<and> \<not> fst (sink_Flush F t (slog_run F evs sd))"
proof -
  have step: "werr (sk_w (fst (slog_step F ev sd))) \<and> snd (slog_step F ev sd) = snd sd" if "werr (sk_w (fst sd))" for ev sd
  proof -
    obtain s d where sd: "sd = (s, d)" by (cases sd)
    have "snd (encodeSBatches F (sk_f s) b (False, sk_w s, d)) = (sk_w s, d)" for b
      using encodeSBatches_after_error that sd by simp
    then show ?thesis
      using that sd flush_after_error [of "sk_w s" F "sk_f s" d]
      by (cases ev) (auto simp: OnSBatches_def flush_if_due_def sink_Flush_def sink_Close_def split_beta)
  qed
  have "werr (sk_w (fst (slog_run F evs sd))) \<and> snd (slog_run F evs sd) = snd sd"
    using assms
  proof (induction evs arbitrary: sd)
    case (Cons ev evs)
    from step [OF Cons.prems, of ev] Cons.IH [of "slog_step F ev sd"] show ?case by (simp add: slog_run_def)
  qed (simp add: slog_run_def)
  then show ?thesis
    using flush_after_error by (auto simp: sink_Flush_def split_beta)
qed

theorem slog_error_sticky_witness:
  "\<exists>sd. NewSBatchFileSink False ''s.log'' 0 empty_disk = Some sd
     \<and> (let sd1 = slog_run fail_first [Batches (\<lambda>_. 1) [example_batch 1 5], FlushNow 1] sd
        in snd (slog_run fail_first [Batches (\<lambda>_. 2) [example_batch 2 6], FlushNow 2] sd1) = snd sd1)"
proof -
  obtain sd where sd: "NewSBatchFileSink False ''s.log'' 0 empty_disk = Some sd"
    by (simp add: NewSBatchFileSink_def open_sink_def)
  have "case NewSBatchFileSink False ''s.log'' 0 empty_disk of None \<Rightarrow> False
    | Some sd \<Rightarrow> werr (sk_w (fst (slog_run fail_first [Batches (\<lambda>_. 1) [example_batch 1 5], FlushNow 1] sd)))" by code_simp
  then have "werr (sk_w (fst (slog_run fail_first [Batches (\<lambda>_. 1) [example_batch 1 5], FlushNow 1] sd)))" using sd by simp
  from slog_error_sticky [OF this] sd show ?thesis by (auto simp: Let_def)
qed

text \<open>
  Appending after a crash loses a batch: the first line written after reopening a log whose last line
  is torn joins that line, and the reader skips both.
\<close>

lemma torn_tail_swallows_next:
  "let torn = \<lparr>files = [(''s.log'', take 20 (enc_sbatch (example_batch 1 5)))], writes = 0\<rparr>
   in case NewSBatchFileSink False ''s.log'' 0 torn of None \<Rightarrow> False
      | Some sd \<Rightarrow> ReadAllSLog ''s.log'' (snd (slog_run no_faults [Batches (\<lambda>_. 1) [example_batch 2 6], FlushNow 1] sd)) = ([], None)"
  by code_simp

end
