(* ===== verification/JSON_Text.thy ===== *)
theory JSON_Text
  imports JSON
begin

text \<open>
  Strings of encoding/json: how \<open>Marshal\<close> quotes them, with the sequences of bytes that
  \<open>utf8.DecodeRune\<close> accepts, and that scanning and decoding the quoted text gives the string back,
  up to the replacement of bytes that belong to no character.
\<close>

section \<open>UTF-8\<close>

definition byte_in :: "nat \<Rightarrow> nat \<Rightarrow> char \<Rightarrow> bool" where
  "byte_in lo hi c \<longleftrightarrow> lo \<le> of_char c \<and> of_char c \<le> hi"

definition bytes_in :: "nat \<Rightarrow> nat \<Rightarrow> nat \<Rightarrow> string \<Rightarrow> bool" where
  "bytes_in k lo hi s \<longleftrightarrow>
     k \<le> length s \<and> byte_in lo hi (s ! 0) \<and> (\<forall>i < k. 1 \<le> i \<longrightarrow> byte_in 128 191 (s ! i))"

text \<open>
  The number of bytes of the character at the start, zero where \<open>utf8.DecodeRune\<close> returns the
  replacement character with size one. The range of the second byte depends on the first, which
  excludes overlong forms, surrogates and values over \<open>0x10FFFF\<close>.
\<close>

definition rune_tail :: "char \<Rightarrow> nat \<times> nat \<times> nat" where
  "rune_tail c =
     (if byte_in 194 223 c then (1, 128, 191)
      else if byte_in 224 224 c then (2, 160, 191)
      else if byte_in 237 237 c then (2, 128, 159)
      else if byte_in 225 239 c then (2, 128, 191)
      else if byte_in 240 240 c then (3, 144, 191)
      else if byte_in 241 243 c then (3, 128, 191)
      else if byte_in 244 244 c then (3, 128, 143)
      else (0, 0, 0))"

fun rune_len :: "string \<Rightarrow> nat" where
  "rune_len [] = 0"
| "rune_len (c # s) =
     (if (of_char c :: nat) < 128 then 1
      else case rune_tail c of (k, lo, hi) \<Rightarrow> if k \<noteq> 0 \<and> bytes_in k lo hi s then Suc k else 0)"

definition replacement :: string where
  "replacement = [CHR 0xEF, CHR 0xBF, CHR 0xBD]"

text \<open>Every byte that starts no character becomes a replacement character.\<close>

fun to_valid :: "string \<Rightarrow> string" where
  "to_valid [] = []"
| "to_valid (c # s) =
     (if rune_len (c # s) = 0 then replacement @ to_valid s
      else c # take (rune_len (c # s) - 1) s @ to_valid (drop (rune_len (c # s) - 1) s))"

fun valid_utf8 :: "string \<Rightarrow> bool" where
  "valid_utf8 [] = True"
| "valid_utf8 (c # s) = (rune_len (c # s) \<noteq> 0 \<and> valid_utf8 (drop (rune_len (c # s) - 1) s))"

section \<open>Quoting\<close>

definition lower_hex :: "nat \<Rightarrow> char" where
  "lower_hex n = (if n < 10 then char_of (48 + n) else char_of (87 + n))"

definition json_char :: "char \<Rightarrow> string" where
  "json_char c =
     (let n = of_char c :: nat
      in if c = CHR 0x22 \<or> c = CHR 0x5C then [CHR 0x5C, c]
         else if n = 8 then [CHR 0x5C, CHR ''b''] else if n = 12 then [CHR 0x5C, CHR ''f'']
         else if n = 10 then [CHR 0x5C, CHR ''n''] else if n = 13 then [CHR 0x5C, CHR ''r'']
         else if n = 9 then [CHR 0x5C, CHR ''t'']
         else if n < 32 \<or> c = CHR ''<'' \<or> c = CHR ''>'' \<or> c = CHR ''&''
           then [CHR 0x5C, CHR ''u'', CHR ''0'', CHR ''0'', lower_hex (n div 16), lower_hex (n mod 16)]
         else [c])"

text \<open>A character: ASCII is escaped, the line and paragraph separators become escapes, the rest stays.\<close>

definition json_rune :: "string \<Rightarrow> string" where
  "json_rune r =
     (if length r = 1 then json_char (hd r)
      else if r = [CHR 0xE2, CHR 0x80, CHR 0xA8] then CHR 0x5C # ''u2028''
      else if r = [CHR 0xE2, CHR 0x80, CHR 0xA9] then CHR 0x5C # ''u2029''
      else r)"

fun json_quote :: "string \<Rightarrow> string" where
  "json_quote [] = []"
| "json_quote (c # s) =
     (if rune_len (c # s) = 0 then CHR 0x5C # ''ufffd'' @ json_quote s
      else json_rune (c # take (rune_len (c # s) - 1) s) @ json_quote (drop (rune_len (c # s) - 1) s))"

definition jstr :: "string \<Rightarrow> json" where
  "jstr s = JStr (json_quote s)"

section \<open>Scanning\<close>

lemma is_hex_lower_hex: "n < 16 \<Longrightarrow> is_hex (lower_hex n)"
  by (auto simp: is_hex_def lower_hex_def Let_def)

lemma hex_value_lower_hex: "n < 16 \<Longrightarrow> hex_value (lower_hex n) = n"
  by (auto simp: hex_value_def lower_hex_def Let_def)

lemma scan_unicode:
  assumes "is_hex a" "is_hex b" "is_hex c" "is_hex d"
  shows "foldl step (InStr s, st) [CHR 0x5C, CHR ''u'', a, b, c, d] = (InStr (s @ [CHR 0x5C, CHR ''u'', a, b, c, d]), st)"
  using assms by simp

lemma scan_json_char:
  assumes "(of_char c :: nat) < 128"
  shows "foldl step (InStr s, st) (json_char c) = (InStr (s @ json_char c), st)"
proof -
  have "is_hex (lower_hex (of_char c div 16))" "is_hex (lower_hex (of_char c mod 16))"
    using assms by (auto intro!: is_hex_lower_hex)
  moreover have "is_hex (CHR ''0'')" by (simp add: is_hex_def)
  ultimately show ?thesis
    using scan_unicode by (simp add: json_char_def Let_def)
qed

lemma scan_high: "\<forall>c \<in> set r. 128 \<le> (of_char c :: nat) \<Longrightarrow> foldl step (InStr s, st) r = (InStr (s @ r), st)"
proof (induction r arbitrary: s)
  case (Cons c r)
  have "c \<noteq> CHR 0x22" "c \<noteq> CHR 0x5C" "\<not> (of_char c :: nat) < 32" using Cons.prems by auto
  then show ?case using Cons by simp
qed simp

text \<open>A character found at the start is one byte of ASCII, or all its bytes are above it.\<close>

lemma rune_cases:
  assumes "rune_len (c # s) \<noteq> 0"
  obtains (ascii) "(of_char c :: nat) < 128" "rune_len (c # s) = 1"
    | (high) k where "rune_len (c # s) = Suc k" "k \<noteq> 0" "k \<le> length s" "\<forall>x \<in> set (c # take k s). 128 \<le> (of_char x :: nat)"
proof (cases "(of_char c :: nat) < 128")
  case True
  then show ?thesis using ascii by simp
next
  case False
  obtain k lo hi where t: "rune_tail c = (k, lo, hi)" by (cases "rune_tail c")
  with False assms have k: "k \<noteq> 0" "bytes_in k lo hi s" "rune_len (c # s) = Suc k" by (auto split: if_splits)
  have "128 \<le> lo" using t k(1) by (auto simp: rune_tail_def split: if_splits)
  then have "128 \<le> (of_char (s ! i) :: nat)" if "i < k" for i
    using k(2) that by (cases "i = 0") (auto simp: bytes_in_def byte_in_def)
  then show ?thesis
    using k False by (intro high [OF k(3)]) (auto simp: bytes_in_def in_set_conv_nth)
qed

lemma scan_rune:
  assumes "rune_len (c # s) \<noteq> 0"
  shows "foldl step (InStr a, st) (json_rune (c # take (rune_len (c # s) - 1) s)) =
    (InStr (a @ json_rune (c # take (rune_len (c # s) - 1) s)), st)"
  using assms
proof (cases rule: rune_cases)
  case ascii
  then show ?thesis using scan_json_char by (simp add: json_rune_def)
next
  case (high k)
  moreover have "is_hex x" if "x \<in> set ''0289''" for x using that by (auto simp: is_hex_def)
  ultimately show ?thesis
    using scan_high [of "c # take k s" a st] scan_unicode by (simp add: json_rune_def del: foldl.simps)
qed

lemma scan_quote: "foldl step (InStr a, st) (json_quote s) = (InStr (a @ json_quote s), st)"
proof (induction s arbitrary: a rule: json_quote.induct)
  case (2 c s)
  have "is_hex x" if "x \<in> set ''fd''" for x using that by (auto simp: is_hex_def)
  then have "foldl step (InStr a, st) (CHR 0x5C # ''ufffd'') = (InStr (a @ CHR 0x5C # ''ufffd''), st)"
    by (intro scan_unicode) simp_all
  then show ?case
    using 2 scan_rune [of c s a st] by (cases "rune_len (c # s) = 0") (simp_all del: rune_len.simps step.simps)
qed simp

lemma scans_jstr: "scans 0 (jstr s)"
proof -
  have "end_string a st = finish (JStr a) st" if "value_place st" for a st
    using that by (cases st rule: value_place.cases) (auto simp: end_string_def)
  then show ?thesis
    by (simp add: scans_def jstr_def opens_value_def is_space_def begin_value_def foldl_append scan_quote)
qed

section \<open>Decoding\<close>

lemma unquote_plain: "c \<noteq> CHR 0x5C \<Longrightarrow> unquote (c # s) = c # unquote s"
  by (cases "c # s" rule: unquote.cases) simp_all

lemma unquote_escape: "d \<noteq> CHR ''u'' \<Longrightarrow> unquote (CHR 0x5C # d # s) = unescape d # unquote s"
  by (cases "CHR 0x5C # d # s" rule: unquote.cases) simp_all

lemma unquote_unicode:
  "unquote (CHR 0x5C # CHR ''u'' # a # b # e # f # s) =
     utf8_encode (((hex_value a * 16 + hex_value b) * 16 + hex_value e) * 16 + hex_value f) @ unquote s"
  by simp

lemma unquote_high: "\<forall>c \<in> set r. 128 \<le> (of_char c :: nat) \<Longrightarrow> unquote (r @ s) = r @ unquote s"
proof (induction r)
  case (Cons c r)
  then have "c \<noteq> CHR 0x5C" by auto
  then show ?case using Cons by (simp add: unquote_plain del: unquote.simps)
qed simp

lemma unquote_json_char:
  assumes "(of_char c :: nat) < 128"
  shows "unquote (json_char c @ s) = c # unquote s"
proof -
  define n where "n = (of_char c :: nat)"
  have c: "c = char_of n" and n: "n < 128" "n div 16 < 16" "n mod 16 < 16" using assms by (simp_all add: n_def)
  have "hex_value (CHR ''0'') = 0" by (simp add: hex_value_def)
  then have hex: "unquote (CHR 0x5C # CHR ''u'' # CHR ''0'' # CHR ''0'' # lower_hex (n div 16) # lower_hex (n mod 16) # s) = c # unquote s"
    unfolding unquote_unicode using n by (simp add: hex_value_lower_hex utf8_encode_def c)
  have ctl: "c = CHR 0x08 \<longleftrightarrow> n = 8" "c = CHR 0x0C \<longleftrightarrow> n = 12" "c = CHR 0x0A \<longleftrightarrow> n = 10"
    "c = CHR 0x0D \<longleftrightarrow> n = 13" "c = CHR 0x09 \<longleftrightarrow> n = 9"
    unfolding n_def by (auto simp flip: of_char_eq_iff [where 'a = nat])
  show ?thesis
    using hex ctl unfolding json_char_def Let_def n_def [symmetric]
    by (auto simp: unquote_plain unquote_escape unescape_def simp del: unquote.simps)
qed

text \<open>The characters that are escaped by their number.\<close>

lemma utf8_escapes:
  "utf8_encode 8232 = [CHR 0xE2, CHR 0x80, CHR 0xA8]" "utf8_encode 8233 = [CHR 0xE2, CHR 0x80, CHR 0xA9]"
  "utf8_encode 65533 = replacement"
proof -
  have "char_of (226 :: nat) = CHR 0xE2" "char_of (128 :: nat) = CHR 0x80" "char_of (168 :: nat) = CHR 0xA8"
    "char_of (169 :: nat) = CHR 0xA9" "char_of (239 :: nat) = CHR 0xEF" "char_of (191 :: nat) = CHR 0xBF"
    "char_of (189 :: nat) = CHR 0xBD"
    by code_simp+
  then show "utf8_encode 8232 = [CHR 0xE2, CHR 0x80, CHR 0xA8]" "utf8_encode 8233 = [CHR 0xE2, CHR 0x80, CHR 0xA9]"
    "utf8_encode 65533 = replacement"
    by (simp_all add: utf8_encode_def replacement_def)
qed

lemma unquote_rune:
  assumes "rune_len (c # s) \<noteq> 0"
  shows "unquote (json_rune (c # take (rune_len (c # s) - 1) s) @ t) = c # take (rune_len (c # s) - 1) s @ unquote t"
  using assms
proof (cases rule: rune_cases)
  case ascii
  then show ?thesis using unquote_json_char by (simp add: json_rune_def del: unquote.simps)
next
  case (high k)
  have hex: "hex_value (CHR ''2'') = 2" "hex_value (CHR ''0'') = 0" "hex_value (CHR ''8'') = 8" "hex_value (CHR ''9'') = 9"
    by (simp_all add: hex_value_def)
  show ?thesis
    using high unquote_high [OF high(4), of t]
    by (auto simp: json_rune_def unquote_unicode hex utf8_escapes simp del: unquote.simps)
qed

theorem unquote_quote: "unquote (json_quote s) = to_valid s"
proof (induction s rule: json_quote.induct)
  case (2 c s)
  have hex: "hex_value (CHR ''f'') = 15" "hex_value (CHR ''d'') = 13" by (simp_all add: hex_value_def)
  have "unquote (CHR 0x5C # ''ufffd'' @ t) = replacement @ unquote t" for t
    by (simp add: unquote_unicode hex utf8_escapes del: unquote.simps)
  then show ?case
    using 2 unquote_rune [of c s] by (cases "rune_len (c # s) = 0") (simp_all del: rune_len.simps unquote.simps)
qed simp

lemma to_valid_valid: "valid_utf8 s \<Longrightarrow> to_valid s = s"
  by (induction s rule: to_valid.induct) (simp_all del: rune_len.simps)

lemma valid_ascii: "\<forall>c \<in> set s. (of_char c :: nat) < 128 \<Longrightarrow> valid_utf8 s"
  by (induction s) simp_all

section \<open>Decoding into fields\<close>

definition dec_string :: "json \<Rightarrow> string \<Rightarrow> string option" where
  "dec_string v old = (case v of JStr s \<Rightarrow> Some (unquote s) | JNull \<Rightarrow> Some old | _ \<Rightarrow> None)"

text \<open>A pointer to an integer: null makes it nil.\<close>

definition dec_i64_ptr :: "json \<Rightarrow> i64 option \<Rightarrow> i64 option option" where
  "dec_i64_ptr v old = (case v of JNum lit \<Rightarrow> map_option Some (ParseInt lit) | JNull \<Rightarrow> Some None | _ \<Rightarrow> None)"

lemma dec_jstr [simp]: "dec_string (jstr s) old = Some (to_valid s)"
  by (simp add: dec_string_def jstr_def unquote_quote)

end
