(* ===== verification/TFD_Table.thy ===== *)
theory TFD_Table
  imports TFD_Types
begin

text \<open>
  The open-addressed accumulator of the Scalar lane (plugin/tfd/saccumulator.go): linear probing,
  ingestion, flushing of the whole table and of one key. \<open>None\<close> means that the code does not
  return: the probe loop runs forever on a full table, or an index is out of range.
\<close>

section \<open>Linear probing\<close>

text \<open>
  The probe loop that the accumulator and the batch compressor share: from an index, step with
  wrap-around until a slot satisfies the stop condition.
\<close>

partial_function (option) probe_loop :: "('a \<Rightarrow> bool) \<Rightarrow> 'a list \<Rightarrow> i64 \<Rightarrow> i64 \<Rightarrow> i64 option" where
  "probe_loop stop tab msk i =
     (if unat i < length tab then
        if stop (tab ! unat i) then Some i else probe_loop stop tab msk ((i + 1) AND msk)
      else None)"

declare probe_loop.simps [code]

definition packKeyBucket :: "u64 \<Rightarrow> u64 \<Rightarrow> u64" where
  "packKeyBucket keyID bucketID = push_bit 1 bucketID XOR (keyID * 0x9e3779b97f4a7c15)"

section \<open>The shard\<close>

record SShard =
  keys :: "u64 list"
  keyIDs :: "u64 list"
  bucketIDs :: "u64 list"
  sums :: "i64 list"
  seqEnds :: "u64 list"
  used :: i64
  shard_mask :: u64
  countThreshold :: i64
  timeCap :: i64
  lastFlushAt :: i64
  pending :: bool

definition newSShard :: "i64 \<Rightarrow> nat \<Rightarrow> i64 \<Rightarrow> i64 \<Rightarrow> SShard option" where
  "newSShard now orderPow2 ct cap =
     (let n = push_bit orderPow2 1 :: i64; zeros = replicate (unat n) 0
      in if n <s 0 then None
         else Some \<lparr>keys = zeros, keyIDs = zeros, bucketIDs = zeros, sums = zeros, seqEnds = zeros,
           used = 0, shard_mask = n - 1, countThreshold = ct, timeCap = cap, lastFlushAt = now,
           pending = False\<rparr>)"

definition probe :: "SShard \<Rightarrow> u64 \<Rightarrow> i64 option" where
  "probe s k = probe_loop (\<lambda>kk. kk = 0 \<or> kk = k) (keys s) (shard_mask s) (k AND shard_mask s)"

definition maybeFlush :: "i64 \<Rightarrow> SShard \<Rightarrow> bool \<times> SShard" where
  "maybeFlush now s =
     (if countThreshold s \<le>s used s \<or> timeCap s \<le>s time_Sub now (lastFlushAt s)
      then (True, s\<lparr>lastFlushAt := now\<rparr>) else (False, s))"

definition claimSlot :: "nat \<Rightarrow> u64 \<Rightarrow> Envelope \<Rightarrow> SShard \<Rightarrow> SShard" where
  "claimSlot i k env s =
     (if keys s ! i = 0 then
        s\<lparr>keys := (keys s)[i := k],
          keyIDs := (keyIDs s)[i := fp_KeyID (env_Footprint env)],
          bucketIDs := (bucketIDs s)[i := time_BucketID (fp_Time (env_Footprint env))],
          used := used s + 1\<rparr>
      else s)"

definition addSlot :: "nat \<Rightarrow> Envelope \<Rightarrow> SShard \<Rightarrow> SShard" where
  "addSlot i env s =
     s\<lparr>sums := (sums s)[i := sums s ! i + Delta env],
       seqEnds := (if seqEnds s ! i < env_SeqEnd env then (seqEnds s)[i := env_SeqEnd env] else seqEnds s)\<rparr>"

definition shard_Ingest :: "i64 \<Rightarrow> Envelope \<Rightarrow> SShard \<Rightarrow> SShard option" where
  "shard_Ingest now env s =
     (let k = packKeyBucket (fp_KeyID (env_Footprint env)) (time_BucketID (fp_Time (env_Footprint env)))
      in case probe s k of
           None \<Rightarrow> None
         | Some i \<Rightarrow> Some (snd (maybeFlush now (addSlot (unat i) env (claimSlot (unat i) k env s)))))"

definition slotBatch :: "SShard \<Rightarrow> nat \<Rightarrow> SBatch" where
  "slotBatch s i =
     \<lparr>KeyID = keyIDs s ! i, BucketID = bucketIDs s ! i, NetDelta = sums s ! i, SeqEnd = seqEnds s ! i\<rparr>"

definition clearSlot :: "nat \<Rightarrow> SShard \<Rightarrow> SShard" where
  "clearSlot i s =
     s\<lparr>keys := (keys s)[i := 0], keyIDs := (keyIDs s)[i := 0], bucketIDs := (bucketIDs s)[i := 0],
       sums := (sums s)[i := 0], seqEnds := (seqEnds s)[i := 0]\<rparr>"

fun flushSlots :: "nat list \<Rightarrow> SBatch list \<Rightarrow> SShard \<Rightarrow> SBatch list \<times> SShard" where
  "flushSlots [] out s = (out, s)"
| "flushSlots (i # is) out s =
     (if keys s ! i = 0 then flushSlots is out s
      else flushSlots is (out @ [slotBatch s i]) (clearSlot i s))"

definition shard_Flush :: "SBatch list \<Rightarrow> SShard \<Rightarrow> SBatch list \<times> SShard" where
  "shard_Flush out s =
     (if used s = 0 then (out, s)
      else let (out', s') = flushSlots [0..<length (keys s)] out s in (out', s'\<lparr>used := 0\<rparr>))"

fun flushKeySlots :: "u64 \<Rightarrow> nat list \<Rightarrow> SBatch list \<Rightarrow> SShard \<Rightarrow> SBatch list \<times> SShard" where
  "flushKeySlots key [] out s = (out, s)"
| "flushKeySlots key (i # is) out s =
     (if keys s ! i = 0 \<or> keyIDs s ! i \<noteq> key then flushKeySlots key is out s
      else let b = slotBatch s i; s1 = clearSlot i s
           in flushKeySlots key is (out @ [b]) (s1\<lparr>used := used s1 - 1\<rparr>))"

definition shard_FlushKey :: "u64 \<Rightarrow> SBatch list \<Rightarrow> SShard \<Rightarrow> SBatch list \<times> SShard" where
  "shard_FlushKey key out s =
     (if used s = 0 then (out, s) else flushKeySlots key [0..<length (keys s)] out s)"

section \<open>Facts on probing\<close>

text \<open>What the loop returns satisfies the stop condition, and is in range.\<close>

lemma probe_loop_found:
  "probe_loop stop tab msk i = Some j \<Longrightarrow> unat j < length tab \<and> stop (tab ! unat j)"
proof (rule probe_loop.raw_induct [of "\<lambda>stop tab msk i j. unat j < length tab \<and> stop (tab ! unat j)"])
  fix pl stop tab msk i j
  assume IH: "\<And>stop tab msk i j. pl stop tab msk i = Some j \<Longrightarrow> unat j < length tab \<and> stop (tab ! unat j)"
    and "(if unat i < length tab then if stop (tab ! unat i) then Some i else pl stop tab msk ((i + 1) AND msk)
        else None) = Some j"
  then show "unat j < length tab \<and> stop (tab ! unat j)"
    using IH [of stop tab msk "(i + 1) AND msk" j] by (simp split: if_splits)
qed

text \<open>
  Writing to a slot that stops the loop does not change what the loop returns, provided the slot
  it returns still stops it.
\<close>

lemma probe_loop_update:
  assumes "probe_loop stop tab msk i = Some j" and "stop (tab ! a)" and "a = unat j \<longrightarrow> stop x"
  shows "probe_loop stop (tab[a := x]) msk i = Some j"
proof -
  have "stop (tab ! a) \<longrightarrow> (a = unat j \<longrightarrow> stop x) \<longrightarrow> probe_loop stop (tab[a := x]) msk i = Some j"
  proof (rule probe_loop.raw_induct [of "\<lambda>stop tab msk i j. stop (tab ! a) \<longrightarrow> (a = unat j \<longrightarrow> stop x) \<longrightarrow>
        probe_loop stop (tab[a := x]) msk i = Some j", OF _ assms(1)])
    fix pl stop tab msk i j
    assume IH: "\<And>stop tab msk i j. pl stop tab msk i = Some j \<Longrightarrow>
        stop (tab ! a) \<longrightarrow> (a = unat j \<longrightarrow> stop x) \<longrightarrow> probe_loop stop (tab[a := x]) msk i = Some j"
      and eq: "(if unat i < length tab then if stop (tab ! unat i) then Some i else pl stop tab msk ((i + 1) AND msk)
        else None) = Some j"
    show "stop (tab ! a) \<longrightarrow> (a = unat j \<longrightarrow> stop x) \<longrightarrow> probe_loop stop (tab[a := x]) msk i = Some j"
    proof (intro impI)
      assume st: "stop (tab ! a)" and sx: "a = unat j \<longrightarrow> stop x"
      have len: "unat i < length tab" using eq by (simp split: if_splits)
      show "probe_loop stop (tab[a := x]) msk i = Some j"
      proof (cases "stop (tab ! unat i)")
        case True
        then have "i = j" using eq len by simp
        then have "stop (tab[a := x] ! unat i)" using True sx len by (cases "a = unat j") simp_all
        then show ?thesis using \<open>i = j\<close> len by (subst probe_loop.simps) simp
      next
        case False
        then have "pl stop tab msk ((i + 1) AND msk) = Some j" "a \<noteq> unat i" using eq len st by auto
        then show ?thesis using False st sx len IH by (subst probe_loop.simps) simp
      qed
    qed
  qed
  with assms(2,3) show ?thesis by blast
qed

text \<open>Stepping with wrap-around in a table whose size is a power of two.\<close>

lemma unat_and_mask: "unat ((x :: i64) AND (2 ^ m - 1)) = unat x mod 2 ^ m"
  by (simp only: mask_eq_exp_minus_1 [symmetric] take_bit_eq_mask [symmetric] unsigned_take_bit_eq)
    (simp add: take_bit_eq_mod)

lemma probe_next:
  assumes "m \<le> 62" and "unat (i :: i64) < 2 ^ m"
  shows "unat ((i + 1) AND (2 ^ m - 1)) = (unat i + 1) mod 2 ^ m"
proof -
  have "(2 :: nat) ^ m \<le> 2 ^ 62" using assms(1) by (intro power_increasing) simp_all
  then have "unat i + 1 < 2 ^ 64" using assms(2) by simp
  then have "unat (i + 1) = unat i + 1" by (simp add: unat_word_ariths(1) mod_less)
  then show ?thesis by (simp add: unat_and_mask)
qed

lemma probe_loop_distance:
  assumes "length tab = 2 ^ m" and "m \<le> 62" and "unat i < 2 ^ m" and "stop (tab ! ((unat i + d) mod 2 ^ m))"
  shows "\<exists>j. probe_loop stop tab (2 ^ m - 1) i = Some j"
  using assms(3,4)
proof (induction d arbitrary: i)
  case 0
  then show ?case using assms(1) by (subst probe_loop.simps) simp
next
  case (Suc d)
  show ?case
  proof (cases "stop (tab ! unat i)")
    case True
    then show ?thesis using assms(1) Suc.prems by (subst probe_loop.simps) simp
  next
    case False
    let ?i = "(i + 1) AND (2 ^ m - 1)"
    note nx = probe_next [OF assms(2) Suc.prems(1)]
    have "unat ?i < 2 ^ m" by (simp add: nx)
    moreover have "(unat ?i + d) mod 2 ^ m = (unat i + Suc d) mod 2 ^ m"
      unfolding nx by (simp add: mod_add_left_eq)
    ultimately obtain j where "probe_loop stop tab (2 ^ m - 1) ?i = Some j"
      using Suc.IH [of ?i] Suc.prems(2) by auto
    then show ?thesis using False assms(1) Suc.prems(1) by (subst probe_loop.simps) simp
  qed
qed

lemma probe_loop_returns:
  assumes "length tab = 2 ^ m" and "m \<le> 62" and "unat i < 2 ^ m" and "t < 2 ^ m" and "stop (tab ! t)"
  shows "\<exists>j. probe_loop stop tab (2 ^ m - 1) i = Some j"
proof -
  have "(unat i + (t + 2 ^ m - unat i)) mod 2 ^ m = t" using assms(3,4) by simp
  then show ?thesis using probe_loop_distance [OF assms(1-3), of stop "t + 2 ^ m - unat i"] assms(5) by simp
qed

text \<open>The loop returns exactly if some slot stops it.\<close>

lemma probe_loop_returns_iff:
  assumes "length tab = 2 ^ m" and "m \<le> 62" and "unat i < 2 ^ m"
  shows "(\<exists>j. probe_loop stop tab (2 ^ m - 1) i = Some j) \<longleftrightarrow> (\<exists>t < 2 ^ m. stop (tab ! t))"
  using probe_loop_returns [OF assms] probe_loop_found [of stop tab "2 ^ m - 1" i] assms(1) by metis

section \<open>Well-formed shards\<close>

definition wf_shard :: "SShard \<Rightarrow> bool" where
  "wf_shard s \<longleftrightarrow>
     (\<exists>m\<le>62. length (keys s) = 2 ^ m \<and> shard_mask s = 2 ^ m - 1)
     \<and> length (keyIDs s) = length (keys s) \<and> length (bucketIDs s) = length (keys s)
     \<and> length (sums s) = length (keys s) \<and> length (seqEnds s) = length (keys s)
     \<and> (\<forall>i < length (keys s). if keys s ! i = 0 then sums s ! i = 0 \<and> seqEnds s ! i = 0
          else keys s ! i = packKeyBucket (keyIDs s ! i) (bucketIDs s ! i))
     \<and> used s = word_of_nat (length (filter (\<lambda>k. k \<noteq> 0) (keys s)))"

abbreviation slot_cell :: "SShard \<Rightarrow> nat \<Rightarrow> cell" where
  "slot_cell s i \<equiv> (keyIDs s ! i, bucketIDs s ! i)"

definition slot_net :: "SShard \<Rightarrow> cell \<Rightarrow> nat \<Rightarrow> i64" where
  "slot_net s c i = (if keys s ! i \<noteq> 0 \<and> slot_cell s i = c then sums s ! i else 0)"

definition shard_net :: "SShard \<Rightarrow> cell \<Rightarrow> i64" where
  "shard_net s c = (\<Sum>i<length (keys s). slot_net s c i)"

text \<open>
  Packing two identifiers into one word is not injective and may give the word that marks an empty
  slot. A set of cells is free of aliases when neither happens within it.
\<close>

definition alias_free :: "cell set \<Rightarrow> bool" where
  "alias_free C \<longleftrightarrow> inj_on (\<lambda>(k, b). packKeyBucket k b) C \<and> (\<forall>(k, b) \<in> C. packKeyBucket k b \<noteq> 0)"

definition holds_only :: "cell set \<Rightarrow> SShard \<Rightarrow> bool" where
  "holds_only C s \<longleftrightarrow> (\<forall>i < length (keys s). keys s ! i \<noteq> 0 \<longrightarrow> slot_cell s i \<in> C)"

lemma alias_free_subset: "alias_free C \<Longrightarrow> D \<subseteq> C \<Longrightarrow> alias_free D"
  by (auto simp: alias_free_def intro: inj_on_subset)

lemma wf_shard_lengths:
  "wf_shard s \<Longrightarrow> length (keyIDs s) = length (keys s) \<and> length (bucketIDs s) = length (keys s)
     \<and> length (sums s) = length (keys s) \<and> length (seqEnds s) = length (keys s)"
  by (simp add: wf_shard_def)

lemma probe_found: "probe s k = Some i \<Longrightarrow> unat i < length (keys s) \<and> (keys s ! unat i = 0 \<or> keys s ! unat i = k)"
  using probe_loop_found [of "\<lambda>kk. kk = 0 \<or> kk = k"] by (simp add: probe_def)

lemma probe_returns_iff:
  assumes "wf_shard s"
  shows "(\<exists>i. probe s k = Some i) \<longleftrightarrow> (\<exists>t < length (keys s). keys s ! t = 0 \<or> keys s ! t = k)"
proof -
  obtain m where m: "m \<le> 62" "length (keys s) = 2 ^ m" "shard_mask s = 2 ^ m - 1"
    using assms by (auto simp: wf_shard_def)
  have "unat (k AND (2 ^ m - 1)) < 2 ^ m" by (simp add: unat_and_mask)
  from probe_loop_returns_iff [OF m(2,1) this] m show ?thesis by (simp add: probe_def)
qed

section \<open>Ingestion\<close>

lemma maybeFlush_frame [simp]:
  "wf_shard (snd (maybeFlush now s)) = wf_shard s" "shard_net (snd (maybeFlush now s)) = shard_net s"
  "holds_only C (snd (maybeFlush now s)) = holds_only C s" "keys (snd (maybeFlush now s)) = keys s"
proof -
  obtain t where eq: "snd (maybeFlush now s) = s\<lparr>lastFlushAt := t\<rparr>"
    by (cases "fst (maybeFlush now s)") (fastforce simp: maybeFlush_def split: if_splits intro: that [of "lastFlushAt s"])+
  show "wf_shard (snd (maybeFlush now s)) = wf_shard s" "shard_net (snd (maybeFlush now s)) = shard_net s"
    "holds_only C (snd (maybeFlush now s)) = holds_only C s" "keys (snd (maybeFlush now s)) = keys s"
    unfolding eq by (simp_all add: wf_shard_def shard_net_def slot_net_def holds_only_def fun_eq_iff cong: if_cong)
qed

text \<open>The slot written by an ingestion, and all other slots.\<close>

definition ingestAt :: "nat \<Rightarrow> u64 \<Rightarrow> Envelope \<Rightarrow> SShard \<Rightarrow> SShard" where
  "ingestAt i k env s = addSlot i env (claimSlot i k env s)"

lemma ingestAt_other:
  "j \<noteq> i \<Longrightarrow> keys (ingestAt i k env s) ! j = keys s ! j" "j \<noteq> i \<Longrightarrow> keyIDs (ingestAt i k env s) ! j = keyIDs s ! j"
  "j \<noteq> i \<Longrightarrow> bucketIDs (ingestAt i k env s) ! j = bucketIDs s ! j" "j \<noteq> i \<Longrightarrow> sums (ingestAt i k env s) ! j = sums s ! j"
  "j \<noteq> i \<Longrightarrow> seqEnds (ingestAt i k env s) ! j = seqEnds s ! j"
  by (simp_all add: ingestAt_def addSlot_def claimSlot_def)

lemma ingestAt_lengths [simp]:
  "length (keys (ingestAt i k env s)) = length (keys s)" "length (keyIDs (ingestAt i k env s)) = length (keyIDs s)"
  "length (bucketIDs (ingestAt i k env s)) = length (bucketIDs s)" "length (sums (ingestAt i k env s)) = length (sums s)"
  "length (seqEnds (ingestAt i k env s)) = length (seqEnds s)" "shard_mask (ingestAt i k env s) = shard_mask s"
  by (simp_all add: ingestAt_def addSlot_def claimSlot_def)

lemma ingestAt_here:
  assumes "wf_shard s" and "i < length (keys s)" and "keys s ! i = 0 \<or> keys s ! i = k \<and> slot_cell s i = env_cell env"
  shows "keys (ingestAt i k env s) ! i = k" and "slot_cell (ingestAt i k env s) i = env_cell env"
    and "sums (ingestAt i k env s) ! i = sums s ! i + Delta env"
    and "seqEnds (ingestAt i k env s) ! i = max (seqEnds s ! i) (env_SeqEnd env)"
  using assms by (auto simp: ingestAt_def addSlot_def claimSlot_def wf_shard_def env_cell_def max_def word_gt_0)

lemma ingestAt_used:
  assumes "wf_shard s" and "i < length (keys s)" and "keys s ! i = 0 \<or> keys s ! i = k" and "k \<noteq> 0"
  shows "used (ingestAt i k env s) = word_of_nat (length (filter (\<lambda>k. k \<noteq> 0) (keys (ingestAt i k env s))))"
proof (cases "keys s ! i = 0")
  case True
  then have "length (filter (\<lambda>k. k \<noteq> 0) ((keys s)[i := k])) = length (filter (\<lambda>k. k \<noteq> 0) (keys s)) + 1"
    using count_list_update [OF assms(2), of "\<lambda>k. k \<noteq> 0" k] assms(4) by simp
  with True assms(1) show ?thesis by (simp add: ingestAt_def addSlot_def claimSlot_def wf_shard_def)
next
  case False
  with assms(1) show ?thesis by (simp add: ingestAt_def addSlot_def claimSlot_def wf_shard_def)
qed

lemma ingestAt_wf:
  assumes "wf_shard s" and "i < length (keys s)" and "keys s ! i = 0 \<or> keys s ! i = k \<and> slot_cell s i = env_cell env"
    and "k = packKeyBucket (fst (env_cell env)) (snd (env_cell env))" and "k \<noteq> 0"
  shows "wf_shard (ingestAt i k env s)"
proof -
  let ?s = "ingestAt i k env s"
  note here = ingestAt_here [OF assms(1-3)]
  have "if keys ?s ! j = 0 then sums ?s ! j = 0 \<and> seqEnds ?s ! j = 0
      else keys ?s ! j = packKeyBucket (keyIDs ?s ! j) (bucketIDs ?s ! j)" if "j < length (keys s)" for j
  proof (cases "j = i")
    case True
    have "keys ?s ! i = packKeyBucket (keyIDs ?s ! i) (bucketIDs ?s ! i)"
      using here(1,2) assms(4) by (metis fst_conv snd_conv)
    with True here(1) assms(5) show ?thesis by simp
  next
    case False
    with that assms(1) show ?thesis by (simp add: ingestAt_other wf_shard_def)
  qed
  moreover have "used ?s = word_of_nat (length (filter (\<lambda>k. k \<noteq> 0) (keys ?s)))"
    using assms by (intro ingestAt_used) auto
  ultimately show ?thesis using assms(1) by (simp add: wf_shard_def)
qed

lemma ingestAt_net:
  assumes "wf_shard s" and "i < length (keys s)" and "keys s ! i = 0 \<or> keys s ! i = k \<and> slot_cell s i = env_cell env"
    and "k \<noteq> 0"
  shows "shard_net (ingestAt i k env s) c = shard_net s c + (if env_cell env = c then Delta env else 0)"
  unfolding shard_net_def ingestAt_lengths
proof (rule sum_point_update [of _ i])
  note here = ingestAt_here [OF assms(1-3)]
  have "keys s ! i = 0 \<Longrightarrow> sums s ! i = 0" using assms(1,2) by (auto simp: wf_shard_def)
  then show "slot_net (ingestAt i k env s) c i = slot_net s c i + (if env_cell env = c then Delta env else 0)"
    using here assms(3,4) by (auto simp: slot_net_def)
  show "slot_net (ingestAt i k env s) c j = slot_net s c j" if "j \<in> {..<length (keys s)}" "j \<noteq> i" for j
    using that by (simp add: slot_net_def ingestAt_other)
qed (use assms(2) in simp_all)

lemma ingestAt_holds:
  assumes "wf_shard s" and "i < length (keys s)" and "keys s ! i = 0 \<or> keys s ! i = k \<and> slot_cell s i = env_cell env"
    and "holds_only C s" and "env_cell env \<in> C"
  shows "holds_only C (ingestAt i k env s)"
proof -
  have "slot_cell (ingestAt i k env s) j \<in> C" if "j < length (keys s)" "keys (ingestAt i k env s) ! j \<noteq> 0" for j
    using that assms(4,5) ingestAt_here(2) [OF assms(1-3)] by (cases "j = i") (auto simp: ingestAt_other holds_only_def)
  then show ?thesis by (simp add: holds_only_def)
qed

text \<open>Ingestion of an envelope whose cell belongs to an alias-free set that contains all held cells.\<close>

lemma shard_Ingest_spec:
  assumes "alias_free C" and "wf_shard s" and "holds_only C s" and "env_cell env \<in> C"
    and "shard_Ingest now env s = Some s'"
  shows "wf_shard s'" and "holds_only C s'"
    and "shard_net s' c = shard_net s c + (if env_cell env = c then Delta env else 0)"
    and "length (keys s') = length (keys s)"
proof -
  let ?k = "packKeyBucket (fst (env_cell env)) (snd (env_cell env))"
  obtain i where i: "probe s ?k = Some i" and s': "s' = snd (maybeFlush now (ingestAt (unat i) ?k env s))"
    using assms(5) by (auto simp: shard_Ingest_def env_cell_def ingestAt_def Let_def split: option.splits)
  have k: "?k \<noteq> 0" using assms(1,4) by (auto simp: alias_free_def split_beta)
  note f = probe_found [OF i]
  have slot: "keys s ! unat i = 0 \<or> keys s ! unat i = ?k \<and> slot_cell s (unat i) = env_cell env"
  proof (cases "keys s ! unat i = 0")
    case False
    with f have eq: "keys s ! unat i = ?k" by simp
    have "keys s ! unat i = packKeyBucket (keyIDs s ! unat i) (bucketIDs s ! unat i)" "slot_cell s (unat i) \<in> C"
      using assms(2,3) f False by (auto simp: wf_shard_def holds_only_def)
    then have "slot_cell s (unat i) = env_cell env"
      using assms(1,4) eq inj_onD [of "\<lambda>(k, b). packKeyBucket k b" C "slot_cell s (unat i)" "env_cell env"]
      by (simp add: alias_free_def split_beta)
    with eq show ?thesis by simp
  qed simp
  have len: "unat i < length (keys s)" using f by simp
  show "wf_shard s'" using ingestAt_wf [OF assms(2) len slot refl k] s' by simp
  show "holds_only C s'" using ingestAt_holds [OF assms(2) len slot assms(3,4)] s' by simp
  show "shard_net s' c = shard_net s c + (if env_cell env = c then Delta env else 0)"
    using ingestAt_net [OF assms(2) len slot k] s' by simp
  show "length (keys s') = length (keys s)" using s' by simp
qed

section \<open>Flushing\<close>

lemma clearSlot_fields [simp]:
  "length (keys (clearSlot i s)) = length (keys s)" "length (keyIDs (clearSlot i s)) = length (keyIDs s)"
  "length (bucketIDs (clearSlot i s)) = length (bucketIDs s)" "length (sums (clearSlot i s)) = length (sums s)"
  "length (seqEnds (clearSlot i s)) = length (seqEnds s)" "shard_mask (clearSlot i s) = shard_mask s"
  "used (clearSlot i s) = used s"
  by (simp_all add: clearSlot_def)

lemma clearSlot_other:
  "j \<noteq> i \<Longrightarrow> slotBatch (clearSlot i s) j = slotBatch s j" "j \<noteq> i \<Longrightarrow> keys (clearSlot i s) ! j = keys s ! j"
  "j \<noteq> i \<Longrightarrow> keyIDs (clearSlot i s) ! j = keyIDs s ! j"
  by (simp_all add: clearSlot_def slotBatch_def)

lemma flushSlots_eq:
  "distinct is \<Longrightarrow> flushSlots is out s =
     (let js = filter (\<lambda>i. keys s ! i \<noteq> 0) is in (out @ map (slotBatch s) js, fold clearSlot js s))"
proof (induction "is" arbitrary: out s)
  case (Cons i "is")
  have other: "keys (clearSlot i s) ! j = keys s ! j" "slotBatch (clearSlot i s) j = slotBatch s j" if "j \<in> set is" for j
    using that Cons.prems clearSlot_other [of j i s] by (cases "j = i"; simp)+
  have "filter (\<lambda>j. keys (clearSlot i s) ! j \<noteq> 0) is = filter (\<lambda>j. keys s ! j \<noteq> 0) is"
    using other(1) by (simp cong: filter_cong)
  moreover have "map (slotBatch (clearSlot i s)) (filter (\<lambda>j. keys s ! j \<noteq> 0) is) = map (slotBatch s) (filter (\<lambda>j. keys s ! j \<noteq> 0) is)"
    using other(2) by simp
  ultimately show ?case using Cons by (simp add: Let_def)
qed simp

lemma flushKeySlots_eq:
  "distinct is \<Longrightarrow> flushKeySlots key is out s =
     (let js = filter (\<lambda>i. keys s ! i \<noteq> 0 \<and> keyIDs s ! i = key) is
      in (out @ map (slotBatch s) js, (fold clearSlot js s)\<lparr>used := used s - word_of_nat (length js)\<rparr>))"
proof (induction "is" arbitrary: out s)
  case (Cons i "is")
  let ?P = "\<lambda>s j. keys s ! j \<noteq> 0 \<and> keyIDs s ! j = key" and ?s = "clearSlot i s"
  have "clearSlot j (t\<lparr>used := u\<rparr>) = (clearSlot j t)\<lparr>used := u\<rparr>" for j t u by (simp add: clearSlot_def)
  then have fold_used: "fold clearSlot js (t\<lparr>used := u\<rparr>) = (fold clearSlot js t)\<lparr>used := u\<rparr>" for js t u
    by (induction js arbitrary: t) simp_all
  have other: "keys ?s ! j = keys s ! j" "keyIDs ?s ! j = keyIDs s ! j" "slotBatch ?s j = slotBatch s j" if "j \<in> set is" for j
    using that Cons.prems clearSlot_other [of j i s] by (cases "j = i"; simp)+
  have "filter (?P ?s) is = filter (?P s) is"
    using other(1,2) by (simp cong: filter_cong)
  moreover have "map (slotBatch ?s) (filter (?P s) is) = map (slotBatch s) (filter (?P s) is)"
    using other(3) by simp
  moreover have "slotBatch (t\<lparr>used := u\<rparr>) = slotBatch t" for t u by (simp add: slotBatch_def fun_eq_iff)
  ultimately show ?case using Cons by (simp add: Let_def fold_used)
qed simp

lemma cleared_lengths [simp]:
  "length (keys (fold clearSlot js s)) = length (keys s)" "length (keyIDs (fold clearSlot js s)) = length (keyIDs s)"
  "length (bucketIDs (fold clearSlot js s)) = length (bucketIDs s)" "length (sums (fold clearSlot js s)) = length (sums s)"
  "length (seqEnds (fold clearSlot js s)) = length (seqEnds s)" "shard_mask (fold clearSlot js s) = shard_mask s"
  by (induction js arbitrary: s) simp_all

lemma cleared_nth:
  "j < length (keys s) \<Longrightarrow> keys (fold clearSlot js s) ! j = (if j \<in> set js then 0 else keys s ! j)"
  "j < length (sums s) \<Longrightarrow> sums (fold clearSlot js s) ! j = (if j \<in> set js then 0 else sums s ! j)"
  "j < length (seqEnds s) \<Longrightarrow> seqEnds (fold clearSlot js s) ! j = (if j \<in> set js then 0 else seqEnds s ! j)"
  "j < length (keyIDs s) \<Longrightarrow> keyIDs (fold clearSlot js s) ! j = (if j \<in> set js then 0 else keyIDs s ! j)"
  "j < length (bucketIDs s) \<Longrightarrow> bucketIDs (fold clearSlot js s) ! j = (if j \<in> set js then 0 else bucketIDs s ! j)"
  by (induction js arbitrary: s) (auto simp: clearSlot_def nth_list_update)

lemma cleared_count:
  "distinct js \<Longrightarrow> \<forall>j \<in> set js. j < length (keys s) \<and> keys s ! j \<noteq> 0 \<Longrightarrow>
     length (filter (\<lambda>k. k \<noteq> 0) (keys (fold clearSlot js s))) + length js = length (filter (\<lambda>k. k \<noteq> 0) (keys s))"
proof (induction js arbitrary: s)
  case (Cons j js)
  have "length (filter (\<lambda>k. k \<noteq> 0) (keys (clearSlot j s))) + 1 = length (filter (\<lambda>k. k \<noteq> 0) (keys s))"
    using Cons.prems count_list_update [of j "keys s" "\<lambda>k. k \<noteq> 0" 0] by (simp add: clearSlot_def)
  moreover have "\<forall>i \<in> set js. i < length (keys (clearSlot j s)) \<and> keys (clearSlot j s) ! i \<noteq> 0"
    using Cons.prems clearSlot_other(2) [of _ j s] by (metis clearSlot_fields(1) distinct.simps(2) list.set_intros(2))
  ultimately show ?case using Cons.IH [of "clearSlot j s"] Cons.prems(1) by simp
qed simp

text \<open>The two parts a selection of occupied slots splits the table into.\<close>

lemma cleared_net:
  assumes "wf_shard s" and "distinct js" and "\<forall>j \<in> set js. j < length (keys s) \<and> keys s ! j \<noteq> 0"
  shows "batch_net (map (slotBatch s) js) c + shard_net ((fold clearSlot js s)\<lparr>used := u\<rparr>) c = shard_net s c"
proof -
  let ?t = "fold clearSlot js s" and ?n = "length (keys s)"
  have "shard_net (?t\<lparr>used := u\<rparr>) c = (\<Sum>i<?n. if i \<in> set js then 0 else slot_net s c i)"
    unfolding shard_net_def
    using wf_shard_lengths [OF assms(1)] by (intro sum.cong) (auto simp: slot_net_def cleared_nth)
  also have "\<dots> = (\<Sum>i \<in> {..<?n} - set js. slot_net s c i)"
    by (intro sum.mono_neutral_cong_right) auto
  finally have rest: "shard_net (?t\<lparr>used := u\<rparr>) c = (\<Sum>i \<in> {..<?n} - set js. slot_net s c i)" .
  have "batch_net (map (slotBatch s) js) c = (\<Sum>j\<leftarrow>js. slot_net s c j)"
    using assms(3) by (induction js) (auto simp: slot_net_def batch_cell_def slotBatch_def)
  also have "\<dots> = (\<Sum>j \<in> set js. slot_net s c j)"
    by (rule sum_list_distinct_conv_sum_set [OF assms(2)])
  finally have "batch_net (map (slotBatch s) js) c + shard_net (?t\<lparr>used := u\<rparr>) c =
    (\<Sum>i \<in> {..<?n} - set js. slot_net s c i) + (\<Sum>j \<in> set js. slot_net s c j)"
    by (simp only: rest add.commute)
  also have "\<dots> = shard_net s c"
    unfolding shard_net_def using assms(3) by (intro sum.subset_diff [symmetric]) auto
  finally show ?thesis .
qed

lemma cleared_wf:
  assumes "wf_shard s" and "distinct js" and "\<forall>j \<in> set js. j < length (keys s) \<and> keys s ! j \<noteq> 0"
  shows "wf_shard ((fold clearSlot js s)\<lparr>used := used s - word_of_nat (length js)\<rparr>)"
proof -
  let ?t = "fold clearSlot js s"
  have "used s - word_of_nat (length js) = word_of_nat (length (filter (\<lambda>k. k \<noteq> 0) (keys (fold clearSlot js s))))"
  proof -
    have "used s = word_of_nat (length (filter (\<lambda>k. k \<noteq> 0) (keys ?t)) + length js)"
      using assms(1) by (simp only: cleared_count [OF assms(2,3)] wf_shard_def)
    then show ?thesis by simp
  qed
  moreover have "if keys ?t ! i = 0 then sums ?t ! i = 0 \<and> seqEnds ?t ! i = 0
      else keys ?t ! i = packKeyBucket (keyIDs ?t ! i) (bucketIDs ?t ! i)" if "i < length (keys s)" for i
    using assms(1) that by (cases "i \<in> set js") (simp_all add: cleared_nth wf_shard_def)
  ultimately show ?thesis using assms(1) by (simp add: wf_shard_def)
qed

lemma cleared_holds: "wf_shard s \<Longrightarrow> holds_only C s \<Longrightarrow> holds_only C ((fold clearSlot js s)\<lparr>used := u\<rparr>)"
  using wf_shard_lengths [of s] by (auto simp: holds_only_def cleared_nth)

text \<open>The counter of used slots is exact, because a table has at most \<open>2 ^ 62\<close> slots.\<close>

lemma used_zero:
  assumes "wf_shard s"
  shows "used s = 0 \<longleftrightarrow> (\<forall>i < length (keys s). keys s ! i = 0)"
proof -
  let ?c = "length (filter (\<lambda>k. k \<noteq> 0) (keys s))"
  obtain m where "m \<le> 62" "length (keys s) = 2 ^ m" using assms by (auto simp: wf_shard_def)
  have "?c \<le> 2 ^ m" using length_filter_le [of "\<lambda>k. k \<noteq> 0" "keys s"] \<open>length (keys s) = 2 ^ m\<close> by simp
  also have "\<dots> \<le> 2 ^ 62" using \<open>m \<le> 62\<close> by (intro power_increasing) simp_all
  finally have "?c \<le> 2 ^ 62" .
  then have "unat (used s) = ?c" using assms by (simp add: wf_shard_def unat_of_nat_small)
  then have "used s = 0 \<longleftrightarrow> ?c = 0" by (metis unat_eq_zero)
  then show ?thesis by (simp add: filter_empty_conv all_set_conv_all_nth)
qed

lemma empty_shard_net: "wf_shard s \<Longrightarrow> used s = 0 \<Longrightarrow> shard_net s c = 0"
  using used_zero [of s] by (simp add: shard_net_def slot_net_def)

lemma shard_Flush_spec:
  assumes "wf_shard s" and "shard_Flush out s = (out', s')"
  shows "wf_shard s'" and "batch_net out' c = batch_net out c + shard_net s c" and "shard_net s' c = 0"
    and "used s' = 0" and "holds_only C s'" and "length (keys s') = length (keys s)"
proof -
  have "wf_shard s' \<and> batch_net out' c = batch_net out c + shard_net s c \<and> used s' = 0 \<and> length (keys s') = length (keys s)"
  proof (cases "used s = 0")
    case True
    then show ?thesis using assms empty_shard_net by (simp add: shard_Flush_def)
  next
    case False
    define js where "js = filter (\<lambda>i. keys s ! i \<noteq> 0) [0..<length (keys s)]"
    have js: "distinct js" "\<forall>j \<in> set js. j < length (keys s) \<and> keys s ! j \<noteq> 0" by (auto simp: js_def)
    have eq: "out' = out @ map (slotBatch s) js" "s' = (fold clearSlot js s)\<lparr>used := 0\<rparr>"
      using assms(2) False by (auto simp: shard_Flush_def flushSlots_eq js_def Let_def)
    have "filter (\<lambda>k. k \<noteq> 0) (map ((!) (keys s)) [0..<length (keys s)]) = map ((!) (keys s)) js"
      unfolding filter_map js_def comp_def ..
    then have "length js = length (filter (\<lambda>k. k \<noteq> 0) (keys s))" by (simp add: map_nth)
    then have "used s - word_of_nat (length js) = 0" using assms(1) by (simp add: wf_shard_def)
    then have wf: "wf_shard s'" using cleared_wf [OF assms(1) js] eq(2) by simp
    moreover have "shard_net s' c = 0" using wf eq(2) by (simp add: empty_shard_net)
    ultimately show ?thesis using cleared_net [OF assms(1) js, of c 0] eq by simp
  qed
  then show "wf_shard s'" "batch_net out' c = batch_net out c + shard_net s c" "used s' = 0" "length (keys s') = length (keys s)"
    by simp_all
  then show "shard_net s' c = 0" "holds_only C s'"
    using empty_shard_net used_zero [of s'] by (auto simp: holds_only_def)
qed

lemma shard_FlushKey_spec:
  assumes "wf_shard s" and "shard_FlushKey key out s = (out', s')"
  shows "wf_shard s'" and "batch_net out' c + shard_net s' c = batch_net out c + shard_net s c"
    and "holds_only C s \<Longrightarrow> holds_only C s'"
proof -
  define js where "js = filter (\<lambda>i. keys s ! i \<noteq> 0 \<and> keyIDs s ! i = key) [0..<length (keys s)]"
  have js: "distinct js" "\<forall>j \<in> set js. j < length (keys s) \<and> keys s ! j \<noteq> 0" by (auto simp: js_def)
  have wf: "wf_shard ((fold clearSlot js s)\<lparr>used := used s - word_of_nat (length js)\<rparr>)" (is "wf_shard ?t")
    by (rule cleared_wf [OF assms(1) js])
  have net: "batch_net (map (slotBatch s) js) c + shard_net ?t c = shard_net s c" by (rule cleared_net [OF assms(1) js])
  have "out' = out \<and> s' = s \<or> out' = out @ map (slotBatch s) js \<and> s' = ?t"
    using assms(2) by (auto simp: shard_FlushKey_def flushKeySlots_eq js_def Let_def split: if_splits)
  then have "wf_shard s' \<and> batch_net out' c + shard_net s' c = batch_net out c + shard_net s c \<and> (holds_only C s \<longrightarrow> holds_only C s')"
  proof
    assume "out' = out @ map (slotBatch s) js \<and> s' = ?t"
    then show ?thesis using wf net cleared_holds [OF assms(1), of C] by (simp add: add.assoc)
  qed (use assms(1) in simp)
  then show "wf_shard s'" "batch_net out' c + shard_net s' c = batch_net out c + shard_net s c"
    "holds_only C s \<Longrightarrow> holds_only C s'" by simp_all
qed

text \<open>The loop only depends on which slots stop it.\<close>

lemma probe_loop_cong:
  assumes "probe_loop stop tab msk i = Some j" and "length tab' = length tab"
    and "\<And>a. a < length tab \<Longrightarrow> stop (tab' ! a) = stop (tab ! a)"
  shows "probe_loop stop tab' msk i = Some j"
proof -
  have "length tab' = length tab \<longrightarrow> (\<forall>a < length tab. stop (tab' ! a) = stop (tab ! a)) \<longrightarrow> probe_loop stop tab' msk i = Some j"
  proof (rule probe_loop.raw_induct [of "\<lambda>stop tab msk i j. length tab' = length tab \<longrightarrow>
        (\<forall>a < length tab. stop (tab' ! a) = stop (tab ! a)) \<longrightarrow> probe_loop stop tab' msk i = Some j", OF _ assms(1)])
    fix pl stop tab msk i j
    assume "\<And>stop tab msk i j. pl stop tab msk i = Some j \<Longrightarrow> length tab' = length tab \<longrightarrow>
        (\<forall>a < length tab. stop (tab' ! a) = stop (tab ! a)) \<longrightarrow> probe_loop stop tab' msk i = Some j"
      and "(if unat i < length tab then if stop (tab ! unat i) then Some i else pl stop tab msk ((i + 1) AND msk)
        else None) = Some j"
    then show "length tab' = length tab \<longrightarrow> (\<forall>a < length tab. stop (tab' ! a) = stop (tab ! a)) \<longrightarrow>
        probe_loop stop tab' msk i = Some j"
      by (subst probe_loop.simps) (auto split: if_splits)
  qed
  with assms(2,3) show ?thesis by blast
qed

end
