(* ===== verification/TFD_Service.thy ===== *)
theory TFD_Service
  imports TFD_Table
begin

text \<open>
  The Scalar lane: the sharded accumulator (plugin/tfd/saccumulator_wrap.go) and the background
  service that owns it (sservice.go). The interface that a shard and the sharded accumulator have
  in common is the locale \<open>net_accumulator\<close>; what the service needs of a batch transformer
  is the locale \<open>sbatch_transformer\<close>.
\<close>

section \<open>The sharded accumulator\<close>

record SAccumulator =
  shards :: "SShard list"

fun makeShards :: "nat \<Rightarrow> (nat \<Rightarrow> i64) \<Rightarrow> nat \<Rightarrow> i64 \<Rightarrow> i64 \<Rightarrow> SShard list option" where
  "makeShards 0 clk order ct cap = Some []"
| "makeShards (Suc p) clk order ct cap =
     (case newSShard (clk 0) order ct cap of
        None \<Rightarrow> None
      | Some s \<Rightarrow> map_option ((#) s) (makeShards p (clk \<circ> Suc) order ct cap))"

definition NewSAccumulator :: "(nat \<Rightarrow> i64) \<Rightarrow> i64 \<Rightarrow> i64 \<Rightarrow> i64 \<Rightarrow> i64 \<Rightarrow> SAccumulator option" where
  "NewSAccumulator clk p orderPow2 ct cap =
     (let p = (if p \<le>s 0 then 1 else p); orderPow2 = (if orderPow2 \<le>s 0 then 8 else orderPow2)
      in map_option (\<lambda>ss. \<lparr>shards = ss\<rparr>) (makeShards (unat p) clk (unat orderPow2) ct cap))"

definition shardIndex :: "SAccumulator \<Rightarrow> u64 \<Rightarrow> u64 \<Rightarrow> nat" where
  "shardIndex a keyID bucketID = unat (packKeyBucket keyID bucketID mod word_of_nat (length (shards a)))"

definition acc_Ingest :: "i64 \<Rightarrow> Envelope \<Rightarrow> SAccumulator \<Rightarrow> SAccumulator option" where
  "acc_Ingest now env a =
     (if env_Channel env \<noteq> ChannelScalar then Some a
      else let i = shardIndex a (fp_KeyID (env_Footprint env)) (time_BucketID (fp_Time (env_Footprint env)))
           in if i < length (shards a) then
                map_option (\<lambda>s. a\<lparr>shards := (shards a)[i := s]\<rparr>) (shard_Ingest now env (shards a ! i))
              else None)"

fun flushShards :: "SShard list \<Rightarrow> SBatch list \<Rightarrow> SBatch list \<times> SShard list" where
  "flushShards [] out = (out, [])"
| "flushShards (s # ss) out =
     (let (out1, s1) = shard_Flush out s; (out2, ss2) = flushShards ss out1 in (out2, s1 # ss2))"

definition FlushAll :: "SAccumulator \<Rightarrow> SBatch list \<times> SAccumulator" where
  "FlushAll a = (let (out, ss) = flushShards (shards a) [] in (out, a\<lparr>shards := ss\<rparr>))"

section \<open>The service\<close>

record SServiceOptions =
  Buffer :: i64
  FlushInterval :: i64

text \<open>
  \<open>inq\<close> is the content of the ingress channel, \<open>sink\<close> the calls of \<open>OnSBatches\<close> so far (\<open>None\<close>
  for a nil sink), \<open>svc_stop\<close> and \<open>svc_done\<close> say whether the stop and done channels are
  closed, and \<open>flushReqs\<close> counts the requests in the flush request channel, which has capacity one.
\<close>

record SService =
  svc_acc :: SAccumulator
  svc_sink :: "SBatch list list option"
  inq :: "Envelope list"
  svc_opts :: SServiceOptions
  svc_started :: bool
  svc_stop :: bool
  svc_done :: bool
  flushReqs :: nat

type_synonym compressor = "(SBatch list \<Rightarrow> SBatch list) option"

definition NewSService :: "SAccumulator \<Rightarrow> SBatch list list option \<Rightarrow> SServiceOptions \<Rightarrow> SService" where
  "NewSService a snk opts =
     (let opts = (if Buffer opts \<le>s 0 then opts\<lparr>Buffer := 4096\<rparr> else opts);
          opts = (if FlushInterval opts \<le>s 0 then opts\<lparr>FlushInterval := 2000000\<rparr> else opts)
      in \<lparr>svc_acc = a, svc_sink = snk, inq = [], svc_opts = opts, svc_started = False, svc_stop = False,
          svc_done = False, flushReqs = 0\<rparr>)"

definition svc_Start :: "SService \<Rightarrow> SService" where
  "svc_Start s = s\<lparr>svc_started := True\<rparr>"

text \<open>
  The first half of \<open>Stop\<close> and \<open>Flush\<close>; the second half only waits for the goroutine. Closing a
  closed channel panics (\<open>None\<close>), and a flush request blocks while the channel is full (\<open>None\<close>).
\<close>

definition svc_Stop :: "SService \<Rightarrow> SService option" where
  "svc_Stop s = (if svc_stop s then None else Some (s\<lparr>svc_stop := True\<rparr>))"

definition svc_Flush :: "SService \<Rightarrow> SService option" where
  "svc_Flush s = (if flushReqs s < 1 then Some (s\<lparr>flushReqs := flushReqs s + 1\<rparr>) else None)"

definition TryIngest :: "Envelope \<Rightarrow> SService \<Rightarrow> bool \<times> SService" where
  "TryIngest env s =
     (if env_Channel env \<noteq> ChannelScalar then (True, s)
      else if int (length (inq s)) < sint (Buffer (svc_opts s)) then (True, s\<lparr>inq := inq s @ [env]\<rparr>)
      else (False, s))"

text \<open>A blocking \<open>Ingest\<close>; \<open>None\<close> while the buffer is full.\<close>

definition svc_Ingest :: "Envelope \<Rightarrow> SService \<Rightarrow> SService option" where
  "svc_Ingest env s =
     (if env_Channel env \<noteq> ChannelScalar then Some s
      else if int (length (inq s)) < sint (Buffer (svc_opts s)) then Some (s\<lparr>inq := inq s @ [env]\<rparr>)
      else None)"

definition svc_flush :: "compressor \<Rightarrow> SService \<Rightarrow> SService" where
  "svc_flush vsa s =
     (let (b, a) = FlushAll (svc_acc s); s = s\<lparr>svc_acc := a\<rparr>
      in if b = [] then s
         else let b = (case vsa of None \<Rightarrow> b | Some compress \<Rightarrow> compress b)
              in if b \<noteq> [] then s\<lparr>svc_sink := map_option (\<lambda>log. log @ [b]) (svc_sink s)\<rparr> else s)"

definition receive :: "i64 \<Rightarrow> Envelope \<Rightarrow> SAccumulator \<Rightarrow> SAccumulator option" where
  "receive now env a = (if env_Channel env = ChannelScalar then acc_Ingest now env a else Some a)"

fun drain :: "(nat \<Rightarrow> i64) \<Rightarrow> Envelope list \<Rightarrow> SAccumulator \<Rightarrow> SAccumulator option" where
  "drain clk [] a = Some a"
| "drain clk (env # rest) a =
     (case receive (clk 0) env a of None \<Rightarrow> None | Some a1 \<Rightarrow> drain (clk \<circ> Suc) rest a1)"

text \<open>
  The rounds of the service goroutine, one per branch of its \<open>select\<close>, and the calls of its
  clients, with the envelopes that a step accepts into the lane.
\<close>

inductive svc_step :: "compressor \<Rightarrow> SService \<Rightarrow> Envelope list \<Rightarrow> SService \<Rightarrow> bool" for vsa :: compressor where
  call_start: "svc_step vsa s [] (svc_Start s)"
| call_ingest: "svc_Ingest env s = Some s' \<Longrightarrow>
    svc_step vsa s (if env_Channel env = ChannelScalar then [env] else []) s'"
| call_try_ingest: "TryIngest env s = (ok, s') \<Longrightarrow>
    svc_step vsa s (if ok \<and> env_Channel env = ChannelScalar then [env] else []) s'"
| call_stop: "svc_Stop s = Some s' \<Longrightarrow> svc_step vsa s [] s'"
| call_flush: "svc_Flush s = Some s' \<Longrightarrow> svc_step vsa s [] s'"
| run_receive: "svc_started s \<Longrightarrow> \<not> svc_done s \<Longrightarrow> inq s = env # rest \<Longrightarrow> receive now env (svc_acc s) = Some a \<Longrightarrow>
    svc_step vsa s [] (s\<lparr>inq := rest, svc_acc := a\<rparr>)"
| run_tick: "svc_started s \<Longrightarrow> \<not> svc_done s \<Longrightarrow> svc_step vsa s [] (svc_flush vsa s)"
| run_flush_request: "svc_started s \<Longrightarrow> \<not> svc_done s \<Longrightarrow> drain clk (inq s) (svc_acc s) = Some a \<Longrightarrow>
    0 < flushReqs s \<Longrightarrow>
    svc_step vsa s [] (svc_flush vsa (s\<lparr>inq := [], svc_acc := a, flushReqs := flushReqs s - 1\<rparr>))"
| run_stop: "svc_started s \<Longrightarrow> \<not> svc_done s \<Longrightarrow> svc_stop s \<Longrightarrow> drain clk (inq s) (svc_acc s) = Some a \<Longrightarrow>
    svc_step vsa s [] ((svc_flush vsa (s\<lparr>inq := [], svc_acc := a\<rparr>))\<lparr>svc_done := True\<rparr>)"

inductive svc_run :: "compressor \<Rightarrow> SService \<Rightarrow> Envelope list \<Rightarrow> SService \<Rightarrow> bool" for vsa :: compressor where
  run_none: "svc_run vsa s [] s"
| run_more: "svc_run vsa s es s1 \<Longrightarrow> svc_step vsa s1 es' s2 \<Longrightarrow> svc_run vsa s (es @ es') s2"

section \<open>Accumulators\<close>

locale net_accumulator =
  fixes inv :: "'s \<Rightarrow> bool" and net :: "'s \<Rightarrow> cell \<Rightarrow> i64" and cells :: "cell set"
    and ingest :: "i64 \<Rightarrow> Envelope \<Rightarrow> 's \<Rightarrow> 's option" and flush :: "'s \<Rightarrow> SBatch list \<times> 's"
  assumes ingest_adds: "inv s \<Longrightarrow> env_Channel env = ChannelScalar \<Longrightarrow> env_cell env \<in> cells \<Longrightarrow>
      ingest now env s = Some s' \<Longrightarrow>
      inv s' \<and> net s' c = net s c + (if env_cell env = c then Delta env else 0)"
    and flush_emits: "inv s \<Longrightarrow> flush s = (out, s') \<Longrightarrow> inv s' \<and> batch_net out c = net s c \<and> net s' c = 0"
begin

fun ingest_list :: "(nat \<Rightarrow> i64) \<Rightarrow> Envelope list \<Rightarrow> 's \<Rightarrow> 's option" where
  "ingest_list clk [] s = Some s"
| "ingest_list clk (e # es) s =
     (case ingest (clk 0) e s of None \<Rightarrow> None | Some s1 \<Rightarrow> ingest_list (clk \<circ> Suc) es s1)"

lemma ingest_list_adds:
  "inv s \<Longrightarrow> \<forall>e \<in> set es. env_Channel e = ChannelScalar \<and> env_cell e \<in> cells \<Longrightarrow>
     ingest_list clk es s = Some s' \<Longrightarrow> inv s' \<and> net s' c = net s c + env_net es c"
proof (induction es arbitrary: s clk)
  case (Cons e es)
  obtain s1 where s1: "ingest (clk 0) e s = Some s1" "ingest_list (clk \<circ> Suc) es s1 = Some s'"
    using Cons.prems(3) by (auto split: option.splits)
  have "inv s1" "net s1 c = net s c + (if env_cell e = c then Delta e else 0)"
    using ingest_adds [OF Cons.prems(1) _ _ s1(1)] Cons.prems(2) by simp_all
  then show ?case using Cons.IH [OF _ _ s1(2)] Cons.prems(2) by simp
qed simp

text \<open>What was ingested is what a flush emits, cell by cell.\<close>

lemma ingest_flush:
  assumes "inv s" and "\<And>c. net s c = 0" and "\<forall>e \<in> set es. env_Channel e = ChannelScalar \<and> env_cell e \<in> cells"
    and "ingest_list clk es s = Some s1" and "flush s1 = (out, s2)"
  shows "batch_net out c = env_net es c \<and> inv s2 \<and> net s2 c = 0"
  using ingest_list_adds [OF assms(1,3,4), of c] flush_emits [OF _ assms(5), of c] assms(2) by simp

end

interpretation shard: net_accumulator "\<lambda>s. alias_free C \<and> wf_shard s \<and> holds_only C s" shard_net C
    shard_Ingest "shard_Flush []" for C :: "cell set"
proof
  show "(alias_free C \<and> wf_shard s' \<and> holds_only C s')
      \<and> shard_net s' c = shard_net s c + (if env_cell env = c then Delta env else 0)"
    if "alias_free C \<and> wf_shard s \<and> holds_only C s" "env_cell env \<in> C" "shard_Ingest now env s = Some s'" for s env now s' c
    using that shard_Ingest_spec [of C s env now s'] by simp
  show "(alias_free C \<and> wf_shard s' \<and> holds_only C s') \<and> batch_net out c = shard_net s c \<and> shard_net s' c = 0"
    if "alias_free C \<and> wf_shard s \<and> holds_only C s" "shard_Flush [] s = (out, s')" for s out s' c
    using that shard_Flush_spec [of s "[]" out s'] by simp
qed

definition wf_acc :: "cell set \<Rightarrow> SAccumulator \<Rightarrow> bool" where
  "wf_acc C a \<longleftrightarrow> alias_free C \<and> shards a \<noteq> [] \<and> (\<forall>s \<in> set (shards a). wf_shard s \<and> holds_only C s)"

definition acc_net :: "SAccumulator \<Rightarrow> cell \<Rightarrow> i64" where
  "acc_net a c = (\<Sum>s\<leftarrow>shards a. shard_net s c)"

lemma flushShards_spec:
  "(\<forall>s \<in> set ss. wf_shard s) \<Longrightarrow> flushShards ss out = (out', ss') \<Longrightarrow>
     length ss' = length ss \<and> (\<forall>s \<in> set ss'. wf_shard s \<and> holds_only C s \<and> shard_net s c = 0)
     \<and> batch_net out' c = batch_net out c + (\<Sum>s\<leftarrow>ss. shard_net s c)"
proof (induction ss arbitrary: out out' ss')
  case (Cons s ss)
  obtain out1 s1 where f: "shard_Flush out s = (out1, s1)" by fastforce
  obtain out2 ss2 where g: "flushShards ss out1 = (out2, ss2)" by fastforce
  have "ss' = s1 # ss2" "out' = out2" using Cons.prems(2) f g by simp_all
  then show ?case
    using Cons.IH [OF _ g] Cons.prems(1) shard_Flush_spec(1) [OF _ f] shard_Flush_spec(2) [OF _ f, of c]
      shard_Flush_spec(3) [OF _ f, of c] shard_Flush_spec(5) [OF _ f, of C] by (simp add: ac_simps)
qed simp

interpretation acc: net_accumulator "wf_acc C" acc_net C acc_Ingest FlushAll for C :: "cell set"
proof
  show "wf_acc C a' \<and> acc_net a' c = acc_net a c + (if env_cell env = c then Delta env else 0)"
    if a: "wf_acc C a" "env_Channel env = ChannelScalar" "env_cell env \<in> C" "acc_Ingest now env a = Some a'" for a env now a' c
  proof -
    obtain i s where i: "i < length (shards a)" "shard_Ingest now env (shards a ! i) = Some s"
      and a': "a' = a\<lparr>shards := (shards a)[i := s]\<rparr>"
      using a(2,4) by (auto simp: acc_Ingest_def Let_def split: if_splits)
    have "alias_free C" "wf_shard (shards a ! i)" "holds_only C (shards a ! i)" using a(1) i(1) by (auto simp: wf_acc_def)
    note sp = shard_Ingest_spec [OF this a(3) i(2)]
    have "map (\<lambda>s. shard_net s c) ((shards a)[i := s]) =
      (map (\<lambda>s. shard_net s c) (shards a))[i := map (\<lambda>s. shard_net s c) (shards a) ! i + (if env_cell env = c then Delta env else 0)]"
      using i(1) sp(3) by (simp add: map_update)
    then have "acc_net a' c = acc_net a c + (if env_cell env = c then Delta env else 0)"
      unfolding acc_net_def a' using i(1) sum_list_update_add [of i "map (\<lambda>s. shard_net s c) (shards a)"] by simp
    moreover have "wf_acc C a'"
      using a(1) sp(1,2) set_update_subset_insert [of "shards a" i s] by (auto simp: wf_acc_def a')
    ultimately show ?thesis by simp
  qed
  show "wf_acc C a' \<and> batch_net out c = acc_net a c \<and> acc_net a' c = 0"
    if a: "wf_acc C a" "FlushAll a = (out, a')" for a out a' c
  proof -
    obtain ss where ss: "flushShards (shards a) [] = (out, ss)" "a' = a\<lparr>shards := ss\<rparr>"
      using a(2) by (auto simp: FlushAll_def Let_def split: prod.splits)
    have "\<forall>s \<in> set (shards a). wf_shard s" using a(1) by (simp add: wf_acc_def)
    from flushShards_spec [OF this ss(1), of C c] a(1) ss(2) show ?thesis
      by (auto simp: wf_acc_def acc_net_def sum_list_all_zero)
  qed
qed

section \<open>Batch transformers\<close>

text \<open>What the lane needs of a \<open>VSATransformer\<close>: the net of every cell is kept.\<close>

locale sbatch_transformer =
  fixes compress :: "SBatch list \<Rightarrow> SBatch list"
  assumes keeps_net: "batch_net (compress bs) c = batch_net bs c"

text \<open>A nil transformer passes batches on.\<close>

interpretation nil_transformer: sbatch_transformer "\<lambda>bs. bs"
  by unfold_locales simp

definition transformer_ok :: "compressor \<Rightarrow> bool" where
  "transformer_ok vsa \<longleftrightarrow> (case vsa of None \<Rightarrow> True | Some compress \<Rightarrow> sbatch_transformer compress)"

section \<open>Conservation in the Scalar lane\<close>

text \<open>What the sink has received, what is accumulated and what is queued, for one cell.\<close>

definition delivered :: "SService \<Rightarrow> cell \<Rightarrow> i64" where
  "delivered s c = (case svc_sink s of None \<Rightarrow> 0 | Some log \<Rightarrow> batch_net (concat log) c)"

definition lane_total :: "SService \<Rightarrow> cell \<Rightarrow> i64" where
  "lane_total s c = delivered s c + acc_net (svc_acc s) c + env_net (inq s) c"

definition lane_ok :: "cell set \<Rightarrow> SService \<Rightarrow> bool" where
  "lane_ok C s \<longleftrightarrow> wf_acc C (svc_acc s) \<and> svc_sink s \<noteq> None
     \<and> (\<forall>e \<in> set (inq s). env_Channel e = ChannelScalar \<and> env_cell e \<in> C)"

lemma drain_ingest_list: "\<forall>e \<in> set es. env_Channel e = ChannelScalar \<Longrightarrow> drain clk es a = acc.ingest_list clk es a"
  by (induction clk es a rule: drain.induct) (auto simp: receive_def split: option.split)

lemma drain_adds:
  assumes "wf_acc C a" and "\<forall>e \<in> set es. env_Channel e = ChannelScalar \<and> env_cell e \<in> C" and "drain clk es a = Some a'"
  shows "wf_acc C a'" and "acc_net a' c = acc_net a c + env_net es c"
  using acc.ingest_list_adds [of C a es clk a' c] assms drain_ingest_list [of es clk a] by simp_all

lemma svc_flush_total:
  assumes "lane_ok C s" and "transformer_ok vsa"
  shows "lane_ok C (svc_flush vsa s)" and "lane_total (svc_flush vsa s) c = lane_total s c"
    and "acc_net (svc_acc (svc_flush vsa s)) c = 0" and "inq (svc_flush vsa s) = inq s"
    and "svc_done (svc_flush vsa s) = svc_done s"
proof -
  obtain b a where f: "FlushAll (svc_acc s) = (b, a)" by fastforce
  have wf: "wf_acc C (svc_acc s)" using assms(1) by (simp add: lane_ok_def)
  note em = acc.flush_emits [OF wf f, of c]
  obtain log where log: "svc_sink s = Some log" using assms(1) by (auto simp: lane_ok_def)
  define b' where "b' = (case vsa of None \<Rightarrow> b | Some compress \<Rightarrow> compress b)"
  have b': "batch_net b' c = batch_net b c"
    using assms(2) by (auto simp: b'_def transformer_ok_def sbatch_transformer.keeps_net split: option.splits)
  have "svc_flush vsa s = s\<lparr>svc_acc := a, svc_sink := Some (if b = [] \<or> b' = [] then log else log @ [b'])\<rparr>"
    using f log by (simp add: svc_flush_def b'_def Let_def)
  then show "lane_ok C (svc_flush vsa s)" "lane_total (svc_flush vsa s) c = lane_total s c"
    "acc_net (svc_acc (svc_flush vsa s)) c = 0" "inq (svc_flush vsa s) = inq s" "svc_done (svc_flush vsa s) = svc_done s"
    using em assms(1) log b' by (auto simp: lane_ok_def lane_total_def delivered_def ac_simps)
qed

lemma queue_total:
  "env_Channel env = ChannelScalar \<Longrightarrow> env_cell env \<in> C \<Longrightarrow> lane_ok C s \<Longrightarrow>
     lane_ok C (s\<lparr>inq := inq s @ [env]\<rparr>) \<and> lane_total (s\<lparr>inq := inq s @ [env]\<rparr>) c = lane_total s c + env_net [env] c"
  by (auto simp: lane_ok_def lane_total_def delivered_def ac_simps)

lemma svc_step_total:
  assumes "svc_step vsa s es s'" and "transformer_ok vsa" and "lane_ok C s" and "\<forall>e \<in> set es. env_cell e \<in> C"
  shows "lane_ok C s' \<and> lane_total s' c = lane_total s c + env_net es c"
  using assms
proof (induction rule: svc_step.induct)
  case (call_ingest env s s')
  then show ?case using queue_total [of env C s c] by (auto simp: svc_Ingest_def split: if_splits)
next
  case (call_try_ingest env s ok s')
  then show ?case using queue_total [of env C s c] by (auto simp: TryIngest_def split: if_splits)
next
  case (run_receive s env rest now a)
  have e: "env_Channel env = ChannelScalar" "env_cell env \<in> C" "wf_acc C (svc_acc s)"
    using run_receive by (simp_all add: lane_ok_def)
  then have "acc_Ingest now env (svc_acc s) = Some a" using run_receive by (simp add: receive_def)
  from acc.ingest_adds [OF e(3,1,2) this, of c] run_receive show ?case
    by (auto simp: lane_ok_def lane_total_def delivered_def ac_simps)
next
  case (run_flush_request s clk a)
  have "\<forall>e \<in> set (inq s). env_Channel e = ChannelScalar \<and> env_cell e \<in> C" "wf_acc C (svc_acc s)"
    using run_flush_request by (simp_all add: lane_ok_def)
  note d = drain_adds [OF this(2,1) run_flush_request(3)]
  have "lane_ok C (s\<lparr>inq := [], svc_acc := a, flushReqs := flushReqs s - 1\<rparr>)" using d(1) run_flush_request by (simp add: lane_ok_def)
  from svc_flush_total(1,2) [OF this run_flush_request(5)] d(2) show ?case
    by (simp add: lane_total_def delivered_def ac_simps)
next
  case (run_stop s clk a)
  have "\<forall>e \<in> set (inq s). env_Channel e = ChannelScalar \<and> env_cell e \<in> C" "wf_acc C (svc_acc s)"
    using run_stop by (simp_all add: lane_ok_def)
  note d = drain_adds [OF this(2,1) run_stop(4)]
  have "lane_ok C (s\<lparr>inq := [], svc_acc := a\<rparr>)" using d(1) run_stop by (simp add: lane_ok_def)
  from svc_flush_total(1,2) [OF this run_stop(5)] d(2) show ?case
    by (simp add: lane_ok_def lane_total_def delivered_def ac_simps)
next
  case (run_tick s)
  then show ?case using svc_flush_total(1,2) [OF run_tick(4,3)] by simp
qed (auto simp: svc_Start_def svc_Stop_def svc_Flush_def lane_ok_def lane_total_def delivered_def split: if_splits)

lemma svc_run_total:
  assumes "svc_run vsa s es s'" and "transformer_ok vsa" and "lane_ok C s" and "\<forall>e \<in> set es. env_cell e \<in> C"
  shows "lane_ok C s' \<and> lane_total s' c = lane_total s c + env_net es c"
  using assms
proof (induction rule: svc_run.induct)
  case (run_more s es s1 es' s2)
  then have "lane_ok C s1" "lane_total s1 c = lane_total s c + env_net es c" by simp_all
  with svc_step_total [OF run_more(2,4), of C c] run_more.prems show ?case by simp
qed simp

text \<open>Once the service goroutine has ended, nothing is left in the accumulator.\<close>

lemma done_empty_step:
  assumes "svc_step vsa s es s'" and "transformer_ok vsa" and "lane_ok C s" and "\<forall>e \<in> set es. env_cell e \<in> C"
    and "svc_done s \<Longrightarrow> acc_net (svc_acc s) c = 0" and "svc_done s'"
  shows "acc_net (svc_acc s') c = 0"
  using assms
proof (induction rule: svc_step.induct)
  case (run_stop s clk a)
  have "\<forall>e \<in> set (inq s). env_Channel e = ChannelScalar \<and> env_cell e \<in> C" "wf_acc C (svc_acc s)"
    using run_stop by (simp_all add: lane_ok_def)
  note d = drain_adds [OF this(2,1) run_stop(4)]
  have "lane_ok C (s\<lparr>inq := [], svc_acc := a\<rparr>)" using d(1) run_stop by (simp add: lane_ok_def)
  then show ?case using svc_flush_total(3) [OF _ run_stop(5)] by simp
next
  case (run_tick s)
  then show ?case using svc_flush_total(5) [OF run_tick(4,3)] by simp
next
  case (run_flush_request s clk a)
  have "\<forall>e \<in> set (inq s). env_Channel e = ChannelScalar \<and> env_cell e \<in> C" "wf_acc C (svc_acc s)"
    using run_flush_request by (simp_all add: lane_ok_def)
  note d = drain_adds [OF this(2,1) run_flush_request(3)]
  have "lane_ok C (s\<lparr>inq := [], svc_acc := a, flushReqs := flushReqs s - 1\<rparr>)" using d(1) run_flush_request by (simp add: lane_ok_def)
  from svc_flush_total(5) [OF this run_flush_request(5)] run_flush_request show ?case by simp
qed (auto simp: svc_Start_def svc_Stop_def svc_Flush_def svc_Ingest_def TryIngest_def split: if_splits)

lemma done_empty:
  assumes "svc_run vsa s es s'" and "transformer_ok vsa" and "lane_ok C s" and "\<forall>e \<in> set es. env_cell e \<in> C"
    and "\<not> svc_done s" and "svc_done s'"
  shows "acc_net (svc_acc s') c = 0"
  using assms
proof (induction rule: svc_run.induct)
  case (run_more s es s1 es' s2)
  have "lane_ok C s1" using svc_run_total [OF run_more(1,4,5)] run_more.prems(3) by simp
  from done_empty_step [OF run_more(2,4) this] run_more show ?case by simp
qed simp

text \<open>New accumulators.\<close>

lemma newSShard_ok:
  assumes "order \<le> 62"
  obtains s where "newSShard now order ct cap = Some s" and "wf_shard s" and "used s = 0"
    and "length (keys s) = 2 ^ order"
proof -
  have "(2 :: nat) ^ order \<le> 2 ^ 62" using assms by (intro power_increasing) simp_all
  then have "unat (word_of_nat (2 ^ order) :: i64) = 2 ^ order" by (intro unat_of_nat_small) simp
  moreover have "(push_bit order 1 :: i64) = word_of_nat (2 ^ order)" by (simp add: push_bit_eq_mult)
  ultimately have n: "unat (push_bit order 1 :: i64) = 2 ^ order" by (simp only:)
  have "0 \<le> sint (push_bit order 1 :: i64)"
    using sint_unat [of "push_bit order 1"] n \<open>(2 :: nat) ^ order \<le> 2 ^ 62\<close> by simp
  moreover have "(push_bit order 1 :: i64) = 2 ^ order" by (simp add: push_bit_eq_mult)
  ultimately show thesis
    using n assms by (intro that [of "the (newSShard now order ct cap)"])
      (auto simp: newSShard_def Let_def slt_iff wf_shard_def)
qed

lemma makeShards_ok:
  assumes "order \<le> 62"
  shows "\<exists>ss. makeShards p clk order ct cap = Some ss \<and> length ss = p
    \<and> (\<forall>s \<in> set ss. wf_shard s \<and> used s = 0 \<and> length (keys s) = 2 ^ order)"
proof (induction p arbitrary: clk)
  case (Suc p)
  obtain s where "newSShard (clk 0) order ct cap = Some s" "wf_shard s" "used s = 0" "length (keys s) = 2 ^ order"
    using newSShard_ok [OF assms] by blast
  with Suc.IH [of "clk \<circ> Suc"] show ?case by (auto simp: comp_def)
qed simp

lemma empty_holds: "wf_shard s \<Longrightarrow> used s = 0 \<Longrightarrow> holds_only C s"
  using used_zero [of s] by (simp add: holds_only_def)

lemma NewSAccumulator_ok:
  assumes "sint orderPow2 \<le> 62" and "NewSAccumulator clk p orderPow2 ct cap = Some a" and "alias_free C"
  shows "wf_acc C a" and "acc_net a c = 0"
proof -
  let ?p = "if p \<le>s 0 then 1 else p" and ?o = "if orderPow2 \<le>s 0 then 8 else orderPow2"
  have "0 \<le> sint ?o" "sint ?o \<le> 62" using assms(1) by (simp_all add: sle_iff)
  then have "unat ?o \<le> 62" using sint_pos_unat [of ?o] by linarith
  moreover have "unat ?p \<noteq> 0" by (auto simp: sle_iff unat_eq_zero)
  ultimately obtain ss where ss: "a = \<lparr>shards = ss\<rparr>" "length ss = unat ?p" "\<forall>s \<in> set ss. wf_shard s \<and> used s = 0"
    using assms(2) makeShards_ok [of "unat ?o" "unat ?p" clk ct cap] by (auto simp: NewSAccumulator_def Let_def)
  then show "wf_acc C a" "acc_net a c = 0"
    using \<open>unat ?p \<noteq> 0\<close> assms(3) by (auto simp: wf_acc_def acc_net_def empty_holds empty_shard_net intro!: sum_list_all_zero)
qed

section \<open>Properties\<close>

text \<open>
  C25. Conservation in the Scalar lane. Start from a new service over a new sharded accumulator and
  let clients and the service goroutine take any steps in any order (blocking and non-blocking
  ingestion, receives, ticks, flush requests, stop), with any transformer that keeps the net of
  every cell. As long as the accepted envelopes address an alias-free set of cells, for every cell
  the batches delivered to the sink, the accumulator and the queue together hold exactly the sum of
  the accepted deltas; and once the service has stopped and its queue is empty, the sink has
  received all of it.
\<close>

theorem scalar_lane_conserves:
  assumes "NewSAccumulator clk p orderPow2 ct cap = Some a" and "sint orderPow2 \<le> 62" and "transformer_ok vsa"
    and "svc_run vsa (NewSService a (Some []) opts) es s" and "alias_free C" and "\<forall>e \<in> set es. env_cell e \<in> C"
  shows "\<exists>log. svc_sink s = Some log
    \<and> batch_net (concat log) c + acc_net (svc_acc s) c + env_net (inq s) c = env_net es c
    \<and> (svc_done s \<and> inq s = [] \<longrightarrow> batch_net (concat log) c = env_net es c)"
proof -
  let ?s0 = "NewSService a (Some []) opts"
  note new = NewSAccumulator_ok [OF assms(2,1,5)]
  have ok: "lane_ok C ?s0" "lane_total ?s0 c = 0" "\<not> svc_done ?s0"
    using new by (simp_all add: NewSService_def Let_def lane_ok_def lane_total_def delivered_def)
  note run = svc_run_total [OF assms(4,3) ok(1) assms(6), of c]
  then obtain log where log: "svc_sink s = Some log" by (auto simp: lane_ok_def)
  have total: "batch_net (concat log) c + acc_net (svc_acc s) c + env_net (inq s) c = env_net es c"
    using run ok(2) log by (simp add: lane_total_def delivered_def)
  moreover have "batch_net (concat log) c = env_net es c" if "svc_done s" "inq s = []"
    using total that done_empty [OF assms(4,3) ok(1) assms(6) ok(3), of c] by simp
  ultimately show ?thesis using log by blast
qed

definition example_env :: "u64 \<Rightarrow> u64 \<Rightarrow> i64 \<Rightarrow> Envelope" where
  "example_env key bucket d =
     \<lparr>env_Channel = ChannelScalar,
      env_Footprint = \<lparr>fp_KeyID = key, fp_Time = \<lparr>time_BucketID = bucket, All = False\<rparr>, fp_Scope = ChannelScalar\<rparr>,
      Delta = d, env_SeqEnd = 1, HashPrev = replicate 16 0\<rparr>"

theorem scalar_lane_conserves_witness:
  "\<exists>a s log. NewSAccumulator (\<lambda>_. 0) 1 2 9 9 = Some a
     \<and> svc_run None (NewSService a (Some []) \<lparr>Buffer = 0, FlushInterval = 0\<rparr>) [example_env 1 2 5] s
     \<and> svc_sink s = Some log \<and> batch_net (concat log) (1, 2) = 5"
proof -
  let ?opts = "\<lparr>Buffer = 0, FlushInterval = 0\<rparr>" and ?e = "example_env 1 2 5"
  obtain a where a: "NewSAccumulator (\<lambda>_. 0) 1 2 9 9 = Some a" "\<exists>a'. drain (\<lambda>_. 0) [?e] a = Some a'"
  proof -
    have "(case NewSAccumulator (\<lambda>_. 0) 1 2 9 9 of None \<Rightarrow> False
      | Some a \<Rightarrow> (case drain (\<lambda>_. 0) [?e] a of None \<Rightarrow> False | Some a' \<Rightarrow> True))" by code_simp
    then show thesis using that by (auto split: option.splits)
  qed
  let ?s0 = "NewSService a (Some []) ?opts"
  let ?s1 = "svc_Start ?s0"
  let ?s2 = "?s1\<lparr>inq := [?e]\<rparr>"
  let ?s3 = "?s2\<lparr>svc_stop := True\<rparr>"
  obtain a' where a': "drain (\<lambda>_. 0) (inq ?s3) (svc_acc ?s3) = Some a'"
    using a(2) by (auto simp: NewSService_def svc_Start_def)
  let ?s4 = "(svc_flush None (?s3\<lparr>inq := [], svc_acc := a'\<rparr>))\<lparr>svc_done := True\<rparr>"
  have "svc_Ingest ?e ?s1 = Some ?s2"
    by (simp add: svc_Ingest_def example_env_def NewSService_def svc_Start_def sle_iff)
  from svc_step.call_ingest [OF this, of None]
  have e: "svc_step None ?s1 [?e] ?s2" by (simp add: example_env_def)
  have st: "svc_step None ?s3 [] ?s4"
    by (rule svc_step.run_stop [OF _ _ _ a']) (simp_all add: NewSService_def svc_Start_def)
  have "svc_run None ?s0 [] ?s1"
    using svc_run.run_more [OF svc_run.run_none svc_step.call_start, of None ?s0] by simp
  from svc_run.run_more [OF this e] have "svc_run None ?s0 [?e] ?s2" by simp
  moreover have "svc_Stop ?s2 = Some ?s3" by (simp add: svc_Stop_def svc_Start_def NewSService_def)
  ultimately have "svc_run None ?s0 ([?e] @ []) ?s3" by (intro svc_run.run_more svc_step.call_stop)
  then have "svc_run None ?s0 [?e] ?s3" by simp
  from svc_run.run_more [OF this st] have run: "svc_run None ?s0 [?e] ?s4" by simp
  have "alias_free {(1, 2)}" "sint (2 :: i64) \<le> 62" by code_simp+
  from scalar_lane_conserves [OF a(1) this(2) _ run this(1), of "(1, 2)"] obtain log where
    "svc_sink ?s4 = Some log" "svc_done ?s4 \<and> inq ?s4 = [] \<longrightarrow> batch_net (concat log) (1, 2) = env_net [?e] (1, 2)"
    by (auto simp: transformer_ok_def example_env_def env_cell_def)
  moreover have "inq ?s4 = []" by (simp add: svc_flush_def Let_def split: prod.split)
  ultimately have "batch_net (concat log) (1, 2) = 5" by (simp add: example_env_def env_cell_def)
  with a(1) run \<open>svc_sink ?s4 = Some log\<close> show ?thesis by blast
qed

text \<open>
  C26. The probe loop ends exactly when it can. Ingestion into a well-formed shard returns if and
  only if the table has an empty slot or already holds the packed key. Nothing else stops the loop:
  when the number of distinct keys since the last flush fills the table, the next new key makes
  ingestion run forever, whatever the count threshold and the time cap say.
\<close>

theorem ingest_returns_iff:
  assumes "wf_shard s"
  shows "(\<exists>s'. shard_Ingest now env s = Some s') \<longleftrightarrow>
    (\<exists>t < length (keys s). keys s ! t = 0 \<or> keys s ! t = packKeyBucket (fst (env_cell env)) (snd (env_cell env)))"
  unfolding probe_returns_iff [OF assms, symmetric]
  by (auto simp: shard_Ingest_def env_cell_def Let_def split: option.splits)

definition ingest_all :: "Envelope list \<Rightarrow> SShard option \<Rightarrow> SShard option" where
  "ingest_all es s = foldl (\<lambda>s e. case s of None \<Rightarrow> None | Some s \<Rightarrow> shard_Ingest 0 e s) s es"

theorem ingest_returns_iff_witness:
  "\<exists>s. ingest_all [example_env 1 1 5, example_env 1 2 5] (newSShard 0 1 1 1) = Some s
     \<and> \<not> (\<exists>s'. shard_Ingest 0 (example_env 1 3 5) s = Some s')"
proof -
  let ?k = "packKeyBucket (fst (env_cell (example_env 1 3 5))) (snd (env_cell (example_env 1 3 5)))"
  have "(case ingest_all [example_env 1 1 5, example_env 1 2 5] (newSShard 0 1 1 1) of None \<Rightarrow> False
    | Some s \<Rightarrow> shard_mask s = 2 ^ 1 - 1 \<and> length (keys s) = 2 ^ 1 \<and> length (keyIDs s) = 2 \<and> length (bucketIDs s) = 2
       \<and> length (sums s) = 2 \<and> length (seqEnds s) = 2 \<and> used s = 2
       \<and> filter (\<lambda>k. k \<noteq> 0) (keys s) = keys s \<and> ?k \<notin> set (keys s)
       \<and> keys s ! 0 = packKeyBucket (keyIDs s ! 0) (bucketIDs s ! 0) \<and> keys s ! 1 = packKeyBucket (keyIDs s ! 1) (bucketIDs s ! 1))"
    by code_simp
  then obtain s where s: "ingest_all [example_env 1 1 5, example_env 1 2 5] (newSShard 0 1 1 1) = Some s"
    "shard_mask s = 2 ^ 1 - 1" "length (keys s) = 2 ^ 1" "length (keyIDs s) = 2" "length (bucketIDs s) = 2"
    "length (sums s) = 2" "length (seqEnds s) = 2" "used s = 2" "filter (\<lambda>k. k \<noteq> 0) (keys s) = keys s" "?k \<notin> set (keys s)"
    "keys s ! 0 = packKeyBucket (keyIDs s ! 0) (bucketIDs s ! 0)" "keys s ! 1 = packKeyBucket (keyIDs s ! 1) (bucketIDs s ! 1)"
    by (auto split: option.splits)
  have nz: "keys s ! t \<noteq> 0" if "t < 2" for t
    using s(3,9) that by (simp add: filter_id_conv)
  have "wf_shard s"
    unfolding wf_shard_def using s nz by (auto simp: less_2_cases_iff intro!: exI [of _ 1])
  moreover have "keys s ! t \<noteq> ?k" if "t < 2" for t using s(3,10) that by (auto simp: in_set_conv_nth)
  ultimately show ?thesis
    using ingest_returns_iff [of s 0 "example_env 1 3 5"] s(1,3) nz by auto
qed

text \<open>
  Packing aliases cells. The packed key ignores the top bit of the bucket identifier, and the
  cell whose identifiers are both zero packs to the word that marks an empty slot. Hence two
  buckets that differ only in that bit are merged and reported under the first one, and a delta
  for the zero cell is never flushed but is credited to whichever cell claims the slot next.
\<close>

theorem packing_aliases:
  "packKeyBucket k (b XOR 2 ^ 63) = packKeyBucket k b \<and> packKeyBucket 0 0 = 0
   \<and> map_option (fst \<circ> shard_Flush []) (ingest_all [example_env 1 2 5, example_env 1 (2 XOR 2 ^ 63) 7] (newSShard 0 1 9 9))
       = Some [\<lparr>KeyID = 1, BucketID = 2, NetDelta = 12, SeqEnd = 1\<rparr>]
   \<and> map_option (fst \<circ> shard_Flush []) (ingest_all [example_env 0 0 5] (newSShard 0 1 9 9)) = Some []
   \<and> map_option (fst \<circ> shard_Flush []) (ingest_all [example_env 0 0 5, example_env 2 0 7] (newSShard 0 1 9 9))
       = Some [\<lparr>KeyID = 2, BucketID = 0, NetDelta = 12, SeqEnd = 1\<rparr>]"
proof (intro conjI)
  show "packKeyBucket k (b XOR 2 ^ 63) = packKeyBucket k b"
  proof -
    have top: "push_bit 1 (2 ^ 63 :: u64) = 0" by code_simp
    show ?thesis unfolding packKeyBucket_def push_bit_xor top by simp
  qed
qed code_simp+

end
