(* ===== verification/TFD_Compress.thy ===== *)
theory TFD_Compress
  imports TFD_Service
begin

text \<open>
  The batch compressor of the Scalar lane (plugin/tfd/vsa_integration.go): the open-addressed path
  for small inputs and the map path for large ones, their agreement, and what either does to the
  cells.
\<close>

section \<open>Operations\<close>

definition mergeBatch :: "SBatch \<Rightarrow> SBatch \<Rightarrow> SBatch" where
  "mergeBatch v b =
     v\<lparr>NetDelta := NetDelta v + NetDelta b,
       SeqEnd := (if SeqEnd v < SeqEnd b then SeqEnd b else SeqEnd v)\<rparr>"

text \<open>Doubling from one until the table has two slots per input; the guard only ensures termination.\<close>

function growTable :: "nat \<Rightarrow> nat \<Rightarrow> nat" where
  "growTable n len = (if 0 < n \<and> n < len * 2 then growTable (2 * n) len else n)"
  by auto

termination
  by (relation "measure (\<lambda>(n, len). len * 2 - n)") auto

declare growTable.simps [simp del]

type_synonym kv = "(cell \<times> SBatch) option"

definition oa_stop :: "cell \<Rightarrow> kv \<Rightarrow> bool" where
  "oa_stop k e = (case e of None \<Rightarrow> True | Some (k', v) \<Rightarrow> k' = k)"

definition oa_insert :: "i64 \<Rightarrow> SBatch \<Rightarrow> kv list \<Rightarrow> kv list option" where
  "oa_insert msk b tab =
     (let k = batch_cell b
      in case probe_loop (oa_stop k) tab msk (packKeyBucket (fst k) (snd k) AND msk) of
           None \<Rightarrow> None
         | Some idx \<Rightarrow>
             (case tab ! unat idx of
                None \<Rightarrow> Some (tab[unat idx := Some (k, b)])
              | Some (k', v) \<Rightarrow> Some (tab[unat idx := Some (k', mergeBatch v b)])))"

fun oa_insert_all :: "i64 \<Rightarrow> SBatch list \<Rightarrow> kv list \<Rightarrow> kv list option" where
  "oa_insert_all msk [] tab = Some tab"
| "oa_insert_all msk (b # bs) tab =
     (case oa_insert msk b tab of None \<Rightarrow> None | Some tab1 \<Rightarrow> oa_insert_all msk bs tab1)"

fun oa_output :: "kv list \<Rightarrow> SBatch list" where
  "oa_output [] = []"
| "oa_output (None # tab) = oa_output tab"
| "oa_output (Some (k, v) # tab) = (if NetDelta v \<noteq> 0 then v # oa_output tab else oa_output tab)"

definition compress_oa :: "SBatch list \<Rightarrow> SBatch list option" where
  "compress_oa bs =
     (let n = growTable 1 (length bs); msk = word_of_nat n - 1; tab = replicate n None
      in map_option oa_output (oa_insert_all msk bs tab))"

text \<open>The map path; the order of the list stands for the iteration order of a Go map.\<close>

fun map_insert_all :: "SBatch list \<Rightarrow> (cell \<times> SBatch) list \<Rightarrow> (cell \<times> SBatch) list" where
  "map_insert_all [] m = m"
| "map_insert_all (b # bs) m =
     (let k = batch_cell b
      in case map_of m k of
           Some prev \<Rightarrow> map_insert_all bs (al_update k (mergeBatch prev b) m)
         | None \<Rightarrow> map_insert_all bs (al_update k b m))"

definition compress_map :: "SBatch list \<Rightarrow> SBatch list" where
  "compress_map bs = filter (\<lambda>v. NetDelta v \<noteq> 0) (map snd (map_insert_all bs []))"

definition Compress :: "SBatch list \<Rightarrow> SBatch list option" where
  "Compress bs =
     (if bs = [] then Some bs
      else if length bs \<le> 64 then compress_oa bs
      else Some (compress_map bs))"

section \<open>The merged batch of a cell\<close>

definition merged :: "SBatch list \<Rightarrow> cell \<Rightarrow> SBatch option" where
  "merged bs c = foldl (\<lambda>acc b. case acc of None \<Rightarrow> Some b | Some v \<Rightarrow> Some (mergeBatch v b)) None
     (filter (\<lambda>b. batch_cell b = c) bs)"

lemma merged_simps [simp]:
  "merged [] c = None"
  "merged (bs @ [b]) c = (if batch_cell b = c
     then Some (case merged bs c of None \<Rightarrow> b | Some v \<Rightarrow> mergeBatch v b) else merged bs c)"
  by (simp_all add: merged_def split: option.split)

lemma mergeBatch_fields [simp]:
  "batch_cell (mergeBatch v b) = batch_cell v" "NetDelta (mergeBatch v b) = NetDelta v + NetDelta b"
  "SeqEnd (mergeBatch v b) = max (SeqEnd v) (SeqEnd b)"
  by (auto simp: mergeBatch_def batch_cell_def max_def)

lemma merged_cell: "merged bs c = Some v \<Longrightarrow> batch_cell v = c"
  by (induction bs arbitrary: v rule: rev_induct) (auto split: if_splits option.splits)

lemma merged_None: "merged bs c = None \<longleftrightarrow> c \<notin> batch_cell ` set bs"
  by (induction bs rule: rev_induct) auto

lemma merged_net: "batch_net bs c = (case merged bs c of None \<Rightarrow> 0 | Some v \<Rightarrow> NetDelta v)"
proof (induction bs rule: rev_induct)
  case (snoc b bs)
  then show ?case by (cases "merged bs c") (simp_all add: add.commute)
qed simp

lemma merged_SeqEnd:
  "merged bs c = Some v \<Longrightarrow> (\<exists>b \<in> set bs. batch_cell b = c \<and> SeqEnd v = SeqEnd b)
     \<and> (\<forall>b \<in> set bs. batch_cell b = c \<longrightarrow> SeqEnd b \<le> SeqEnd v)"
proof (induction bs arbitrary: v rule: rev_induct)
  case (snoc b bs)
  show ?case
  proof (cases "batch_cell b = c")
    case True
    show ?thesis
    proof (cases "merged bs c")
      case None
      then have "v = b" using True snoc.prems by simp
      moreover have "batch_cell x \<noteq> c" if "x \<in> set bs" for x using None that by (auto simp: merged_None)
      ultimately show ?thesis using True by auto
    next
      case (Some u)
      then have "v = mergeBatch u b" using True snoc.prems by simp
      with snoc.IH [OF Some] True show ?thesis by (auto simp: max_def)
    qed
  qed (use snoc in auto)
qed simp

text \<open>Entries that hold exactly the merged batches.\<close>

definition holds_merged :: "SBatch list \<Rightarrow> (cell \<times> SBatch) list \<Rightarrow> bool" where
  "holds_merged bs es \<longleftrightarrow> distinct (map fst es) \<and> map_of es = merged bs"

definition nonzero :: "(cell \<times> SBatch) list \<Rightarrow> SBatch list" where
  "nonzero es = filter (\<lambda>v. NetDelta v \<noteq> 0) (map snd es)"

lemma holds_merged_mset: "holds_merged bs es \<Longrightarrow> holds_merged bs es' \<Longrightarrow> mset (nonzero es) = mset (nonzero es')"
proof -
  assume a: "holds_merged bs es" "holds_merged bs es'"
  have "set es = set es'" using a map_of_inject_set [of es es'] by (simp add: holds_merged_def)
  moreover have "distinct es" "distinct es'" using a by (simp_all add: holds_merged_def distinct_map)
  ultimately have "mset es = mset es'" by (simp add: set_eq_iff_mset_eq_distinct)
  then show ?thesis by (simp add: nonzero_def)
qed

lemma holds_merged_output:
  assumes "holds_merged bs es"
  shows "v \<in> set (nonzero es) \<longleftrightarrow> merged bs (batch_cell v) = Some v \<and> NetDelta v \<noteq> 0"
    and "distinct (map batch_cell (nonzero es))"
proof -
  have mem: "(c, v) \<in> set es \<longleftrightarrow> merged bs c = Some v" for c v
    using assms map_of_eq_Some_iff [of es c v] by (simp add: holds_merged_def)
  have cell: "batch_cell (snd x) = fst x" if "x \<in> set es" for x
    using that mem [of "fst x" "snd x"] merged_cell by simp
  have "v \<in> snd ` set es \<longleftrightarrow> merged bs (batch_cell v) = Some v"
  proof
    assume "v \<in> snd ` set es"
    then obtain x where "x \<in> set es" "v = snd x" by blast
    then show "merged bs (batch_cell v) = Some v" using cell [of x] mem [of "fst x" "snd x"] by simp
  next
    assume "merged bs (batch_cell v) = Some v"
    then have "(batch_cell v, v) \<in> set es" by (simp add: mem)
    then show "v \<in> snd ` set es" by (rule rev_image_eqI) simp
  qed
  then show "v \<in> set (nonzero es) \<longleftrightarrow> merged bs (batch_cell v) = Some v \<and> NetDelta v \<noteq> 0"
    by (auto simp: nonzero_def)
  have "map batch_cell (map snd es) = map fst es" using cell by simp
  moreover have "distinct (map fst es)" using assms by (simp add: holds_merged_def)
  ultimately have "distinct (map batch_cell (map snd es))" by (simp only:)
  then show "distinct (map batch_cell (nonzero es))" unfolding nonzero_def by (rule distinct_map_filter)
qed

lemma batch_net_distinct: "distinct (map batch_cell bs) \<Longrightarrow> v \<in> set bs \<Longrightarrow> batch_net bs (batch_cell v) = NetDelta v"
  by (induction bs) (auto simp: batch_net_absent)

lemma holds_merged_net:
  assumes "holds_merged bs es"
  shows "batch_net (nonzero es) c = batch_net bs c"
proof (cases "\<exists>v. merged bs c = Some v \<and> NetDelta v \<noteq> 0")
  case True
  then obtain v where v: "merged bs c = Some v" "NetDelta v \<noteq> 0" by blast
  then have c: "c = batch_cell v" using merged_cell by simp
  with v holds_merged_output [OF assms] batch_net_distinct [of "nonzero es" v] merged_net [of bs c] show ?thesis
    by simp
next
  case False
  have "c \<notin> batch_cell ` set (nonzero es)" using False holds_merged_output(1) [OF assms] by auto
  moreover have "batch_net bs c = 0" using False merged_net [of bs c] by (auto split: option.splits)
  ultimately show ?thesis by (simp add: batch_net_absent)
qed

section \<open>The map path\<close>

lemma map_insert_all_merged:
  "holds_merged done m \<Longrightarrow> holds_merged (done @ bs) (map_insert_all bs m)"
proof (induction bs arbitrary: "done" m)
  case (Cons b bs)
  let ?x = "case map_of m (batch_cell b) of Some prev \<Rightarrow> mergeBatch prev b | None \<Rightarrow> b"
  have "holds_merged (done @ [b]) (al_update (batch_cell b) ?x m)"
    using Cons.prems by (auto simp: holds_merged_def distinct_al_update fun_eq_iff split: option.splits)
  from Cons.IH [OF this] show ?case by (simp add: Let_def split: option.splits)
qed simp

lemma compress_map_eq: "compress_map bs = nonzero (map_insert_all bs [])"
  by (simp add: compress_map_def nonzero_def)

lemma map_path_merged: "holds_merged bs (map_insert_all bs [])"
  using map_insert_all_merged [of "[]" "[]" bs] by (simp add: holds_merged_def fun_eq_iff)

section \<open>The open-addressed path\<close>

lemma growTable_spec:
  "0 < n \<Longrightarrow> \<exists>m. growTable n len = 2 ^ m * n \<and> len * 2 \<le> growTable n len \<and> (growTable n len = n \<or> growTable n len < 4 * len)"
proof (induction n len rule: growTable.induct)
  case (1 n len)
  show ?case
  proof (cases "n < len * 2")
    case True
    have "0 < 2 * n" using 1(2) by simp
    from 1(1) [OF _ this] True 1(2) obtain m where m: "growTable (2 * n) len = 2 ^ m * (2 * n)"
      "len * 2 \<le> growTable (2 * n) len" "growTable (2 * n) len = 2 * n \<or> growTable (2 * n) len < 4 * len" by blast
    moreover have eq: "growTable n len = growTable (2 * n) len" using True 1(2) growTable.simps [of n len] by simp
    ultimately have "growTable n len = 2 ^ Suc m * n" "len * 2 \<le> growTable n len" "growTable n len < 4 * len"
      using True by auto
    then show ?thesis by blast
  next
    case False
    then have "growTable n len = n" using growTable.simps [of n len] by simp
    then show ?thesis using False by (intro exI [of _ 0]) simp
  qed
qed

text \<open>A table of a power of two of slots, in which probing for an entry's key finds that entry.\<close>

definition oa_probe :: "kv list \<Rightarrow> i64 \<Rightarrow> cell \<Rightarrow> i64 option" where
  "oa_probe tab msk k = probe_loop (oa_stop k) tab msk (packKeyBucket (fst k) (snd k) AND msk)"

definition oa_ok :: "nat \<Rightarrow> SBatch list \<Rightarrow> kv list \<Rightarrow> bool" where
  "oa_ok m bs tab \<longleftrightarrow> m \<le> 62 \<and> length tab = 2 ^ m
     \<and> (\<forall>i < 2 ^ m. \<forall>k v. tab ! i = Some (k, v) \<longrightarrow>
          (\<exists>j. oa_probe tab (2 ^ m - 1) k = Some j \<and> unat j = i) \<and> merged bs k = Some v)
     \<and> (\<forall>k v. merged bs k = Some v \<longrightarrow> (\<exists>i < 2 ^ m. tab ! i = Some (k, v)))"

lemma oa_stop_simps [simp]: "oa_stop k None" "oa_stop k (Some (k', v)) \<longleftrightarrow> k' = k"
  by (simp_all add: oa_stop_def)

lemma oa_slot:
  assumes "oa_ok m bs tab" and "i < 2 ^ m" and "tab ! i = Some (k, v)"
  shows "merged bs k = Some v" and "\<exists>j. oa_probe tab (2 ^ m - 1) k = Some j \<and> unat j = i"
  using assms unfolding oa_ok_def by blast+

lemma oa_size: "oa_ok m bs tab \<Longrightarrow> length tab = 2 ^ m \<and> m \<le> 62"
  unfolding oa_ok_def by blast

lemma oa_find: "oa_ok m bs tab \<Longrightarrow> merged bs k = Some v \<Longrightarrow> \<exists>i < 2 ^ m. tab ! i = Some (k, v)"
  unfolding oa_ok_def by blast

lemma oa_okI:
  assumes "m \<le> 62" and "length tab = 2 ^ m"
    and "\<And>i k v. i < 2 ^ m \<Longrightarrow> tab ! i = Some (k, v) \<Longrightarrow>
      (\<exists>j. oa_probe tab (2 ^ m - 1) k = Some j \<and> unat j = i) \<and> merged bs k = Some v"
    and "\<And>k v. merged bs k = Some v \<Longrightarrow> \<exists>i < 2 ^ m. tab ! i = Some (k, v)"
  shows "oa_ok m bs tab"
  using assms unfolding oa_ok_def by blast

lemma oa_same_key:
  assumes "oa_ok m bs tab" and "i < 2 ^ m" and "i' < 2 ^ m" and "tab ! i = Some (k, v)" and "tab ! i' = Some (k, v')"
  shows "i = i'"
  using oa_slot(2) [OF assms(1,2,4)] oa_slot(2) [OF assms(1,3,5)] by auto

text \<open>With fewer batches than slots there is a free slot.\<close>

lemma oa_free_slot:
  assumes "oa_ok m bs tab" and "length bs < 2 ^ m"
  shows "\<exists>i < 2 ^ m. tab ! i = None"
proof (rule ccontr)
  assume "\<not> ?thesis"
  then have full: "\<exists>k v. tab ! i = Some (k, v)" if "i < 2 ^ m" for i using that by (cases "tab ! i") auto
  define key where "key i = fst (the (tab ! i))" for i
  have at: "\<exists>v. tab ! i = Some (key i, v)" if "i < 2 ^ m" for i using full [OF that] by (auto simp: key_def)
  have "inj_on key {..<2 ^ m}"
  proof (rule inj_onI)
    fix i i' assume i: "i \<in> {..<2 ^ m}" "i' \<in> {..<2 ^ m}" "key i = key i'"
    then obtain v v' where "tab ! i = Some (key i, v)" "tab ! i' = Some (key i, v')" using at [of i] at [of i'] by auto
    then show "i = i'" using oa_same_key [OF assms(1)] i by blast
  qed
  moreover have "key ` {..<2 ^ m} \<subseteq> batch_cell ` set bs"
  proof
    fix c assume "c \<in> key ` {..<2 ^ m}"
    then obtain i v where "i < 2 ^ m" "tab ! i = Some (c, v)" using at by blast
    then have "merged bs c = Some v" using oa_slot(1) [OF assms(1)] by blast
    then show "c \<in> batch_cell ` set bs" using merged_None [of bs c] by (metis option.distinct(1))
  qed
  ultimately have "card {..<2 ^ m :: nat} \<le> card (batch_cell ` set bs)" by (intro card_inj_on_le) simp_all
  also have "\<dots> \<le> length bs" using card_image_le [of "set bs" batch_cell] card_length [of bs] by simp
  finally show False using assms(2) by simp
qed

lemma oa_probe_returns:
  assumes "oa_ok m bs tab" and "length bs < 2 ^ m"
  obtains j where "oa_probe tab (2 ^ m - 1) k = Some j" and "unat j < 2 ^ m" and "oa_stop k (tab ! unat j)"
proof -
  obtain i where "i < 2 ^ m" "tab ! i = None" using oa_free_slot [OF assms] by blast
  then have "oa_stop k (tab ! i)" by simp
  moreover have "m \<le> 62" "length tab = 2 ^ m" using oa_size [OF assms(1)] by simp_all
  moreover have "unat (packKeyBucket (fst k) (snd k) AND (2 ^ m - 1)) < 2 ^ m" by (simp add: unat_and_mask)
  ultimately obtain j where "oa_probe tab (2 ^ m - 1) k = Some j"
    using probe_loop_returns [of tab m _ i "oa_stop k"] \<open>i < 2 ^ m\<close> unfolding oa_probe_def by blast
  then show thesis using that probe_loop_found [of "oa_stop k" tab] \<open>length tab = 2 ^ m\<close> by (simp add: oa_probe_def)
qed

lemma oa_probe_free_absent:
  assumes "oa_ok m bs tab" and "oa_probe tab (2 ^ m - 1) k = Some j" and "tab ! unat j = None"
  shows "merged bs k = None"
proof (rule ccontr)
  assume "merged bs k \<noteq> None"
  then obtain v i where "i < 2 ^ m" "tab ! i = Some (k, v)" using oa_find [OF assms(1)] by blast
  then show False using oa_slot(2) [OF assms(1), of i k v] assms(2,3) by auto
qed

lemma oa_insert_new:
  assumes "oa_ok m bs tab" and j: "oa_probe tab (2 ^ m - 1) (batch_cell b) = Some j" "unat j < 2 ^ m" "tab ! unat j = None"
  shows "oa_ok m (bs @ [b]) (tab[unat j := Some (batch_cell b, b)])"
proof -
  let ?k = "batch_cell b" and ?tab = "tab[unat j := Some (batch_cell b, b)]"
  have len: "length tab = 2 ^ m" "m \<le> 62" using oa_size [OF assms(1)] by simp_all
  have absent: "merged bs ?k = None" using oa_probe_free_absent [OF assms(1) j(1,3)] .
  have "(\<exists>j. oa_probe ?tab (2 ^ m - 1) k = Some j \<and> unat j = i) \<and> merged (bs @ [b]) k = Some v"
    if i: "i < 2 ^ m" "?tab ! i = Some (k, v)" for i k v
  proof (cases "i = unat j")
    case True
    then have "k = ?k" "v = b" using i len by auto
    moreover have "oa_probe ?tab (2 ^ m - 1) ?k = Some j"
      using j probe_loop_update [of "oa_stop ?k" tab "2 ^ m - 1" _ j "unat j"] by (simp add: oa_probe_def)
    ultimately show ?thesis using True absent by simp
  next
    case False
    then have old: "tab ! i = Some (k, v)" using i by simp
    obtain j' where j': "oa_probe tab (2 ^ m - 1) k = Some j'" "unat j' = i" using oa_slot(2) [OF assms(1) i(1) old] by blast
    have "oa_probe ?tab (2 ^ m - 1) k = Some j'"
      using j' j(3) False probe_loop_update [of "oa_stop k" tab "2 ^ m - 1" _ j' "unat j"] by (simp add: oa_probe_def)
    moreover have "merged bs k = Some v" by (rule oa_slot(1) [OF assms(1) i(1) old])
    moreover from this absent have "k \<noteq> ?k" by auto
    ultimately show ?thesis using j'(2) by auto
  qed
  moreover have "\<exists>i < 2 ^ m. ?tab ! i = Some (k, v)" if "merged (bs @ [b]) k = Some v" for k v
  proof (cases "k = ?k")
    case True
    then have "v = b" using that absent by simp
    then show ?thesis using True j(2) len by (intro exI [of _ "unat j"]) simp
  next
    case False
    then have "merged bs k = Some v" using that by (simp split: if_splits)
    then obtain i where "i < 2 ^ m" "tab ! i = Some (k, v)" using oa_find [OF assms(1)] by blast
    then show ?thesis using j(3) by (intro exI [of _ i]) (cases "i = unat j"; simp)
  qed
  ultimately show ?thesis using len by (intro oa_okI) simp_all
qed

lemma oa_insert_merge:
  assumes "oa_ok m bs tab" and j: "unat j < 2 ^ m" "tab ! unat j = Some (batch_cell b, u)"
  shows "oa_ok m (bs @ [b]) (tab[unat j := Some (batch_cell b, mergeBatch u b)])"
proof -
  let ?k = "batch_cell b" and ?tab = "tab[unat j := Some (batch_cell b, mergeBatch u b)]"
  have len: "length tab = 2 ^ m" "m \<le> 62" using oa_size [OF assms(1)] by simp_all
  have old: "merged bs ?k = Some u" by (rule oa_slot(1) [OF assms(1) j])
  have stops: "oa_stop k (?tab ! a) = oa_stop k (tab ! a)" for k a
    using j len by (cases "a = unat j") simp_all
  have probes: "oa_probe ?tab (2 ^ m - 1) k = Some j'" if "oa_probe tab (2 ^ m - 1) k = Some j'" for k j'
    using that probe_loop_cong [of "oa_stop k" tab _ _ j' ?tab] stops by (simp add: oa_probe_def)
  have "(\<exists>j. oa_probe ?tab (2 ^ m - 1) k = Some j \<and> unat j = i) \<and> merged (bs @ [b]) k = Some v"
    if i: "i < 2 ^ m" "?tab ! i = Some (k, v)" for i k v
  proof (cases "i = unat j")
    case True
    then have "k = ?k" "v = mergeBatch u b" using i len by auto
    moreover obtain j' where "oa_probe tab (2 ^ m - 1) ?k = Some j'" "unat j' = unat j"
      using oa_slot(2) [OF assms(1) j] by blast
    ultimately show ?thesis using True old probes [of ?k j'] by simp
  next
    case False
    then have o: "tab ! i = Some (k, v)" using i by simp
    then have "k \<noteq> ?k" using oa_same_key [OF assms(1) i(1) j(1)] j(2) False by auto
    moreover obtain j' where "oa_probe tab (2 ^ m - 1) k = Some j'" "unat j' = i"
      using oa_slot(2) [OF assms(1) i(1) o] by blast
    ultimately show ?thesis using probes [of k j'] oa_slot(1) [OF assms(1) i(1) o] by auto
  qed
  moreover have "\<exists>i < 2 ^ m. ?tab ! i = Some (k, v)" if "merged (bs @ [b]) k = Some v" for k v
  proof (cases "k = ?k")
    case True
    then have "v = mergeBatch u b" using that old by simp
    then show ?thesis using True j(1) len by (intro exI [of _ "unat j"]) simp
  next
    case False
    then have "merged bs k = Some v" using that by (simp split: if_splits)
    then obtain i where "i < 2 ^ m" "tab ! i = Some (k, v)" using oa_find [OF assms(1)] by blast
    then show ?thesis using j(2) False by (intro exI [of _ i]) (cases "i = unat j"; simp)
  qed
  ultimately show ?thesis using len by (intro oa_okI) simp_all
qed

lemma oa_insert_ok:
  assumes "oa_ok m bs tab" and "length bs < 2 ^ m"
  shows "\<exists>tab'. oa_insert (2 ^ m - 1) b tab = Some tab' \<and> oa_ok m (bs @ [b]) tab'"
proof -
  obtain j where j: "oa_probe tab (2 ^ m - 1) (batch_cell b) = Some j" "unat j < 2 ^ m" "oa_stop (batch_cell b) (tab ! unat j)"
    using oa_probe_returns [OF assms] by blast
  show ?thesis
  proof (cases "tab ! unat j")
    case None
    then show ?thesis using oa_insert_new [OF assms(1) j(1,2)] j(1) by (simp add: oa_insert_def oa_probe_def Let_def)
  next
    case (Some e)
    then obtain u where "tab ! unat j = Some (batch_cell b, u)" using j(3) by (cases e) simp
    then show ?thesis using oa_insert_merge [OF assms(1) j(2)] j(1) by (simp add: oa_insert_def oa_probe_def Let_def)
  qed
qed

lemma oa_insert_all_ok:
  "oa_ok m xs tab \<Longrightarrow> length xs + length bs \<le> 2 ^ m \<Longrightarrow>
     \<exists>tab'. oa_insert_all (2 ^ m - 1) bs tab = Some tab' \<and> oa_ok m (xs @ bs) tab'"
proof (induction bs arbitrary: xs tab)
  case (Cons b bs)
  then obtain tab1 where t: "oa_insert (2 ^ m - 1) b tab = Some tab1" "oa_ok m (xs @ [b]) tab1"
    using oa_insert_ok [of m xs tab b] by auto
  with Cons.IH [OF t(2)] Cons.prems(2) show ?case by simp
qed simp

text \<open>The entries of a table, in slot order.\<close>

fun entries :: "kv list \<Rightarrow> (cell \<times> SBatch) list" where
  "entries [] = []"
| "entries (None # tab) = entries tab"
| "entries (Some x # tab) = x # entries tab"

lemma oa_output_entries: "oa_output tab = nonzero (entries tab)"
  by (induction tab rule: oa_output.induct) (simp_all add: nonzero_def)

lemma entries_set: "x \<in> set (entries tab) \<longleftrightarrow> (\<exists>i < length tab. tab ! i = Some x)"
proof -
  have "x \<in> set (entries tab) \<longleftrightarrow> Some x \<in> set tab" by (induction tab rule: entries.induct) auto
  then show ?thesis by (simp add: in_set_conv_nth)
qed

lemma entries_distinct:
  "(\<And>i j k v v'. i < length tab \<Longrightarrow> j < length tab \<Longrightarrow> tab ! i = Some (k, v) \<Longrightarrow> tab ! j = Some (k, v') \<Longrightarrow> i = j) \<Longrightarrow>
     distinct (map fst (entries tab))"
proof (induction tab)
  case (Cons e tab)
  have tl: "i = j" if "i < length tab" "j < length tab" "tab ! i = Some (k, v)" "tab ! j = Some (k, v')" for i j k v v'
    using Cons.prems [of "Suc i" "Suc j" k v v'] that by simp
  have "fst x \<notin> fst ` set (entries tab)" if "e = Some x" for x
  proof
    assume "fst x \<in> fst ` set (entries tab)"
    then obtain i v where "i < length tab" "tab ! i = Some (fst x, v)" by (force simp: entries_set)
    with Cons.prems [of 0 "Suc i" "fst x" "snd x" v] that show False by simp
  qed
  moreover have "distinct (map fst (entries tab))" by (rule Cons.IH) (rule tl)
  ultimately show ?case by (cases e) simp_all
qed simp

lemma oa_holds_merged: "oa_ok m bs tab \<Longrightarrow> holds_merged bs (entries tab)"
proof -
  assume ok: "oa_ok m bs tab"
  have len: "length tab = 2 ^ m" using oa_size [OF ok] by simp
  have d: "distinct (map fst (entries tab))"
    using oa_same_key [OF ok] len by (intro entries_distinct) simp
  have "map_of (entries tab) c = Some v \<longleftrightarrow> merged bs c = Some v" for c v
    using map_of_eq_Some_iff [OF d] entries_set [of "(c, v)" tab] oa_slot(1) [OF ok, of _ c v] oa_find [OF ok, of c v] len
    by auto
  then have "map_of (entries tab) = merged bs" by (metis option.exhaust ext)
  with d show ?thesis by (simp add: holds_merged_def)
qed

lemma compress_oa_ok:
  assumes "bs \<noteq> []" and "length bs \<le> 64"
  shows "\<exists>es. compress_oa bs = Some (nonzero es) \<and> holds_merged bs es"
proof -
  let ?n = "growTable 1 (length bs)"
  have "(0 :: nat) < 1" by simp
  from growTable_spec [OF this, of "length bs"]
  obtain m where m: "?n = 2 ^ m" "length bs * 2 \<le> ?n" "?n = 1 \<or> ?n < 4 * length bs"
    unfolding mult_1_right by blast
  have "(2 :: nat) ^ m < 2 ^ 8" using m assms(2) by auto
  then have "m \<le> 62" using power_less_imp_less_exp [of "2 :: nat" m 8] by simp
  have w: "(word_of_nat ?n - 1 :: i64) = 2 ^ m - 1" unfolding m(1) by simp
  have "oa_ok m [] (replicate (2 ^ m) None)" using \<open>m \<le> 62\<close> by (intro oa_okI) simp_all
  moreover have "length bs \<le> 2 ^ m" using m by simp
  ultimately obtain tab where "oa_insert_all (2 ^ m - 1) bs (replicate (2 ^ m) None) = Some tab" "oa_ok m bs tab"
    using oa_insert_all_ok [of m "[]" _ bs] by auto
  then show ?thesis
    unfolding compress_oa_def Let_def w using m(1) oa_holds_merged by (auto simp: oa_output_entries)
qed

text \<open>Either path returns the merged batches with a non-zero net.\<close>

lemma Compress_ok: "\<exists>es. Compress bs = Some (nonzero es) \<and> holds_merged bs es"
proof (cases "bs = []")
  case True
  then show ?thesis by (intro exI [of _ "[]"]) (simp add: Compress_def nonzero_def holds_merged_def fun_eq_iff)
next
  case False
  then show ?thesis
    using compress_oa_ok [OF False] map_path_merged [of bs] by (auto simp: Compress_def compress_map_eq)
qed

text \<open>The compressor as the service calls it.\<close>

definition SimpleVSA :: "SBatch list \<Rightarrow> SBatch list" where
  "SimpleVSA bs = (case Compress bs of Some out \<Rightarrow> out | None \<Rightarrow> [])"

interpretation simple_vsa: sbatch_transformer SimpleVSA
proof
  fix bs c
  obtain es where "Compress bs = Some (nonzero es)" "holds_merged bs es" using Compress_ok by blast
  then show "batch_net (SimpleVSA bs) c = batch_net bs c" by (simp add: SimpleVSA_def holds_merged_net)
qed

section \<open>Properties\<close>

text \<open>
  C27. Compression is correct on every input, on the table path and on the map path: it always
  returns (no probe loop runs forever), every output batch has a non-zero net, no cell occurs twice,
  the net of every cell is that of the input, and a batch carries the highest sequence number
  of the input batches of its cell.
\<close>

theorem compress_correct:
  "\<exists>out. Compress bs = Some out \<and> distinct (map batch_cell out) \<and> (\<forall>c. batch_net out c = batch_net bs c)
    \<and> (\<forall>v \<in> set out. NetDelta v \<noteq> 0
        \<and> (\<exists>b \<in> set bs. batch_cell b = batch_cell v \<and> SeqEnd v = SeqEnd b)
        \<and> (\<forall>b \<in> set bs. batch_cell b = batch_cell v \<longrightarrow> SeqEnd b \<le> SeqEnd v))"
proof -
  obtain es where es: "Compress bs = Some (nonzero es)" "holds_merged bs es" using Compress_ok by blast
  have "NetDelta v \<noteq> 0 \<and> (\<exists>b \<in> set bs. batch_cell b = batch_cell v \<and> SeqEnd v = SeqEnd b)
      \<and> (\<forall>b \<in> set bs. batch_cell b = batch_cell v \<longrightarrow> SeqEnd b \<le> SeqEnd v)" if "v \<in> set (nonzero es)" for v
  proof -
    have "merged bs (batch_cell v) = Some v" "NetDelta v \<noteq> 0"
      using that holds_merged_output(1) [OF es(2)] by simp_all
    then show ?thesis using merged_SeqEnd by blast
  qed
  then show ?thesis using es holds_merged_output(2) holds_merged_net by blast
qed

theorem compress_correct_witness:
  "let bs = [\<lparr>KeyID = 1, BucketID = 2, NetDelta = 5, SeqEnd = 3\<rparr>, \<lparr>KeyID = 1, BucketID = 2, NetDelta = 4, SeqEnd = 2\<rparr>]
   in \<exists>out. Compress bs = Some out \<and> batch_net out (1, 2) = 9"
proof -
  let ?bs = "[\<lparr>KeyID = 1, BucketID = 2, NetDelta = 5, SeqEnd = 3\<rparr>, \<lparr>KeyID = 1, BucketID = 2, NetDelta = 4, SeqEnd = 2\<rparr>]"
  obtain out where "Compress ?bs = Some out" "\<forall>c. batch_net out c = batch_net ?bs c"
    using compress_correct [of ?bs] by blast
  then show ?thesis by (simp add: batch_cell_def)
qed

text \<open>
  C28. The two paths agree. On any non-empty input of at most 64 batches the open-addressed path
  returns, and what it returns is, up to the order of the batches, what the map path would return.
\<close>

theorem compress_paths_agree:
  assumes "bs \<noteq> []" and "length bs \<le> 64"
  shows "\<exists>out. compress_oa bs = Some out \<and> mset out = mset (compress_map bs)"
proof -
  obtain es where "compress_oa bs = Some (nonzero es)" "holds_merged bs es" using compress_oa_ok [OF assms] by blast
  then show ?thesis
    using holds_merged_mset [OF _ map_path_merged] by (auto simp: compress_map_eq)
qed

theorem compress_paths_agree_witness:
  "\<exists>out. compress_oa [\<lparr>KeyID = 1, BucketID = 2, NetDelta = 5, SeqEnd = 3\<rparr>] = Some out
     \<and> mset out = {# \<lparr>KeyID = 1, BucketID = 2, NetDelta = 5, SeqEnd = 3\<rparr> #}"
proof -
  let ?b = "\<lparr>KeyID = 1, BucketID = 2, NetDelta = 5, SeqEnd = 3\<rparr> :: SBatch"
  have "compress_map [?b] = [?b]" by code_simp
  then show ?thesis using compress_paths_agree [of "[?b]"] by simp
qed

end
