(* ===== verification/TFD_Pipeline.thy ===== *)
theory TFD_Pipeline
  imports TFD_Compress "HOL-Library.Product_Lexorder"
begin

text \<open>
  The Vector lane (plugin/tfd/vactors.go), the pipeline that joins both lanes (pipeline.go) and
  reconstruction (reconstruct.go): the state rebuilt from flushed batches and drained vector
  envelopes equals that of applying all envelopes in arrival order.
\<close>

section \<open>The Vector lane\<close>

record VActor =
  actor_keyID :: u64
  prev :: "u8 list"
  queue :: "Envelope list"

definition newVActor :: "u64 \<Rightarrow> VActor" where
  "newVActor keyID = \<lparr>actor_keyID = keyID, prev = replicate 16 0, queue = []\<rparr>"

definition Enqueue :: "Envelope \<Rightarrow> VActor \<Rightarrow> VActor" where
  "Enqueue env a =
     (if env_Channel env \<noteq> ChannelVector then a
      else let p = Hash128 [actor_keyID a, env_SeqEnd env]
           in a\<lparr>prev := p, queue := queue a @ [env\<lparr>HashPrev := p\<rparr>]\<rparr>)"

definition Drain :: "VActor \<Rightarrow> Envelope list \<times> VActor" where
  "Drain a = (queue a, a\<lparr>queue := []\<rparr>)"

record VRouter =
  actors :: "(u64 \<times> VActor) list"

definition NewVRouter :: VRouter where
  "NewVRouter = \<lparr>actors = []\<rparr>"

definition Route :: "u64 \<Rightarrow> VRouter \<Rightarrow> VActor \<times> VRouter" where
  "Route keyID r =
     (case map_of (actors r) keyID of
        Some act \<Rightarrow> (act, r)
      | None \<Rightarrow> let act = newVActor keyID in (act, r\<lparr>actors := al_update keyID act (actors r)\<rparr>))"

section \<open>The pipeline\<close>

record Pipeline =
  pipe_s :: SService
  pipe_v :: VRouter

record PipelineOptions =
  opt_Shards :: i64
  opt_OrderPow2 :: i64
  opt_CountThresh :: i64
  opt_TimeCap :: i64
  opt_FlushInterval :: i64
  opt_Buffer :: i64

definition NewPipeline :: "(nat \<Rightarrow> i64) \<Rightarrow> PipelineOptions \<Rightarrow> SBatch list list option \<Rightarrow> Pipeline option" where
  "NewPipeline clk opts snk =
     (case NewSAccumulator clk (opt_Shards opts) (opt_OrderPow2 opts) (opt_CountThresh opts) (opt_TimeCap opts) of
        None \<Rightarrow> None
      | Some acc \<Rightarrow>
          Some \<lparr>pipe_s = NewSService acc snk \<lparr>Buffer = opt_Buffer opts, FlushInterval = opt_FlushInterval opts\<rparr>,
                pipe_v = NewVRouter\<rparr>)"

text \<open>
  \<open>persistV\<close> is the optional callback; it acts on a log of its own. \<open>None\<close> while a Scalar
  envelope blocks on a full buffer.
\<close>

definition Handle :: "(Envelope \<Rightarrow> 'l \<Rightarrow> 'l) option \<Rightarrow> Envelope \<Rightarrow> Pipeline \<times> 'l \<Rightarrow> (Pipeline \<times> 'l) option" where
  "Handle persistV env = (\<lambda>(p, log).
     if env_Channel env = ChannelScalar then
       let (ok, s) = TryIngest env (pipe_s p)
       in if ok then Some (p\<lparr>pipe_s := s\<rparr>, log)
          else map_option (\<lambda>s. (p\<lparr>pipe_s := s\<rparr>, log)) (svc_Ingest env s)
     else
       let keyID = fp_KeyID (env_Footprint env); (act, r) = Route keyID (pipe_v p)
       in Some (p\<lparr>pipe_v := r\<lparr>actors := al_update keyID (Enqueue env act) (actors r)\<rparr>\<rparr>,
                case persistV of None \<Rightarrow> log | Some f \<Rightarrow> f env log))"

definition DrainV :: "u64 \<Rightarrow> Pipeline \<Rightarrow> Envelope list \<times> Pipeline" where
  "DrainV keyID p =
     (let (act, r) = Route keyID (pipe_v p); (out, act') = Drain act
      in (out, p\<lparr>pipe_v := r\<lparr>actors := al_update keyID act' (actors r)\<rparr>\<rparr>))"

definition pipe_Start :: "Pipeline \<Rightarrow> Pipeline" where
  "pipe_Start p = p\<lparr>pipe_s := svc_Start (pipe_s p)\<rparr>"

definition pipe_Stop :: "Pipeline \<Rightarrow> Pipeline option" where
  "pipe_Stop p = map_option (\<lambda>s. p\<lparr>pipe_s := s\<rparr>) (svc_Stop (pipe_s p))"

definition FlushS :: "Pipeline \<Rightarrow> Pipeline option" where
  "FlushS p = map_option (\<lambda>s. p\<lparr>pipe_s := s\<rparr>) (svc_Flush (pipe_s p))"

section \<open>Reconstruction\<close>

record TfdState =
  state_cells :: "(cell \<times> i64) list"

definition NewState :: TfdState where
  "NewState = \<lparr>state_cells = []\<rparr>"

text \<open>Reading a cell that the map does not have gives zero.\<close>

definition Cells :: "TfdState \<Rightarrow> cell \<Rightarrow> i64" where
  "Cells s c = (case map_of (state_cells s) c of None \<Rightarrow> 0 | Some x \<Rightarrow> x)"

definition applyS :: "TfdState \<Rightarrow> SBatch \<Rightarrow> TfdState" where
  "applyS s b =
     (let k = (KeyID b, BucketID b) in s\<lparr>state_cells := al_update k (Cells s k + NetDelta b) (state_cells s)\<rparr>)"

definition applyV :: "TfdState \<Rightarrow> Envelope \<Rightarrow> TfdState" where
  "applyV s env =
     (let k = (fp_KeyID (env_Footprint env), time_BucketID (fp_Time (env_Footprint env)))
      in s\<lparr>state_cells := al_update k (Cells s k + Delta env) (state_cells s)\<rparr>)"

text \<open>
  \<open>sort.Slice\<close> may order equal elements in any way, and \<open>sort_key\<close> is one of them; additive
  deltas make the cells independent of the choice.
\<close>

definition Reconstruct :: "SBatch list \<Rightarrow> Envelope list \<Rightarrow> TfdState \<Rightarrow> TfdState" where
  "Reconstruct sBatches vEnvs s =
     (let s = foldl applyS s sBatches;
          vEnvs = sort_key (\<lambda>e. (fp_KeyID (env_Footprint e), env_SeqEnd e)) vEnvs
      in foldl applyV s vEnvs)"

definition baseline_one :: "TfdState \<Rightarrow> Envelope \<Rightarrow> TfdState" where
  "baseline_one s e =
     (if env_Channel e = ChannelScalar then
        applyS s \<lparr>KeyID = fp_KeyID (env_Footprint e), BucketID = time_BucketID (fp_Time (env_Footprint e)),
          NetDelta = Delta e, SeqEnd = env_SeqEnd e\<rparr>
      else applyV s e)"

definition BaselineApply :: "Envelope list \<Rightarrow> TfdState \<Rightarrow> TfdState" where
  "BaselineApply envs s = foldl baseline_one s envs"

section \<open>Lemmas\<close>

lemma Cells_applyS: "Cells (applyS s b) c = Cells s c + (if batch_cell b = c then NetDelta b else 0)"
  by (auto simp: applyS_def Cells_def batch_cell_def Let_def)

lemma Cells_applyV: "Cells (applyV s e) c = Cells s c + (if env_cell e = c then Delta e else 0)"
  by (auto simp: applyV_def Cells_def env_cell_def Let_def)

lemma Cells_foldl_applyS: "Cells (foldl applyS s bs) c = Cells s c + batch_net bs c"
  by (induction bs arbitrary: s) (simp_all add: Cells_applyS add.assoc)

lemma Cells_foldl_applyV: "Cells (foldl applyV s es) c = Cells s c + env_net es c"
  by (induction es arbitrary: s) (simp_all add: Cells_applyV add.assoc)

lemma Cells_baseline: "Cells (BaselineApply es s) c = Cells s c + env_net es c"
proof -
  have "Cells (baseline_one s e) c = Cells s c + (if env_cell e = c then Delta e else 0)" for s e
    by (simp add: baseline_one_def Cells_applyS Cells_applyV batch_cell_def env_cell_def)
  then show ?thesis unfolding BaselineApply_def by (induction es arbitrary: s) (simp_all add: add.assoc)
qed

lemma env_net_mset: "mset es = mset es' \<Longrightarrow> env_net es c = env_net es' c"
proof -
  have eq: "env_net xs c = (\<Sum>e \<in># mset xs. if env_cell e = c then Delta e else 0)" for xs
    by (induction xs) simp_all
  show "env_net es c = env_net es' c" if "mset es = mset es'" unfolding eq that ..
qed

lemma Cells_Reconstruct: "Cells (Reconstruct bs es s) c = Cells s c + batch_net bs c + env_net es c"
  unfolding Reconstruct_def Let_def Cells_foldl_applyV Cells_foldl_applyS
  by (simp add: env_net_mset [OF mset_sort])

text \<open>Scalar and vector parts of a list of envelopes.\<close>

abbreviation scalars :: "Envelope list \<Rightarrow> Envelope list" where
  "scalars es \<equiv> filter (\<lambda>e. env_Channel e = ChannelScalar) es"

abbreviation vectors :: "Envelope list \<Rightarrow> Envelope list" where
  "vectors es \<equiv> filter (\<lambda>e. env_Channel e = ChannelVector) es"

lemma env_net_lanes: "env_net (scalars es) c + env_net (vectors es) c = env_net es c"
proof (induction es)
  case (Cons e es)
  then show ?case by (cases "env_Channel e") (auto simp: ac_simps)
qed simp

section \<open>Runs of the pipeline\<close>

inductive pipe_run :: "compressor \<Rightarrow> Pipeline \<Rightarrow> Envelope list \<Rightarrow> Pipeline \<Rightarrow> bool"
  for vsa :: compressor and p0 :: Pipeline where
  pipe_init: "pipe_run vsa p0 [] p0"
| pipe_handle: "pipe_run vsa p0 es p \<Longrightarrow> Handle None env (p, ()) = Some (p', ()) \<Longrightarrow> pipe_run vsa p0 (es @ [env]) p'"
| pipe_start: "pipe_run vsa p0 es p \<Longrightarrow> pipe_run vsa p0 es (pipe_Start p)"
| pipe_stop: "pipe_run vsa p0 es p \<Longrightarrow> pipe_Stop p = Some p' \<Longrightarrow> pipe_run vsa p0 es p'"
| pipe_flush: "pipe_run vsa p0 es p \<Longrightarrow> FlushS p = Some p' \<Longrightarrow> pipe_run vsa p0 es p'"
| pipe_service: "pipe_run vsa p0 es p \<Longrightarrow> svc_step vsa (pipe_s p) [] s' \<Longrightarrow> pipe_run vsa p0 es (p\<lparr>pipe_s := s'\<rparr>)"

text \<open>What an actor's queue holds: the key's vector envelopes in arrival order, with their hashes.\<close>

definition hashed :: "u64 \<Rightarrow> Envelope \<Rightarrow> Envelope" where
  "hashed k e = e\<lparr>HashPrev := Hash128 [k, env_SeqEnd e]\<rparr>"

definition lane_of :: "u64 \<Rightarrow> Envelope list \<Rightarrow> Envelope list" where
  "lane_of k es = map (hashed k) (filter (\<lambda>e. fp_KeyID (env_Footprint e) = k) (vectors es))"

definition actor_at :: "Pipeline \<Rightarrow> u64 \<Rightarrow> VActor" where
  "actor_at p k = fst (Route k (pipe_v p))"

lemma actor_at_eq: "actor_at p k = (case map_of (actors (pipe_v p)) k of Some a \<Rightarrow> a | None \<Rightarrow> newVActor k)"
  by (simp add: actor_at_def Route_def Let_def split: option.split)

lemma Handle_scalar:
  assumes "env_Channel env = ChannelScalar" and "Handle None env (p, ()) = Some (p', ())"
  shows "svc_step vsa (pipe_s p) [env] (pipe_s p')" and "pipe_v p' = pipe_v p"
proof -
  obtain ok s where t: "TryIngest env (pipe_s p) = (ok, s)" by fastforce
  have "\<not> ok \<Longrightarrow> s = pipe_s p" using t by (auto simp: TryIngest_def split: if_splits)
  then show "svc_step vsa (pipe_s p) [env] (pipe_s p')" "pipe_v p' = pipe_v p"
    using assms t svc_step.call_try_ingest [OF t, of vsa] svc_step.call_ingest [of env "pipe_s p" "pipe_s p'" vsa]
    by (auto simp: Handle_def split: if_splits)
qed

lemma Handle_vector:
  assumes "env_Channel env = ChannelVector" and "Handle None env (p, ()) = Some (p', ())"
  shows "pipe_s p' = pipe_s p"
    and "actor_at p' k = (if k = fp_KeyID (env_Footprint env) then Enqueue env (actor_at p k) else actor_at p k)"
  using assms by (auto simp: Handle_def Route_def actor_at_eq Let_def split: option.splits)

lemma pipe_calls:
  shows "svc_step vsa (pipe_s p) [] (pipe_s (pipe_Start p))" and "pipe_v (pipe_Start p) = pipe_v p"
    and "pipe_Stop p = Some p' \<Longrightarrow> svc_step vsa (pipe_s p) [] (pipe_s p') \<and> pipe_v p' = pipe_v p"
    and "FlushS p = Some p' \<Longrightarrow> svc_step vsa (pipe_s p) [] (pipe_s p') \<and> pipe_v p' = pipe_v p"
  by (auto simp: pipe_Start_def pipe_Stop_def FlushS_def intro: svc_step.intros)

lemma lanes_kept:
  assumes "svc_run vsa s0 xs (pipe_s p) \<and> (\<forall>k. actor_keyID (actor_at p k) = k \<and> queue (actor_at p k) = f k)"
    and "svc_step vsa (pipe_s p) [] (pipe_s p') \<and> pipe_v p' = pipe_v p"
  shows "svc_run vsa s0 xs (pipe_s p') \<and> (\<forall>k. actor_keyID (actor_at p' k) = k \<and> queue (actor_at p' k) = f k)"
  using assms svc_run.run_more [of vsa s0 xs "pipe_s p" "[]" "pipe_s p'"] by (simp add: actor_at_eq)

lemma pipe_run_lanes:
  assumes "pipe_run vsa p0 es p" and "pipe_v p0 = NewVRouter"
  shows "svc_run vsa (pipe_s p0) (scalars es) (pipe_s p)"
    and "actor_keyID (actor_at p k) = k \<and> queue (actor_at p k) = lane_of k es"
proof -
  have "svc_run vsa (pipe_s p0) (scalars es) (pipe_s p)
    \<and> (\<forall>k. actor_keyID (actor_at p k) = k \<and> queue (actor_at p k) = lane_of k es)"
    using assms
  proof (induction rule: pipe_run.induct)
    case pipe_init
    then show ?case by (simp add: svc_run.run_none actor_at_eq NewVRouter_def newVActor_def lane_of_def)
  next
    case (pipe_handle es p env p')
    show ?case
    proof (cases "env_Channel env")
      case ChannelScalar
      note h = Handle_scalar [OF ChannelScalar pipe_handle(2)]
      have "actor_at p' k = actor_at p k" for k using h(2) by (simp add: actor_at_eq)
      then show ?thesis
        using pipe_handle.IH pipe_handle.prems ChannelScalar svc_run.run_more [OF _ h(1)] by (simp add: lane_of_def)
    next
      case ChannelVector
      note h = Handle_vector [OF ChannelVector pipe_handle(2)]
      then show ?thesis
        using pipe_handle.IH pipe_handle.prems ChannelVector
        by (simp add: lane_of_def Enqueue_def hashed_def Let_def)
    qed
  next
    case (pipe_start es p)
    from lanes_kept [OF pipe_start.IH [OF pipe_start.prems], of "pipe_Start p"] pipe_calls(1,2) show ?case by simp
  next
    case (pipe_stop es p p')
    from lanes_kept [OF pipe_stop.IH [OF pipe_stop.prems] pipe_calls(3) [OF pipe_stop(2)]] show ?case .
  next
    case (pipe_flush es p p')
    from lanes_kept [OF pipe_flush.IH [OF pipe_flush.prems] pipe_calls(4) [OF pipe_flush(2)]] show ?case .
  next
    case (pipe_service es p s')
    from lanes_kept [OF pipe_service.IH [OF pipe_service.prems], of "p\<lparr>pipe_s := s'\<rparr>"] pipe_service(2) show ?case by simp
  qed
  then show "svc_run vsa (pipe_s p0) (scalars es) (pipe_s p)"
    and "actor_keyID (actor_at p k) = k \<and> queue (actor_at p k) = lane_of k es" by simp_all
qed

lemma DrainV_actor: "fst (DrainV k p) = queue (actor_at p k)"
  by (simp add: DrainV_def actor_at_def Drain_def Let_def split: prod.split)

text \<open>Draining several keys one after another.\<close>

fun drainKeys :: "u64 list \<Rightarrow> Pipeline \<Rightarrow> Envelope list \<times> Pipeline" where
  "drainKeys [] p = ([], p)"
| "drainKeys (k # ks) p =
     (let (out, p1) = DrainV k p; (rest, p2) = drainKeys ks p1 in (out @ rest, p2))"

lemma DrainV_after: "actor_at (snd (DrainV k p)) k' = (if k' = k then (actor_at p k)\<lparr>queue := []\<rparr> else actor_at p k')"
  by (simp add: DrainV_def Route_def Drain_def actor_at_eq Let_def split: option.split)

lemma drainKeys_eq:
  "distinct ks \<Longrightarrow> fst (drainKeys ks p) = concat (map (\<lambda>k. queue (actor_at p k)) ks)"
proof (induction ks arbitrary: p)
  case (Cons k ks)
  have "concat (map (\<lambda>k'. queue (actor_at (snd (DrainV k p)) k')) ks) = concat (map (\<lambda>k'. queue (actor_at p k')) ks)"
    using Cons.prems by (intro arg_cong [of _ _ concat] map_cong) (auto simp: DrainV_after)
  moreover have "fst (drainKeys ks (snd (DrainV k p))) = concat (map (\<lambda>k'. queue (actor_at (snd (DrainV k p)) k')) ks)"
    using Cons by simp
  ultimately show ?case by (simp add: Let_def split_beta DrainV_actor)
qed simp

lemma hashed_frame [simp]: "env_cell (hashed k e) = env_cell e" "Delta (hashed k e) = Delta e"
  by (simp_all add: hashed_def env_cell_def)

lemma lane_of_net: "env_net (lane_of k es) c = (if fst c = k then env_net (vectors es) c else 0)"
proof (induction es)
  case (Cons e es)
  have "env_cell e = c \<Longrightarrow> fp_KeyID (env_Footprint e) = fst c" by (auto simp: env_cell_def)
  with Cons show ?case by (auto simp: lane_of_def)
qed (simp add: lane_of_def)

lemma lanes_net:
  assumes "distinct ks" and "\<forall>e \<in> set (vectors es). fp_KeyID (env_Footprint e) \<in> set ks"
  shows "env_net (concat (map (\<lambda>k. lane_of k es) ks)) c = env_net (vectors es) c"
proof (cases "fst c \<in> set ks")
  case True
  with assms(1) show ?thesis
  proof (induction ks)
    case (Cons k ks)
    have "env_net (concat (map (\<lambda>k. lane_of k es) ks)) c = 0" if "fst c \<notin> set ks" for ks
      using that by (induction ks) (simp_all add: lane_of_net)
    with Cons show ?case by (cases "fst c = k") (simp_all add: lane_of_net)
  qed simp
next
  case False
  have "env_cell e \<noteq> c" if "e \<in> set (vectors es)" for e
    using that assms(2) False by (auto simp: env_cell_def)
  then have "env_net (vectors es) c = 0" by (induction es) auto
  moreover have "env_net (concat (map (\<lambda>k. lane_of k es) ks)) c = 0"
    using False by (induction ks) (simp_all add: lane_of_net)
  ultimately show ?thesis by simp
qed

lemma svc_flush_sink: "svc_sink s \<noteq> None \<Longrightarrow> svc_sink (svc_flush vsa s) \<noteq> None"
  by (auto simp: svc_flush_def Let_def split: prod.split)

section \<open>Properties\<close>

text \<open>
  The Vector lane is first-in first-out per key. After any run of a new pipeline, draining a
  key returns exactly the vector envelopes handled for that key, in arrival order, unchanged but
  for the audit hash; the key's queue is then empty and every other key's queue is untouched. The
  audit hash of an envelope is a function of the key and of the envelope's own sequence number,
  whatever came before it.
\<close>

theorem vector_lane_fifo:
  assumes "NewPipeline clk opts snk = Some p0" and "pipe_run vsa p0 es p"
  shows "fst (DrainV k p) = map (\<lambda>e. e\<lparr>HashPrev := Hash128 [k, env_SeqEnd e]\<rparr>)
      (filter (\<lambda>e. env_Channel e = ChannelVector \<and> fp_KeyID (env_Footprint e) = k) es)
    \<and> fst (DrainV k (snd (DrainV k p))) = []
    \<and> (\<forall>k'. k' \<noteq> k \<longrightarrow> fst (DrainV k' (snd (DrainV k p))) = fst (DrainV k' p))"
proof -
  have "pipe_v p0 = NewVRouter" using assms(1) by (auto simp: NewPipeline_def split: option.splits)
  from pipe_run_lanes(2) [OF assms(2) this, of k] show ?thesis
    by (auto simp: DrainV_actor DrainV_after lane_of_def hashed_def intro!: map_cong filter_cong)
qed

definition example_venv :: "u64 \<Rightarrow> u64 \<Rightarrow> i64 \<Rightarrow> Envelope" where
  "example_venv key bucket d = (example_env key bucket d)\<lparr>env_Channel := ChannelVector\<rparr>"

definition example_popts :: PipelineOptions where
  "example_popts = \<lparr>opt_Shards = 1, opt_OrderPow2 = 2, opt_CountThresh = 9, opt_TimeCap = 9, opt_FlushInterval = 0, opt_Buffer = 0\<rparr>"

lemma example_pipeline: "\<exists>p0. NewPipeline (\<lambda>_. 0) example_popts (Some []) = Some p0"
proof -
  have "NewPipeline (\<lambda>_. 0) example_popts (Some []) \<noteq> None" by code_simp
  then show ?thesis by auto
qed

theorem vector_lane_fifo_witness:
  "\<exists>p0 p. NewPipeline (\<lambda>_. 0) example_popts (Some []) = Some p0
     \<and> pipe_run None p0 [example_venv 3 4 5] p \<and> map Delta (fst (DrainV 3 p)) = [5]"
proof -
  obtain p0 where p0: "NewPipeline (\<lambda>_. 0) example_popts (Some []) = Some p0" using example_pipeline by blast
  obtain p where "Handle None (example_venv 3 4 5) (p0, ()) = Some (p, ())"
    by (auto simp: Handle_def example_venv_def split_beta Let_def)
  from pipe_run.pipe_handle [OF pipe_run.pipe_init this, of None]
  have run: "pipe_run None p0 [example_venv 3 4 5] p" by simp
  from vector_lane_fifo [OF p0 run, of 3] have "map Delta (fst (DrainV 3 p)) = [5]"
    by (simp add: example_venv_def example_env_def)
  with p0 run show ?thesis by (intro exI [of _ p0] exI [of _ p]) simp
qed

text \<open>
  C29. Reconstruction equals the ordered baseline. Run a new pipeline on any mix of scalar and
  vector envelopes, interleaved in any way with the steps of the service and with any transformer
  that keeps the net of every cell, until the service has stopped with an empty queue. Rebuilding
  the state from the batches the sink received and the vector envelopes drained key by key gives in
  every cell the value that applying all handled envelopes in arrival order gives, provided the
  scalar cells are free of aliases.
\<close>

theorem pipeline_equals_baseline:
  assumes "NewPipeline clk opts (Some []) = Some p0" and "sint (opt_OrderPow2 opts) \<le> 62" and "transformer_ok vsa"
    and "pipe_run vsa p0 es p" and "svc_done (pipe_s p)" and "inq (pipe_s p) = []" and "svc_sink (pipe_s p) = Some log"
    and "alias_free C" and "\<forall>e \<in> set es. env_Channel e = ChannelScalar \<longrightarrow> env_cell e \<in> C"
    and "distinct ks" and "\<forall>e \<in> set es. env_Channel e = ChannelVector \<longrightarrow> fp_KeyID (env_Footprint e) \<in> set ks"
  shows "Cells (Reconstruct (concat log) (fst (drainKeys ks p)) NewState) c = Cells (BaselineApply es NewState) c"
proof -
  obtain a where a: "NewSAccumulator clk (opt_Shards opts) (opt_OrderPow2 opts) (opt_CountThresh opts) (opt_TimeCap opts) = Some a"
    and p0: "pipe_s p0 = NewSService a (Some []) \<lparr>Buffer = opt_Buffer opts, FlushInterval = opt_FlushInterval opts\<rparr>"
      "pipe_v p0 = NewVRouter"
    using assms(1) by (auto simp: NewPipeline_def split: option.splits)
  note lanes = pipe_run_lanes [OF assms(4) p0(2)]
  let ?s0 = "NewSService a (Some []) \<lparr>Buffer = opt_Buffer opts, FlushInterval = opt_FlushInterval opts\<rparr>"
  note new = NewSAccumulator_ok [OF assms(2) a assms(8)]
  have ok: "lane_ok C ?s0" "lane_total ?s0 c = 0" "\<not> svc_done ?s0"
    using new by (simp_all add: NewSService_def Let_def lane_ok_def lane_total_def delivered_def)
  have run: "svc_run vsa ?s0 (scalars es) (pipe_s p)" using lanes(1) p0(1) by simp
  have in_C: "\<forall>e \<in> set (scalars es). env_cell e \<in> C" using assms(9) by simp
  have "batch_net (concat log) c = env_net (scalars es) c"
    using svc_run_total [OF run assms(3) ok(1) in_C, of c] done_empty [OF run assms(3) ok(1) in_C ok(3) assms(5), of c]
      ok(2) assms(6,7) by (simp add: lane_total_def delivered_def)
  moreover have "fst (drainKeys ks p) = concat (map (\<lambda>k. lane_of k es) ks)"
    using drainKeys_eq [OF assms(10)] lanes(2) by simp
  moreover have "env_net (concat (map (\<lambda>k. lane_of k es) ks)) c = env_net (vectors es) c"
    using assms(11) by (intro lanes_net [OF assms(10)]) auto
  ultimately show ?thesis
    using env_net_lanes [of es c] by (simp add: Cells_Reconstruct Cells_baseline add.assoc)
qed

theorem pipeline_equals_baseline_witness:
  "\<exists>p0 p log. NewPipeline (\<lambda>_. 0) example_popts (Some []) = Some p0
     \<and> pipe_run (Some SimpleVSA) p0 [example_env 1 2 5, example_venv 1 2 4] p \<and> svc_sink (pipe_s p) = Some log
     \<and> Cells (Reconstruct (concat log) (fst (drainKeys [1] p)) NewState) (1, 2) = 9"
proof -
  let ?e = "example_env 1 2 5" and ?v = "example_venv 1 2 4" and ?vsa = "Some SimpleVSA"
  obtain p0 a' where p0: "NewPipeline (\<lambda>_. 0) example_popts (Some []) = Some p0"
    and a': "drain (\<lambda>_. 0) [?e] (svc_acc (pipe_s p0)) = Some a'"
    and q: "inq (pipe_s p0) = []" "\<not> svc_done (pipe_s p0)" "\<not> svc_stop (pipe_s p0)" "Buffer (svc_opts (pipe_s p0)) = 4096"
  proof -
    have "(case NewPipeline (\<lambda>_. 0) example_popts (Some []) of None \<Rightarrow> False
      | Some p0 \<Rightarrow> (case drain (\<lambda>_. 0) [?e] (svc_acc (pipe_s p0)) of None \<Rightarrow> False | Some a' \<Rightarrow>
          inq (pipe_s p0) = [] \<and> \<not> svc_done (pipe_s p0) \<and> \<not> svc_stop (pipe_s p0) \<and> Buffer (svc_opts (pipe_s p0)) = 4096))" by code_simp
    then show thesis using that by (auto split: option.splits)
  qed
  let ?p1 = "p0\<lparr>pipe_s := (pipe_s p0)\<lparr>inq := [?e]\<rparr>\<rparr>"
  have "Handle None ?e (p0, ()) = Some (?p1, ())"
    using q by (simp add: Handle_def TryIngest_def example_env_def)
  from pipe_run.pipe_handle [OF pipe_run.pipe_init this, of ?vsa] have r1: "pipe_run ?vsa p0 [?e] ?p1" by simp
  obtain p2 where p2: "Handle None ?v (?p1, ()) = Some (p2, ())" "pipe_s p2 = pipe_s ?p1"
    by (auto simp: Handle_def example_venv_def split_beta Let_def)
  from pipe_run.pipe_handle [OF r1 p2(1)] have r2: "pipe_run ?vsa p0 [?e, ?v] p2" by simp
  let ?s3 = "svc_Start (pipe_s p2)"
  let ?s4 = "?s3\<lparr>svc_stop := True\<rparr>"
  let ?s5 = "(svc_flush ?vsa (?s4\<lparr>inq := [], svc_acc := a'\<rparr>))\<lparr>svc_done := True\<rparr>"
  note r3 = pipe_run.pipe_service [OF r2 svc_step.call_start]
  have "svc_step ?vsa (pipe_s (p2\<lparr>pipe_s := ?s3\<rparr>)) [] ?s4" using svc_step.call_stop [of ?s3 ?s4 ?vsa] q p2(2) by (simp add: svc_Stop_def svc_Start_def)
  note r4 = pipe_run.pipe_service [OF r3 this]
  have "svc_step ?vsa ?s4 [] ?s5"
    by (rule svc_step.run_stop [where clk = "\<lambda>_. 0"]) (use a' q p2(2) in \<open>simp_all add: svc_Start_def\<close>)
  then have "svc_step ?vsa (pipe_s (p2\<lparr>pipe_s := ?s3, pipe_s := ?s4\<rparr>)) [] ?s5" by simp
  from pipe_run.pipe_service [OF r4 this] have run: "pipe_run ?vsa p0 [?e, ?v] (p2\<lparr>pipe_s := ?s5\<rparr>)" (is "pipe_run _ _ _ ?p") by simp
  have C: "alias_free {(1, 2)}" by code_simp
  have ok: "transformer_ok ?vsa" by (simp add: transformer_ok_def simple_vsa.sbatch_transformer_axioms)
  have order: "sint (opt_OrderPow2 example_popts) \<le> 62" by code_simp
  have "pipe_v p0 = NewVRouter" using p0 by (auto simp: NewPipeline_def split: option.splits)
  have "svc_sink (pipe_s p0) = Some []" using p0 by (auto simp: NewPipeline_def NewSService_def Let_def split: option.splits)
  then have "svc_sink (pipe_s ?p) \<noteq> None"
    using p2(2) svc_flush_sink [of "?s4\<lparr>inq := [], svc_acc := a'\<rparr>" ?vsa] by (simp add: svc_Start_def)
  then obtain log where log: "svc_sink (pipe_s ?p) = Some log" by blast
  have done_: "svc_done (pipe_s ?p)" "inq (pipe_s ?p) = []" by (simp_all add: svc_flush_def Let_def split: prod.split)
  have "Cells (Reconstruct (concat log) (fst (drainKeys [1] ?p)) NewState) (1, 2) = Cells (BaselineApply [?e, ?v] NewState) (1, 2)"
    by (rule pipeline_equals_baseline [OF p0 order ok run done_ log C])
      (simp_all add: example_env_def example_venv_def env_cell_def)
  also have "\<dots> = 9" by code_simp
  finally show ?thesis using p0 run log by (intro exI [of _ p0] exI [of _ ?p] exI [of _ log]) simp
qed

end
