(* ===== verification/TFD_Proxy.thy ===== *)
theory TFD_Proxy
  imports Sink_Props JSON_Text TFD_Pipeline "HOL-Library.Char_ord" "HOL-Library.List_Lexorder"
begin

text \<open>
  The HTTP proxy over the two lanes (cmd/tfd-proxy/main.go): its flags, its handlers and its state,
  which joins the pipeline with the two file logs. Handlers run one at a time; between them the
  service goroutine takes any steps. \<open>None\<close> is a handler that does not return: it blocks on a full
  buffer or on a service that is not running.
\<close>

section \<open>Flags\<close>

record proxy_flags =
  shards_flag :: i64
  orderPow2_flag :: i64
  countThresh_flag :: i64
  timeCap_flag :: i64
  flushEvery_flag :: i64
  sLog_flag :: string
  vLog_flag :: string
  addr_flag :: string

definition saneFlags :: "proxy_flags \<Rightarrow> proxy_flags" where
  "saneFlags f =
     \<lparr>shards_flag = (if shards_flag f \<le>s 0 then 4 else shards_flag f),
      orderPow2_flag = (if orderPow2_flag f \<le>s 0 then 10 else orderPow2_flag f),
      countThresh_flag = (if countThresh_flag f \<le>s 0 then 4096 else countThresh_flag f),
      timeCap_flag = (if timeCap_flag f \<le>s 0 then 3000000 else timeCap_flag f),
      flushEvery_flag = (if flushEvery_flag f \<le>s 0 then 2000000 else flushEvery_flag f),
      sLog_flag = (if sLog_flag f = '''' then ''s.log'' else sLog_flag f),
      vLog_flag = (if vLog_flag f = '''' then ''v.log'' else vLog_flag f),
      addr_flag = (if addr_flag f = '''' then '':9090'' else addr_flag f)\<rparr>"

section \<open>Start\<close>

record proxy =
  px_pipe :: Pipeline
  px_s :: SBatchFileSink
  px_v :: VEnvFileSink
  px_disk :: disk
  px_flags :: proxy_flags

definition proxy_options :: "proxy_flags \<Rightarrow> PipelineOptions" where
  "proxy_options f =
     \<lparr>opt_Shards = shards_flag f, opt_OrderPow2 = orderPow2_flag f, opt_CountThresh = countThresh_flag f,
      opt_TimeCap = timeCap_flag f, opt_FlushInterval = flushEvery_flag f, opt_Buffer = 8192\<rparr>"

text \<open>
  \<open>main\<close> up to the handlers, with the outcomes of opening the two logs; \<open>None\<close> is \<open>log.Fatalf\<close>.
\<close>

definition proxy_main :: "bool \<Rightarrow> bool \<Rightarrow> (nat \<Rightarrow> i64) \<Rightarrow> proxy_flags \<Rightarrow> disk \<Rightarrow> proxy option" where
  "proxy_main s_fails v_fails clk flags d =
     (let f = saneFlags flags
      in case NewSBatchFileSink s_fails (sLog_flag f) (clk 0) d of
           None \<Rightarrow> None
         | Some (fileSink, d1) \<Rightarrow>
             (case NewPipeline (clk \<circ> Suc) (proxy_options f) (Some []) of
                None \<Rightarrow> None
              | Some pipe \<Rightarrow>
                  (case NewVEnvFileSink v_fails (vLog_flag f) (clk 0) d1 of
                     None \<Rightarrow> None
                   | Some (vSink, d2) \<Rightarrow>
                       Some \<lparr>px_pipe = pipe_Start pipe, px_s = fileSink, px_v = vSink, px_disk = d2, px_flags = f\<rparr>)))"

text \<open>The calls of \<open>OnSBatches\<close> that a step of the service made go to the file sink.\<close>

definition sink_calls :: "SService \<Rightarrow> SService \<Rightarrow> SBatch list list" where
  "sink_calls s s' = drop (length (case svc_sink s of None \<Rightarrow> [] | Some l \<Rightarrow> l)) (case svc_sink s' of None \<Rightarrow> [] | Some l \<Rightarrow> l)"

definition serviced :: "faults \<Rightarrow> (nat \<Rightarrow> i64) \<Rightarrow> SService \<Rightarrow> proxy \<Rightarrow> proxy" where
  "serviced F clk s' px =
     (let (sk, d) = foldl (\<lambda>sd b. OnSBatches F clk b sd) (px_s px, px_disk px) (sink_calls (pipe_s (px_pipe px)) s')
      in px\<lparr>px_pipe := (px_pipe px)\<lparr>pipe_s := s'\<rparr>, px_s := sk, px_disk := d\<rparr>)"

section \<open>Bodies\<close>

text \<open>Maps are printed with sorted keys.\<close>

definition json_map :: "(string \<times> json) list \<Rightarrow> string" where
  "json_map ms = show_json (JObj (sort_key fst ms)) @ [CHR 0x0A]"

definition accepted :: "(string \<times> json) list \<Rightarrow> response" where
  "accepted ms = \<lparr>status = 202, headers = header_set ''Content-Type'' ''application/json'' [], body = json_map ms\<rparr>"

section \<open>Writing handlers\<close>

definition query_n :: "request \<Rightarrow> i64" where
  "query_n r =
     (let nStr = query_get (query r) ''n''
      in if nStr = '''' then 1 else case ParseInt nStr of None \<Rightarrow> 1 | Some v \<Rightarrow> v)"

definition plain_op :: Op where
  "plain_op =
     \<lparr>op_Key = '''', op_Bucket = '''', Amount = 0, IsBackdated = False, IsCrossKey = False, ChangesPolicy = False,
      NeedsExternalDecision = False, IsGlobal = False, IsSingleKey = False, IsConservativeDelta = False, op_SeqEnd = 0\<rparr>"

text \<open>
  What the three writing handlers share: classify, build the envelope, hand it to the pipeline with
  \<open>vSink.Append\<close> as the callback, and answer.
\<close>

definition submit :: "faults \<Rightarrow> (nat \<Rightarrow> i64) \<Rightarrow> Op \<Rightarrow> (Channel \<Rightarrow> Footprint \<Rightarrow> (string \<times> json) list) \<Rightarrow> proxy \<Rightarrow> (response \<times> proxy) option" where
  "submit F clk op reply px =
     (case Classify op of
        (_, _, _, Some ErrNoKey) \<Rightarrow> Some (http_Error ''op missing key'' 400, px)
      | (ch, fp, delta, None) \<Rightarrow>
          let env = \<lparr>env_Channel = ch, env_Footprint = fp, Delta = delta, env_SeqEnd = op_SeqEnd op, HashPrev = replicate 16 0\<rparr>
          in case Handle (Some (Append F clk)) env (px_pipe px, (px_v px, px_disk px)) of
               None \<Rightarrow> None
             | Some (p, (v, d)) \<Rightarrow>
                 Some (accepted (reply ch fp), px\<lparr>px_pipe := p, px_v := v, px_disk := d\<rparr>))"

definition consume_op :: "u64 \<Rightarrow> request \<Rightarrow> Op" where
  "consume_op seq r =
     plain_op\<lparr>op_Key := query_get (query r) ''key'', op_Bucket := query_get (query r) ''bucket'', Amount := query_n r,
       IsSingleKey := True, IsConservativeDelta := True, op_SeqEnd := seq\<rparr>"

definition handleConsume :: "faults \<Rightarrow> (nat \<Rightarrow> i64) \<Rightarrow> request \<Rightarrow> proxy \<Rightarrow> (response \<times> proxy) option" where
  "handleConsume F clk r px =
     (let seq = clk 0 in submit F (clk \<circ> Suc) (consume_op seq r)
        (\<lambda>ch fp. [(''accepted'', JBool True), (''channel'', jstr (if ch = ChannelScalar then ''S'' else ''V'')),
                  (''key_id'', ju64 (fp_KeyID fp)), (''bucket_id'', ju64 (time_BucketID (fp_Time fp))),
                  (''seq_end'', ju64 seq), (''s_log_path'', jstr (sLog_flag (px_flags px))),
                  (''v_log_path'', jstr (vLog_flag (px_flags px))),
                  (''hint'', jstr ''Use GET /state?key=YOUR_KEY after a few ms or tail s.log/v.log'')]) px)"

definition set_limit_op :: "u64 \<Rightarrow> request \<Rightarrow> Op" where
  "set_limit_op seq r =
     plain_op\<lparr>op_Key := query_get (query r) ''key'', ChangesPolicy := True, Amount := 0, IsSingleKey := True, op_SeqEnd := seq\<rparr>"

definition handleSetLimit :: "faults \<Rightarrow> (nat \<Rightarrow> i64) \<Rightarrow> request \<Rightarrow> proxy \<Rightarrow> (response \<times> proxy) option" where
  "handleSetLimit F clk r px =
     (let seq = clk 0 in submit F (clk \<circ> Suc) (set_limit_op seq r)
        (\<lambda>ch fp. [(''accepted'', JBool True), (''channel'', jstr ''V''), (''key_id'', ju64 (fp_KeyID fp)),
                  (''seq_end'', ju64 seq), (''v_log_path'', jstr (vLog_flag (px_flags px))),
                  (''hint'', jstr ''This is a Vector op; inspect v.log or GET /state'')]) px)"

definition reverse_op :: "u64 \<Rightarrow> request \<Rightarrow> Op" where
  "reverse_op seq r =
     plain_op\<lparr>op_Key := query_get (query r) ''key'', op_Bucket := query_get (query r) ''bucket'', Amount := - query_n r,
       IsSingleKey := True, IsConservativeDelta := False, NeedsExternalDecision := True, op_SeqEnd := seq\<rparr>"

definition handleReverse :: "faults \<Rightarrow> (nat \<Rightarrow> i64) \<Rightarrow> request \<Rightarrow> proxy \<Rightarrow> (response \<times> proxy) option" where
  "handleReverse F clk r px =
     (let seq = clk 0 in submit F (clk \<circ> Suc) (reverse_op seq r)
        (\<lambda>ch fp. [(''accepted'', JBool True), (''channel'', jstr ''V''), (''key_id'', ju64 (fp_KeyID fp)),
                  (''bucket_id'', ju64 (time_BucketID (fp_Time fp))), (''seq_end'', ju64 seq),
                  (''v_log_path'', jstr (vLog_flag (px_flags px))),
                  (''hint'', jstr ''Vector reversal logged; GET /state to observe effect'')]) px)"

section \<open>Reading handlers\<close>

text \<open>\<open>stamp\<close> is the current time as JSON.\<close>

definition handleHealthz :: "string \<Rightarrow> response" where
  "handleHealthz stamp =
     \<lparr>status = 200, headers = header_set ''Content-Type'' ''application/json'' [],
      body = json_map [(''ok'', JBool True), (''time'', JStr stamp)]\<rparr>"

text \<open>
  \<open>pipe.FlushS\<close> and the round of the service goroutine that serves it: the handler waits for it.
\<close>

definition flushS_served :: "faults \<Rightarrow> (nat \<Rightarrow> i64) \<Rightarrow> proxy \<Rightarrow> proxy option" where
  "flushS_served F clk px =
     (case FlushS (px_pipe px) of
        None \<Rightarrow> None
      | Some p \<Rightarrow>
          let s = pipe_s p
          in if \<not> svc_started s \<or> svc_done s then None
             else case drain clk (inq s) (svc_acc s) of
                    None \<Rightarrow> None
                  | Some a \<Rightarrow>
                      Some (serviced F clk (svc_flush (Some SimpleVSA) (s\<lparr>inq := [], svc_acc := a, flushReqs := flushReqs s - 1\<rparr>))
                        (px\<lparr>px_pipe := p\<rparr>)))"

definition flush_sinks :: "faults \<Rightarrow> (nat \<Rightarrow> i64) \<Rightarrow> proxy \<Rightarrow> proxy" where
  "flush_sinks F clk px =
     (let (_, s, d1) = sink_Flush F (clk 0) (px_s px, px_disk px); (_, v, d2) = sink_Flush F (clk 1) (px_v px, d1)
      in px\<lparr>px_s := s, px_v := v, px_disk := d2\<rparr>)"

definition read_message :: "string \<Rightarrow> read_error \<Rightarrow> string" where
  "read_message path e =
     (case e of ErrOpen \<Rightarrow> ''open '' @ path @ '': no such file or directory'' | ErrTooLong \<Rightarrow> ''bufio.Scanner: token too long'')"

definition read_state :: "proxy \<Rightarrow> string + TfdState" where
  "read_state px =
     (case ReadAllSLog (sLog_flag (px_flags px)) (px_disk px) of
        (_, Some e) \<Rightarrow> Inl (''read S log: '' @ read_message (sLog_flag (px_flags px)) e)
      | (sb, None) \<Rightarrow>
          (case ReadAllVLog (vLog_flag (px_flags px)) (px_disk px) of
             (_, Some e) \<Rightarrow> Inl (''read V log: '' @ read_message (vLog_flag (px_flags px)) e)
           | (ve, None) \<Rightarrow> Inr (Reconstruct sb ve NewState)))"

definition cell_sum :: "(cell \<Rightarrow> bool) \<Rightarrow> TfdState \<Rightarrow> i64" where
  "cell_sum P st = foldl (\<lambda>sum (kb, v). if P kb then sum + v else sum) 0 (state_cells st)"

definition ok_body :: "string \<Rightarrow> response" where
  "ok_body b = \<lparr>status = 200, headers = [], body = b\<rparr>"

text \<open>
  The dump of all cells encodes a map whose keys are arrays, which encoding/json refuses: the error is
  dropped and the body stays empty.
\<close>

definition state_reply :: "request \<Rightarrow> TfdState \<Rightarrow> response" where
  "state_reply r st =
     (let key = query_get (query r) ''key''; kid = HashKey key
      in if key = '''' then ok_body ''''
         else if query_get (query r) ''sum'' = ''1'' then
           let bucket = query_get (query r) ''bucket'';
               sum = (if bucket \<noteq> '''' then cell_sum (\<lambda>kb. kb = (kid, HashKey bucket)) st
                      else cell_sum (\<lambda>kb. fst kb = kid) st)
           in ok_body (json_map [(''sum'', ji64 sum)])
         else ok_body (json_map (map (\<lambda>((k, b), v). (nat_digits (unat k) @ '':'' @ nat_digits (unat b), ji64 v))
                (filter (\<lambda>(kb, v). fst kb = kid) (state_cells st)))))"

definition handleState :: "faults \<Rightarrow> (nat \<Rightarrow> i64) \<Rightarrow> request \<Rightarrow> proxy \<Rightarrow> (response \<times> proxy) option" where
  "handleState F clk r px =
     (case flushS_served F clk px of
        None \<Rightarrow> None
      | Some px1 \<Rightarrow>
          let px2 = flush_sinks F clk px1
          in case read_state px2 of
               Inl msg \<Rightarrow> Some (http_Error msg 500, px2)
             | Inr st \<Rightarrow> Some (state_reply r st, px2))"

section \<open>Exit\<close>

text \<open>
  The deferred calls of \<open>main\<close> after the signal, last one first: close the vector log, stop the pipeline
  (the service goroutine, which \<open>main\<close> has started, drains its queue and flushes; \<open>Stop\<close> waits for it),
  close the batch log.
\<close>

definition stop_served :: "faults \<Rightarrow> (nat \<Rightarrow> i64) \<Rightarrow> proxy \<Rightarrow> proxy option" where
  "stop_served F clk px =
     (case pipe_Stop (px_pipe px) of
        None \<Rightarrow> None
      | Some p \<Rightarrow>
          let s = pipe_s p
          in if \<not> svc_started s \<or> svc_done s then None
             else case drain clk (inq s) (svc_acc s) of
                    None \<Rightarrow> None
                  | Some a \<Rightarrow>
                      Some (serviced F clk ((svc_flush (Some SimpleVSA) (s\<lparr>inq := [], svc_acc := a\<rparr>))\<lparr>svc_done := True\<rparr>)
                        (px\<lparr>px_pipe := p\<rparr>)))"

definition proxy_exit :: "faults \<Rightarrow> (nat \<Rightarrow> i64) \<Rightarrow> proxy \<Rightarrow> proxy option" where
  "proxy_exit F clk px =
     (let (_, v, d1) = sink_Close F (px_v px, px_disk px)
      in case stop_served F clk (px\<lparr>px_v := v, px_disk := d1\<rparr>) of
           None \<Rightarrow> None
         | Some px2 \<Rightarrow> let (_, s, d2) = sink_Close F (px_s px2, px_disk px2) in Some (px2\<lparr>px_s := s, px_disk := d2\<rparr>))"

section \<open>Runs\<close>

text \<open>
  Requests and steps of the service, with the operations that were accepted into the lanes.
\<close>

inductive proxy_run :: "faults \<Rightarrow> proxy \<Rightarrow> Op list \<Rightarrow> proxy \<Rightarrow> bool" for F :: faults and px0 :: proxy where
  proxy_init: "proxy_run F px0 [] px0"
| proxy_consume: "proxy_run F px0 ops px \<Longrightarrow> handleConsume F clk r px = Some (rs, px') \<Longrightarrow>
    proxy_run F px0 (ops @ (if status rs = 202 then [consume_op (clk 0) r] else [])) px'"
| proxy_reverse: "proxy_run F px0 ops px \<Longrightarrow> handleReverse F clk r px = Some (rs, px') \<Longrightarrow>
    proxy_run F px0 (ops @ (if status rs = 202 then [reverse_op (clk 0) r] else [])) px'"
| proxy_set_limit: "proxy_run F px0 ops px \<Longrightarrow> handleSetLimit F clk r px = Some (rs, px') \<Longrightarrow>
    proxy_run F px0 (ops @ (if status rs = 202 then [set_limit_op (clk 0) r] else [])) px'"
| proxy_state: "proxy_run F px0 ops px \<Longrightarrow> handleState F clk r px = Some (rs, px') \<Longrightarrow> proxy_run F px0 ops px'"
| proxy_service: "proxy_run F px0 ops px \<Longrightarrow> svc_step (Some SimpleVSA) (pipe_s (px_pipe px)) [] s' \<Longrightarrow>
    proxy_run F px0 ops (serviced F clk s' px)"

end
