(* ===== verification/TFD_Sim.thy ===== *)
theory TFD_Sim
  imports Complex_Main TFD_Proxy
begin

text \<open>
  The traffic simulator (cmd/tfd-sim/main.go): its flags, the wrappers that count batches and flush
  intervals, the generator, the handler of \<open>/consume\<close>, the rounds of the service and the exit. A sender
  that finds the buffer full waits in \<open>Ingest\<close> while the others go on. Random numbers are arguments, in
  the ranges that math/rand promises; a Prometheus counter is the sum of its increments.
\<close>

section \<open>Flags\<close>

record sim_flags =
  sf_shards :: i64
  sf_orderPow2 :: i64
  sf_countThresh :: i64
  sf_timeCap :: i64
  sf_flushEvery :: i64
  sf_sLog :: string
  sf_vLog :: string
  sf_httpAddr :: string
  sf_sCoverage :: rat
  sf_keys :: i64
  sf_buckets :: i64
  sf_qps :: i64
  sf_burst :: i64
  sf_duration :: i64

definition saneSim :: "sim_flags \<Rightarrow> sim_flags" where
  "saneSim f =
     \<lparr>sf_shards = (if sf_shards f \<le>s 0 then 4 else sf_shards f),
      sf_orderPow2 = (if sf_orderPow2 f \<le>s 0 then 10 else sf_orderPow2 f),
      sf_countThresh = (if sf_countThresh f \<le>s 0 then 4096 else sf_countThresh f),
      sf_timeCap = (if sf_timeCap f \<le>s 0 then 3000000 else sf_timeCap f),
      sf_flushEvery = (if sf_flushEvery f \<le>s 0 then 2000000 else sf_flushEvery f),
      sf_sLog = (if sf_sLog f = '''' then ''s.log'' else sf_sLog f),
      sf_vLog = (if sf_vLog f = '''' then ''v.log'' else sf_vLog f),
      sf_httpAddr = (if sf_httpAddr f = '''' then '':8080'' else sf_httpAddr f),
      sf_sCoverage = (let c = (if sf_sCoverage f < 0 then 0 else sf_sCoverage f) in if 1 < c then 1 else c),
      sf_keys = (if sf_keys f \<le>s 0 then 1000 else sf_keys f),
      sf_buckets = (if sf_buckets f \<le>s 0 then 64 else sf_buckets f),
      sf_qps = (if sf_qps f \<le>s 0 then 20000 else sf_qps f),
      sf_burst = (if sf_burst f \<le>s 0 then 1000 else sf_burst f),
      sf_duration = (if sf_duration f <s 0 then 0 else sf_duration f)\<rparr>"

definition sim_max :: "i64 \<Rightarrow> i64 \<Rightarrow> i64" where
  "sim_max a b = (if b <s a then a else b)"

text \<open>The period of the generator; \<open>time.NewTicker\<close> panics when it is zero.\<close>

definition sim_interval :: "sim_flags \<Rightarrow> i64" where
  "sim_interval f = go_div 1000000000 (sim_max 1 (sf_qps f))"

section \<open>State\<close>

datatype sender = Generator | Request

text \<open>
  \<open>sm_waiting\<close> are the senders inside a blocking \<open>Ingest\<close>; \<open>sm_last\<close>, \<open>sm_hist\<close> are the fields of \<open>metricSink\<close>
  with the observed durations, \<open>sm_in\<close> and \<open>sm_out\<close> the counters of \<open>metricVSA\<close>.
\<close>

record sim =
  sm_svc :: SService
  sm_vr :: VRouter
  sm_s :: SBatchFileSink
  sm_last :: i64
  sm_hist :: "i64 list"
  sm_in :: nat
  sm_out :: nat
  sm_v :: VEnvFileSink
  sm_disk :: disk
  sm_flags :: sim_flags
  sm_totalOps :: nat
  sm_sOps :: nat
  sm_vOps :: nat
  sm_tryIngestFail :: nat
  sm_burstLeft :: i64
  sm_waiting :: "(sender \<times> Envelope) list"

text \<open>\<open>main\<close> up to the generator; \<open>None\<close> is \<open>log.Fatalf\<close> or a panic.\<close>

definition sim_main :: "bool \<Rightarrow> bool \<Rightarrow> (nat \<Rightarrow> i64) \<Rightarrow> sim_flags \<Rightarrow> disk \<Rightarrow> sim option" where
  "sim_main s_fails v_fails clk flags d =
     (let f = saneSim flags
      in case NewSAccumulator (clk \<circ> Suc) (sf_shards f) (sf_orderPow2 f) (sf_countThresh f) (sf_timeCap f) of
           None \<Rightarrow> None
         | Some acc \<Rightarrow>
             (case NewSBatchFileSink s_fails (sf_sLog f) (clk 0) d of
                None \<Rightarrow> None
              | Some (fileSink, d1) \<Rightarrow>
                  (case NewVEnvFileSink v_fails (sf_vLog f) (clk 0) d1 of
                     None \<Rightarrow> None
                   | Some (vSink, d2) \<Rightarrow>
                       if sim_interval f \<le>s 0 then None
                       else Some \<lparr>sm_svc = svc_Start (NewSService acc (Some []) \<lparr>Buffer = 8192, FlushInterval = sf_flushEvery f\<rparr>),
                                  sm_vr = NewVRouter, sm_s = fileSink, sm_last = 0, sm_hist = [], sm_in = 0, sm_out = 0, sm_v = vSink,
                                  sm_disk = d2, sm_flags = f, sm_totalOps = 0, sm_sOps = 0, sm_vOps = 0, sm_tryIngestFail = 0,
                                  sm_burstLeft = 0, sm_waiting = []\<rparr>)))"

section \<open>Wrappers\<close>

definition metricVSA_Compress :: "SBatch list \<Rightarrow> sim \<Rightarrow> SBatch list \<times> sim" where
  "metricVSA_Compress b sm =
     (let sm = sm\<lparr>sm_in := sm_in sm + length b\<rparr>; out = SimpleVSA b
      in (out, sm\<lparr>sm_out := sm_out sm + length out\<rparr>))"

text \<open>\<open>Time.IsZero\<close> of \<open>time.Unix(0, n)\<close>: January 1 of the year 1, in nanoseconds.\<close>

definition unix_IsZero :: "i64 \<Rightarrow> bool" where
  "unix_IsZero n \<longleftrightarrow> sint n = - 62135596800 * 10 ^ 9"

text \<open>\<open>t0\<close> and \<open>t1\<close> are the two readings of the clock; the calls of the sink are also kept in the service.\<close>

definition metricSink_OnSBatches :: "faults \<Rightarrow> i64 \<Rightarrow> i64 \<Rightarrow> (nat \<Rightarrow> i64) \<Rightarrow> SBatch list \<Rightarrow> sim \<Rightarrow> sim" where
  "metricSink_OnSBatches F t0 t1 clk b sm =
     (let prev = sm_last sm; sm = sm\<lparr>sm_last := t0\<rparr>;
          sm = (if \<not> unix_IsZero prev then sm\<lparr>sm_hist := sm_hist sm @ [time_Sub t1 prev]\<rparr> else sm);
          (sk, d) = OnSBatches F clk b (sm_s sm, sm_disk sm)
      in sm\<lparr>sm_s := sk, sm_disk := d, sm_svc := (sm_svc sm)\<lparr>svc_sink := map_option (\<lambda>l. l @ [b]) (svc_sink (sm_svc sm))\<rparr>\<rparr>)"

text \<open>\<open>flush\<close> of the service goroutine, with the two wrappers in place.\<close>

definition sim_flush :: "faults \<Rightarrow> i64 \<Rightarrow> i64 \<Rightarrow> (nat \<Rightarrow> i64) \<Rightarrow> sim \<Rightarrow> sim" where
  "sim_flush F t0 t1 clk sm =
     (let (b, a) = FlushAll (svc_acc (sm_svc sm)); sm = sm\<lparr>sm_svc := (sm_svc sm)\<lparr>svc_acc := a\<rparr>\<rparr>
      in if b = [] then sm
         else let (b, sm) = metricVSA_Compress b sm
              in if b \<noteq> [] then metricSink_OnSBatches F t0 t1 clk b sm else sm)"

section \<open>Sending\<close>

text \<open>What the handler and the generator do with a classified operation.\<close>

definition sim_envelope :: "Op \<Rightarrow> u64 \<Rightarrow> Envelope" where
  "sim_envelope op seq =
     (case Classify op of (ch, fp, delta, _) \<Rightarrow>
        \<lparr>env_Channel = ch, env_Footprint = fp, Delta = delta, env_SeqEnd = seq, HashPrev = replicate 16 0\<rparr>)"

definition dispatch :: "faults \<Rightarrow> (nat \<Rightarrow> i64) \<Rightarrow> sender \<Rightarrow> Envelope \<Rightarrow> sim \<Rightarrow> sim" where
  "dispatch F clk src env sm =
     (if env_Channel env = ChannelScalar then
        let (ok, s) = TryIngest env (sm_svc sm)
        in if ok then sm\<lparr>sm_svc := s, sm_sOps := sm_sOps sm + 1\<rparr>
           else sm\<lparr>sm_tryIngestFail := sm_tryIngestFail sm + 1, sm_waiting := sm_waiting sm @ [(src, env)]\<rparr>
      else
        let keyID = fp_KeyID (env_Footprint env); (act, r) = Route keyID (sm_vr sm);
            (v, d) = Append F clk env (sm_v sm, sm_disk sm)
        in sm\<lparr>sm_vr := r\<lparr>actors := al_update keyID (Enqueue env act) (actors r)\<rparr>, sm_v := v, sm_disk := d,
              sm_vOps := sm_vOps sm + 1\<rparr>)"

text \<open>A waiting sender goes on when its \<open>Ingest\<close> returns.\<close>

definition ingested :: "nat \<Rightarrow> sim \<Rightarrow> (Envelope \<times> sim) option" where
  "ingested i sm =
     (if i < length (sm_waiting sm) then
        let env = snd (sm_waiting sm ! i)
        in map_option (\<lambda>s. (env, sm\<lparr>sm_svc := s, sm_waiting := take i (sm_waiting sm) @ drop (Suc i) (sm_waiting sm),
                                  sm_sOps := sm_sOps sm + 1\<rparr>)) (svc_Ingest env (sm_svc sm))
      else None)"

text \<open>
  The handler of \<open>/consume\<close> with the response it gives, at once or when its \<open>Ingest\<close> returns; \<open>Some env\<close>
  is the envelope that it sends.
\<close>

definition sim_consume :: "faults \<Rightarrow> (nat \<Rightarrow> i64) \<Rightarrow> request \<Rightarrow> sim \<Rightarrow> response \<times> Envelope option \<times> sim" where
  "sim_consume F clk r sm =
     (let op = consume_op (clk 0) r
      in case Classify op of
           (_, _, _, Some ErrNoKey) \<Rightarrow> (http_Error ''op missing key'' 400, None, sm)
         | (_, _, _, None) \<Rightarrow>
             let env = sim_envelope op (clk 1)
             in (\<lparr>status = 202, headers = [], body = ''''\<rparr>, Some env, dispatch F (\<lambda>i. clk (i + 2)) Request env sm))"

section \<open>The generator\<close>

definition gen_op :: "sim_flags \<Rightarrow> i64 \<Rightarrow> i64 \<Rightarrow> rat \<Rightarrow> u64 \<Rightarrow> Op" where
  "gen_op f ki bi u seq =
     (let op = plain_op\<lparr>op_Key := ''user:'' @ sprintf_d ki, op_Bucket := ''t'' @ sprintf_d 1 @ ''s/'' @ sprintf_d bi, Amount := 1,
                op_SeqEnd := seq\<rparr>
      in if u < sf_sCoverage f then op\<lparr>IsSingleKey := True, IsConservativeDelta := True\<rparr> else op\<lparr>IsBackdated := True\<rparr>)"

definition gen_blocked :: "sim \<Rightarrow> bool" where
  "gen_blocked sm \<longleftrightarrow> Generator \<in> fst ` set (sm_waiting sm)"

text \<open>A tick adds a burst; the inner loop sends one operation per round while some are left.\<close>

definition gen_tick :: "sim \<Rightarrow> sim" where
  "gen_tick sm = sm\<lparr>sm_burstLeft := sm_burstLeft sm + sf_burst (sm_flags sm)\<rparr>"

definition gen_round :: "faults \<Rightarrow> (nat \<Rightarrow> i64) \<Rightarrow> i64 \<Rightarrow> i64 \<Rightarrow> rat \<Rightarrow> sim \<Rightarrow> Envelope option \<times> sim" where
  "gen_round F clk ki bi u sm =
     (let sm = sm\<lparr>sm_burstLeft := sm_burstLeft sm - 1, sm_totalOps := sm_totalOps sm + 1\<rparr>;
          op = gen_op (sm_flags sm) ki bi u (clk 0)
      in case Classify op of
           (_, _, _, Some e) \<Rightarrow> (None, sm)
         | (_, _, _, None) \<Rightarrow>
             let env = sim_envelope op (op_SeqEnd op) in (Some env, dispatch F (clk \<circ> Suc) Generator env sm))"

section \<open>Runs and exit\<close>

text \<open>
  A run with the number of generated operations, the number of accepted requests and the envelopes
  that entered a lane. \<open>entered\<close> tells whether a sent envelope went in at once.
\<close>

definition entered :: "Envelope option \<Rightarrow> sim \<Rightarrow> sim \<Rightarrow> Envelope list" where
  "entered e sm sm' = (if length (sm_waiting sm) < length (sm_waiting sm') then [] else case e of None \<Rightarrow> [] | Some env \<Rightarrow> [env])"

inductive sim_run :: "faults \<Rightarrow> sim \<Rightarrow> nat \<Rightarrow> nat \<Rightarrow> Envelope list \<Rightarrow> sim \<Rightarrow> bool" for F :: faults and sm0 :: sim where
  sim_init: "sim_run F sm0 0 0 [] sm0"
| sim_request: "sim_run F sm0 g q es sm \<Longrightarrow> sim_consume F clk r sm = (rs, e, sm') \<Longrightarrow>
    sim_run F sm0 g (if status rs = 202 then q + 1 else q) (es @ entered e sm sm') sm'"
| sim_tick: "sim_run F sm0 g q es sm \<Longrightarrow> sm_burstLeft sm \<le>s 0 \<Longrightarrow> \<not> gen_blocked sm \<Longrightarrow> sim_run F sm0 g q es (gen_tick sm)"
| sim_round: "sim_run F sm0 g q es sm \<Longrightarrow> 0 <s sm_burstLeft sm \<Longrightarrow> \<not> gen_blocked sm \<Longrightarrow>
    0 \<le>s ki \<Longrightarrow> ki <s sim_max 1 (sf_keys (sm_flags sm)) \<Longrightarrow> 0 \<le>s bi \<Longrightarrow> bi <s sim_max 1 (sf_buckets (sm_flags sm)) \<Longrightarrow>
    0 \<le> u \<Longrightarrow> u < 1 \<Longrightarrow> gen_round F clk ki bi u sm = (e, sm') \<Longrightarrow>
    sim_run F sm0 (g + 1) q (es @ entered e sm sm') sm'"
| sim_unblock: "sim_run F sm0 g q es sm \<Longrightarrow> ingested i sm = Some (env, sm') \<Longrightarrow> sim_run F sm0 g q (es @ [env]) sm'"
| sim_receive: "sim_run F sm0 g q es sm \<Longrightarrow> inq (sm_svc sm) = env # rest \<Longrightarrow> receive now env (svc_acc (sm_svc sm)) = Some a \<Longrightarrow>
    sim_run F sm0 g q es (sm\<lparr>sm_svc := (sm_svc sm)\<lparr>inq := rest, svc_acc := a\<rparr>\<rparr>)"
| sim_service_tick: "sim_run F sm0 g q es sm \<Longrightarrow> sim_run F sm0 g q es (sim_flush F t0 t1 clk sm)"

text \<open>
  The deferred calls: close the vector log, stop the service, which drains its queue and flushes, close
  the batch log.
\<close>

definition sim_exit :: "faults \<Rightarrow> i64 \<Rightarrow> i64 \<Rightarrow> (nat \<Rightarrow> i64) \<Rightarrow> sim \<Rightarrow> sim option" where
  "sim_exit F t0 t1 clk sm =
     (let (_, v, d1) = sink_Close F (sm_v sm, sm_disk sm); sm = sm\<lparr>sm_v := v, sm_disk := d1\<rparr>
      in case svc_Stop (sm_svc sm) of
           None \<Rightarrow> None
         | Some s \<Rightarrow>
             (case drain clk (inq s) (svc_acc s) of
                None \<Rightarrow> None
              | Some a \<Rightarrow>
                  let sm = sim_flush F t0 t1 clk (sm\<lparr>sm_svc := s\<lparr>inq := [], svc_acc := a\<rparr>\<rparr>);
                      sm = sm\<lparr>sm_svc := (sm_svc sm)\<lparr>svc_done := True\<rparr>\<rparr>;
                      (_, sk, d2) = sink_Close F (sm_s sm, sm_disk sm)
                  in Some (sm\<lparr>sm_s := sk, sm_disk := d2\<rparr>)))"

end
