(* ===== verification/TFD_Proxy_Props.thy ===== *)
theory TFD_Proxy_Props
  imports TFD_Proxy
begin

text \<open>
  The proxy end to end: what \<open>/state\<close> reports is what the accepted requests add up to, for every
  interleaving of requests and rounds of the service.
\<close>

section \<open>Writing one file leaves the others alone\<close>

abbreviation file_of :: "string \<Rightarrow> disk \<Rightarrow> string option" where
  "file_of path d \<equiv> map_of (files d) path"

lemma file_write_other: "q \<noteq> fpath h \<Longrightarrow> file_of q (snd (snd (file_write F h p d))) = file_of q d"
  by (simp add: file_write_def split: option.split)

lemma flush_other: "q \<noteq> fpath h \<Longrightarrow> file_of q (snd (snd (bufw_flush F h (w, d)))) = file_of q d"
  using file_write_other [of q h F "wbuf w" d] by (simp add: bufw_flush_def split_beta Let_def)

lemma write_other: "q \<noteq> fpath h \<Longrightarrow> file_of q (snd (snd (bufw_write F h p w d))) = file_of q d"
proof (induction F h p w d rule: bufw_write.induct)
  case (1 F h p w d)
  show ?case
  proof (cases "available w < int (length p) \<and> \<not> werr w")
    case False
    then show ?thesis by (subst bufw_write.simps) auto
  next
    case full: True
    show ?thesis
    proof (cases "wbuf w = []")
      case True
      obtain n o' d' where fw: "file_write F h p d = (n, o', d')" by (metis prod_cases3)
      from "1.IH"(1) [OF full True fw [symmetric] refl refl "1.prems"] full True fw file_write_other [OF "1.prems", of F p d]
      show ?thesis by (subst bufw_write.simps) simp
    next
      case False
      let ?n = "nat (available w)"
      obtain o' w' d' where fl: "bufw_flush F h (w\<lparr>wbuf := wbuf w @ take ?n p\<rparr>, d) = (o', w', d')" by (metis prod_cases3)
      from "1.IH"(2) [OF full False refl fl [symmetric] refl refl "1.prems"] full False fl
        flush_other [OF "1.prems", of F "w\<lparr>wbuf := wbuf w @ take ?n p\<rparr>" d]
      show ?thesis by (subst bufw_write.simps) simp
    qed
  qed
qed

lemma encode_other: "q \<noteq> fpath h \<Longrightarrow> file_of q (snd (snd (snd (encode F h line (eerr, w, d))))) = file_of q d"
  using write_other [of q h F "line @ [CHR 0x0A]" w d] by (simp add: encode_def split_beta Let_def)

lemma encodeSBatches_other:
  "q \<noteq> fpath h \<Longrightarrow> file_of q (snd (snd (encodeSBatches F h b (eerr, w, d)))) = file_of q d"
proof (induction b arbitrary: eerr w d)
  case (Cons sb b)
  obtain ok eerr1 w1 d1 where e: "encode F h (enc_sbatch sb) (eerr, w, d) = (ok, eerr1, w1, d1)" by (metis prod_cases4)
  then have d1: "file_of q d1 = file_of q d" using encode_other [OF Cons.prems, of F "enc_sbatch sb" eerr w d] by simp
  obtain o2 w2 d2 where f: "bufw_flush F h (w1, d1) = (o2, w2, d2)" by (metis prod_cases3)
  then have d2: "file_of q d2 = file_of q d1" using flush_other [OF Cons.prems, of F w1 d1] by simp
  obtain o3 e3 w3 d3 where e3: "encode F h (enc_sbatch sb) (eerr1, w2, d2) = (o3, e3, w3, d3)" by (metis prod_cases4)
  then have "file_of q d3 = file_of q d2" using encode_other [OF Cons.prems, of F "enc_sbatch sb" eerr1 w2 d2] by simp
  then show ?case using Cons e d1 d2 f e3 by (cases ok) simp_all
qed simp

lemma flush_if_due_other: "q \<noteq> fpath (sk_f s) \<Longrightarrow> file_of q (snd (flush_if_due F clk (s, d))) = file_of q d"
  using flush_other [of q "sk_f s" F "sk_w s" d] by (simp add: flush_if_due_def split_beta Let_def)

lemma sink_flush_other: "q \<noteq> fpath (sk_f s) \<Longrightarrow> file_of q (snd (snd (sink_Flush F t (s, d)))) = file_of q d"
  using flush_other [of q "sk_f s" F "sk_w s" d] by (simp add: sink_Flush_def split_beta Let_def)

lemma OnSBatches_other: "q \<noteq> fpath (sk_f s) \<Longrightarrow> file_of q (snd (OnSBatches F clk b (s, d))) = file_of q d"
  using encodeSBatches_other [of q "sk_f s" F b False "sk_w s" d] flush_if_due_other [of q "s\<lparr>sk_w := w\<rparr>" F clk for w]
  by (simp add: OnSBatches_def split_beta Let_def)

lemma Append_other: "q \<noteq> fpath (sk_f s) \<Longrightarrow> file_of q (snd (Append F clk env (s, d))) = file_of q d"
  using encode_other [of q "sk_f s" F "enc_envelope env" False "sk_w s" d] flush_if_due_other [of q "s\<lparr>sk_w := w\<rparr>" F clk for w]
  by (simp add: Append_def split_beta Let_def)

lemma sink_tracks_frame:
  "sink_tracks init stream path (s, d) \<Longrightarrow> file_of path d' = file_of path d \<Longrightarrow> sink_tracks init stream path (s, d')"
  by (simp add: sink_tracks_def tracks_def)

section \<open>The two logs of a proxy\<close>

definition s_log :: "string \<Rightarrow> SBatch list \<Rightarrow> proxy \<Rightarrow> bool" where
  "s_log path bs px \<longleftrightarrow> sink_tracks [] (lines_of enc_sbatch bs) path (px_s px, px_disk px) \<and> healthy (px_s px)"

definition v_log :: "string \<Rightarrow> Envelope list \<Rightarrow> proxy \<Rightarrow> bool" where
  "v_log path es px \<longleftrightarrow> sink_tracks [] (lines_of enc_envelope es) path (px_v px, px_disk px) \<and> healthy (px_v px)"

lemma batches_logged:
  assumes "faultless F"
  shows "sink_tracks [] (lines_of enc_sbatch bs) path (s, d) \<Longrightarrow> healthy s \<Longrightarrow>
    (case foldl (\<lambda>sd b. OnSBatches F clk b sd) (s, d) calls of (s', d') \<Rightarrow>
       sink_tracks [] (lines_of enc_sbatch (bs @ concat calls)) path (s', d') \<and> healthy s'
       \<and> (\<forall>q. q \<noteq> path \<longrightarrow> file_of q d' = file_of q d))"
proof (induction calls arbitrary: s d bs)
  case (Cons b calls)
  obtain s1 d1 where s1: "OnSBatches F clk b (s, d) = (s1, d1)" by (cases "OnSBatches F clk b (s, d)")
  have "sink_tracks [] (lines_of enc_sbatch (bs @ b)) path (s1, d1)" "healthy s1"
    using sink_tracks_batches [OF Cons.prems(1), of b F clk] healthy_batches [OF assms Cons.prems(2), of clk b d] s1 by simp_all
  moreover have "file_of q d1 = file_of q d" if "q \<noteq> path" for q
    using OnSBatches_other [of q s F clk b d] Cons.prems(1) s1 that by (simp add: sink_tracks_def)
  ultimately show ?case using Cons.IH [of "bs @ b" s1 d1] s1 by (simp split: prod.splits)
qed simp

lemma serviced_logs:
  assumes "faultless F" and "s_log sl bs px" and "v_log vl es px" and "sl \<noteq> vl"
  shows "s_log sl (bs @ concat (sink_calls (pipe_s (px_pipe px)) s')) (serviced F clk s' px)"
    and "v_log vl es (serviced F clk s' px)" and "px_flags (serviced F clk s' px) = px_flags px"
    and "px_pipe (serviced F clk s' px) = (px_pipe px)\<lparr>pipe_s := s'\<rparr>"
  using batches_logged [OF assms(1), where bs = bs and path = sl and s = "px_s px" and d = "px_disk px" and clk = clk
      and calls = "sink_calls (pipe_s (px_pipe px)) s'"] assms(2-4)
  by (auto simp: s_log_def v_log_def serviced_def split: prod.splits intro: sink_tracks_frame)

lemma append_logged:
  assumes "faultless F" and "s_log sl bs px" and "v_log vl es px" and "sl \<noteq> vl"
    and "Append F clk env (px_v px, px_disk px) = (v, d)"
  shows "s_log sl bs (px\<lparr>px_v := v, px_disk := d, px_pipe := p\<rparr>)"
    and "v_log vl (es @ [env]) (px\<lparr>px_v := v, px_disk := d, px_pipe := p\<rparr>)"
proof -
  have "vl = fpath (sk_f (px_v px))" using assms(3) by (simp add: v_log_def sink_tracks_def)
  then show "s_log sl bs (px\<lparr>px_v := v, px_disk := d, px_pipe := p\<rparr>)"
    using assms(2,4,5) Append_other [of sl "px_v px" F clk env "px_disk px"]
    by (auto simp: s_log_def intro: sink_tracks_frame)
  show "v_log vl (es @ [env]) (px\<lparr>px_v := v, px_disk := d, px_pipe := p\<rparr>)"
    using assms(3,5) sink_tracks_append [of "[]" "lines_of enc_envelope es" vl "(px_v px, px_disk px)" env F clk]
      healthy_append [OF assms(1), of "px_v px" clk env "px_disk px"] by (simp add: v_log_def)
qed

lemma flush_sinks_logs:
  assumes "faultless F" and "s_log sl bs px" and "v_log vl es px" and "sl \<noteq> vl"
  shows "s_log sl bs (flush_sinks F clk px)" and "v_log vl es (flush_sinks F clk px)"
    and "file_of sl (px_disk (flush_sinks F clk px)) = Some (lines_of enc_sbatch bs)"
    and "file_of vl (px_disk (flush_sinks F clk px)) = Some (lines_of enc_envelope es)"
    and "px_flags (flush_sinks F clk px) = px_flags px" and "px_pipe (flush_sinks F clk px) = px_pipe px"
proof -
  obtain ok s d1 where f1: "sink_Flush F (clk 0) (px_s px, px_disk px) = (ok, s, d1)" by (metis prod_cases3)
  obtain ok2 v d2 where f2: "sink_Flush F (clk 1) (px_v px, d1) = (ok2, v, d2)" by (metis prod_cases3)
  have eq: "flush_sinks F clk px = px\<lparr>px_s := s, px_v := v, px_disk := d2\<rparr>" using f1 f2 by (simp add: flush_sinks_def)
  have t: "sink_tracks [] (lines_of enc_sbatch bs) sl (px_s px, px_disk px)" "healthy (px_s px)"
    "sink_tracks [] (lines_of enc_envelope es) vl (px_v px, px_disk px)" "healthy (px_v px)"
    using assms(2,3) by (simp_all add: s_log_def v_log_def)
  have paths: "sl = fpath (sk_f (px_s px))" "vl = fpath (sk_f (px_v px))" using t by (simp_all add: sink_tracks_def)
  have d1v: "file_of vl d1 = file_of vl (px_disk px)"
    using sink_flush_other [of vl "px_s px" F "clk 0" "px_disk px"] f1 assms(4) paths by simp
  have d2s: "file_of sl d2 = file_of sl d1" using sink_flush_other [of sl "px_v px" F "clk 1" d1] f2 assms(4) paths by simp
  have v1: "sink_tracks [] (lines_of enc_envelope es) vl (px_v px, d1)" by (rule sink_tracks_frame [OF t(3) d1v])
  have "sink_tracks [] (lines_of enc_sbatch bs) sl (s, d1)" using sink_tracks_flush(1) [OF t(1), of F "clk 0"] f1 by simp
  then show "s_log sl bs (flush_sinks F clk px)"
    using healthy_flush(2) [OF assms(1) t(2), of "clk 0" "px_disk px"] f1 d2s
    by (simp add: s_log_def eq sink_tracks_frame)
  show "v_log vl es (flush_sinks F clk px)"
    using sink_tracks_flush(1) [OF v1, of F "clk 1"] healthy_flush(2) [OF assms(1) t(4), of "clk 1" d1] f2
    by (simp add: v_log_def eq)
  show "file_of sl (px_disk (flush_sinks F clk px)) = Some (lines_of enc_sbatch bs)"
    using flushed_content [OF assms(1) t(2,1), of "clk 0"] f1 d2s by (simp add: eq)
  show "file_of vl (px_disk (flush_sinks F clk px)) = Some (lines_of enc_envelope es)"
    using flushed_content [OF assms(1) t(4) v1, of "clk 1"] f2 by (simp add: eq)
qed (simp_all add: flush_sinks_def split: prod.splits)

section \<open>Steps of the service append to the sink\<close>

lemma svc_flush_log:
  "svc_sink s = Some l \<Longrightarrow> \<exists>calls. svc_sink (svc_flush vsa s) = Some (l @ calls)"
  by (auto simp: svc_flush_def Let_def split: prod.splits)

lemma svc_step_log:
  assumes "svc_step vsa s es s'" and "svc_sink s = Some l"
  shows "\<exists>calls. svc_sink s' = Some (l @ calls)"
  using assms
proof (induction rule: svc_step.induct)
  case (run_flush_request s clk a)
  then show ?case
    using svc_flush_log [of "s\<lparr>inq := [], svc_acc := a, flushReqs := flushReqs s - 1\<rparr>" l vsa] by simp
next
  case (run_stop s clk a)
  then show ?case using svc_flush_log [of "s\<lparr>inq := [], svc_acc := a\<rparr>" l vsa] by simp
next
  case (run_tick s)
  then show ?case using svc_flush_log by blast
qed (auto simp: svc_Start_def svc_Stop_def svc_Flush_def svc_Ingest_def TryIngest_def split: if_splits)

lemma sink_calls_eq:
  "svc_sink s = Some l \<Longrightarrow> svc_sink s' = Some (l @ calls) \<Longrightarrow> sink_calls s s' = calls"
  by (simp add: sink_calls_def)

section \<open>The invariant\<close>

definition op_envelope :: "Op \<Rightarrow> Envelope" where
  "op_envelope op =
     (case Classify op of (ch, fp, delta, _) \<Rightarrow>
        \<lparr>env_Channel = ch, env_Footprint = fp, Delta = delta, env_SeqEnd = op_SeqEnd op, HashPrev = replicate 16 0\<rparr>)"

definition proxy_inv :: "SService \<Rightarrow> proxy_flags \<Rightarrow> Envelope list \<Rightarrow> proxy \<Rightarrow> bool" where
  "proxy_inv s0 f es px \<longleftrightarrow>
     px_flags px = f \<and> (\<forall>e \<in> set es. length (HashPrev e) = 16) \<and> v_log (vLog_flag f) (vectors es) px
     \<and> svc_run (Some SimpleVSA) s0 (scalars es) (pipe_s (px_pipe px))
     \<and> (\<exists>log. svc_sink (pipe_s (px_pipe px)) = Some log \<and> s_log (sLog_flag f) (concat log) px)"

lemma Handle_persist:
  assumes "Handle (Some g) env (p, l) = Some (p', l')"
  shows "Handle None env (p, ()) = Some (p', ())" and "l' = (if env_Channel env = ChannelScalar then l else g env l)"
  using assms by (auto simp: Handle_def Let_def split: if_splits prod.splits)

lemma proxy_inv_service:
  assumes "faultless F" and "sLog_flag f \<noteq> vLog_flag f" and "proxy_inv s0 f es px"
    and "svc_step (Some SimpleVSA) (pipe_s (px_pipe px)) [] s'"
  shows "proxy_inv s0 f es (serviced F clk s' px)"
proof -
  obtain log where log: "svc_sink (pipe_s (px_pipe px)) = Some log" "s_log (sLog_flag f) (concat log) px"
    and v: "v_log (vLog_flag f) (vectors es) px"
    and run: "svc_run (Some SimpleVSA) s0 (scalars es) (pipe_s (px_pipe px))" "px_flags px = f"
    using assms(3) by (auto simp: proxy_inv_def)
  obtain calls where calls: "svc_sink s' = Some (log @ calls)" using svc_step_log [OF assms(4) log(1)] by blast
  note l = serviced_logs [OF assms(1) log(2) v assms(2), where s' = s' and clk = clk]
  have "svc_run (Some SimpleVSA) s0 (scalars es @ []) s'" by (rule svc_run.run_more [OF run(1) assms(4)])
  then show ?thesis
    using l calls sink_calls_eq [OF log(1) calls] run(2) assms(3) by (simp add: proxy_inv_def)
qed

text \<open>An envelope enters the Scalar lane through a call of the service, the Vector lane through the log.\<close>

lemma proxy_inv_scalar:
  assumes "proxy_inv s0 f es px" and "env_Channel e = ChannelScalar" and "length (HashPrev e) = 16"
    and "svc_step (Some SimpleVSA) (pipe_s (px_pipe px)) [e] s'" and "svc_sink s' = svc_sink (pipe_s (px_pipe px))"
  shows "proxy_inv s0 f (es @ [e]) (px\<lparr>px_pipe := (px_pipe px)\<lparr>pipe_s := s'\<rparr>\<rparr>)"
proof -
  have "svc_run (Some SimpleVSA) s0 (scalars es) (pipe_s (px_pipe px))" using assms(1) by (simp add: proxy_inv_def)
  from svc_run.run_more [OF this assms(4)] assms(1,2,3,5) show ?thesis
    by (auto simp: proxy_inv_def s_log_def v_log_def)
qed

lemma proxy_inv_vector:
  assumes "faultless F" and "sLog_flag f \<noteq> vLog_flag f" and "proxy_inv s0 f es px" and "env_Channel e = ChannelVector"
    and "length (HashPrev e) = 16" and "Append F clk e (px_v px, px_disk px) = (v, d)" and "pipe_s p = pipe_s (px_pipe px)"
  shows "proxy_inv s0 f (es @ [e]) (px\<lparr>px_v := v, px_disk := d, px_pipe := p\<rparr>)"
proof -
  obtain log where log: "svc_sink (pipe_s (px_pipe px)) = Some log" "s_log (sLog_flag f) (concat log) px"
    and vl: "v_log (vLog_flag f) (vectors es) px"
    and run: "svc_run (Some SimpleVSA) s0 (scalars es) (pipe_s (px_pipe px))"
    using assms(3) by (auto simp: proxy_inv_def)
  from append_logged [OF assms(1) log(2) vl assms(2,6), of p] log(1) run assms(3-5,7) show ?thesis
    by (auto simp: proxy_inv_def)
qed

lemma op_envelope_hash [simp]: "length (HashPrev (op_envelope op)) = 16"
  by (simp add: op_envelope_def split: prod.split)

lemma proxy_inv_submit:
  assumes "faultless F" and "sLog_flag f \<noteq> vLog_flag f" and "proxy_inv s0 f es px"
    and "submit F clk op reply px = Some (rs, px')"
  shows "proxy_inv s0 f (es @ (if status rs = 202 then [op_envelope op] else [])) px'"
proof (cases "snd (snd (snd (Classify op)))")
  case (Some e)
  then show ?thesis
    using assms(3,4) by (cases e) (auto simp: submit_def http_Error_def split: prod.splits)
next
  case None
  obtain ch fp delta where c: "Classify op = (ch, fp, delta, None)" using None by (metis prod_cases4 snd_conv)
  let ?env = "op_envelope op"
  obtain p v d where h: "Handle (Some (Append F clk)) ?env (px_pipe px, (px_v px, px_disk px)) = Some (p, (v, d))"
    and rs: "rs = accepted (reply ch fp)" "px' = px\<lparr>px_pipe := p, px_v := v, px_disk := d\<rparr>"
    using assms(4) c by (auto simp: submit_def op_envelope_def Let_def split: option.splits)
  have st: "status rs = 202" using rs(1) by (simp add: accepted_def)
  note hn = Handle_persist [OF h]
  show ?thesis
  proof (cases "env_Channel ?env")
    case ChannelScalar
    note s = Handle_scalar(1) [OF ChannelScalar hn(1), of "Some SimpleVSA"]
    have "svc_sink (pipe_s p) = svc_sink (pipe_s (px_pipe px))" "p = (px_pipe px)\<lparr>pipe_s := pipe_s p\<rparr>"
      using hn(1) ChannelScalar by (auto simp: Handle_def TryIngest_def svc_Ingest_def Let_def split: if_splits)
    with proxy_inv_scalar [OF assms(3) ChannelScalar _ s] rs(2) hn(2) ChannelScalar st show ?thesis by simp
  next
    case ChannelVector
    have "pipe_s p = pipe_s (px_pipe px)" by (rule Handle_vector(1) [OF ChannelVector hn(1)])
    moreover have "Append F clk ?env (px_v px, px_disk px) = (v, d)" using hn(2) ChannelVector by simp
    moreover have "px' = px\<lparr>px_v := v, px_disk := d, px_pipe := p\<rparr>" using rs(2) by simp
    ultimately show ?thesis using proxy_inv_vector [OF assms(1-3) ChannelVector] st by simp
  qed
qed

lemma FlushS_steps:
  assumes "FlushS p = Some p'"
  shows "svc_step vsa (pipe_s p) [] (pipe_s p')" and "pipe_s p' = (pipe_s p)\<lparr>flushReqs := flushReqs (pipe_s p) + 1\<rparr>"
    and "p' = p\<lparr>pipe_s := pipe_s p'\<rparr>"
  using assms by (auto simp: FlushS_def svc_Flush_def intro: svc_step.call_flush split: if_splits)

lemma flushS_served_steps:
  assumes "flushS_served F clk px = Some px'"
  obtains p a where "FlushS (px_pipe px) = Some p" and "drain clk (inq (pipe_s p)) (svc_acc (pipe_s p)) = Some a"
    and "px' = serviced F clk (svc_flush (Some SimpleVSA) ((pipe_s p)\<lparr>inq := [], svc_acc := a, flushReqs := flushReqs (pipe_s p) - 1\<rparr>))
      (px\<lparr>px_pipe := p\<rparr>)"
    and "svc_step (Some SimpleVSA) (pipe_s p) []
      (svc_flush (Some SimpleVSA) ((pipe_s p)\<lparr>inq := [], svc_acc := a, flushReqs := flushReqs (pipe_s p) - 1\<rparr>))"
proof -
  obtain p a where p: "FlushS (px_pipe px) = Some p" "svc_started (pipe_s p)" "\<not> svc_done (pipe_s p)"
    "drain clk (inq (pipe_s p)) (svc_acc (pipe_s p)) = Some a"
    and px': "px' = serviced F clk (svc_flush (Some SimpleVSA) ((pipe_s p)\<lparr>inq := [], svc_acc := a, flushReqs := flushReqs (pipe_s p) - 1\<rparr>))
      (px\<lparr>px_pipe := p\<rparr>)"
    using assms by (auto simp: flushS_served_def Let_def split: option.splits if_splits)
  have "0 < flushReqs (pipe_s p)" using FlushS_steps(2) [OF p(1)] by simp
  from svc_step.run_flush_request [OF p(2,3,4) this] px' p show thesis by (intro that [of p a]) simp_all
qed

lemma proxy_inv_flushS:
  assumes "faultless F" and "sLog_flag f \<noteq> vLog_flag f" and "proxy_inv s0 f es px" and "flushS_served F clk px = Some px'"
  shows "proxy_inv s0 f es px'"
proof -
  from assms(4) obtain p a where p: "FlushS (px_pipe px) = Some p"
    and px': "px' = serviced F clk (svc_flush (Some SimpleVSA) ((pipe_s p)\<lparr>inq := [], svc_acc := a, flushReqs := flushReqs (pipe_s p) - 1\<rparr>))
      (px\<lparr>px_pipe := p\<rparr>)"
    and st: "svc_step (Some SimpleVSA) (pipe_s p) []
      (svc_flush (Some SimpleVSA) ((pipe_s p)\<lparr>inq := [], svc_acc := a, flushReqs := flushReqs (pipe_s p) - 1\<rparr>))"
    by (rule flushS_served_steps)
  note fs = FlushS_steps [OF p]
  have "svc_run (Some SimpleVSA) s0 (scalars es @ []) (pipe_s p)"
    using assms(3) by (intro svc_run.run_more [OF _ fs(1)]) (simp add: proxy_inv_def)
  moreover have "svc_sink (pipe_s p) = svc_sink (pipe_s (px_pipe px))" by (simp add: fs(2))
  ultimately have "proxy_inv s0 f es (px\<lparr>px_pipe := p\<rparr>)"
    using assms(3) by (auto simp: proxy_inv_def s_log_def v_log_def)
  from proxy_inv_service [OF assms(1,2) this] st px' show ?thesis by simp
qed

lemma proxy_inv_run:
  assumes "proxy_run F px0 ops px" and "faultless F" and "sLog_flag f \<noteq> vLog_flag f" and "proxy_inv s0 f [] px0"
  shows "proxy_inv s0 f (map op_envelope ops) px"
  using assms(1)
proof (induction rule: proxy_run.induct)
  case (proxy_state ops px clk r rs px')
  then obtain px1 where px1: "flushS_served F clk px = Some px1" "px' = flush_sinks F clk px1"
    by (auto simp: handleState_def Let_def split: option.splits sum.splits)
  have inv: "proxy_inv s0 f (map op_envelope ops) px1" by (rule proxy_inv_flushS [OF assms(2,3) proxy_state.IH px1(1)])
  then obtain log where "svc_sink (pipe_s (px_pipe px1)) = Some log" "s_log (sLog_flag f) (concat log) px1"
    "v_log (vLog_flag f) (vectors (map op_envelope ops)) px1" by (auto simp: proxy_inv_def)
  with flush_sinks_logs [OF assms(2) this(2,3) assms(3), of clk] inv px1(2) show ?case by (auto simp: proxy_inv_def)
next
  case (proxy_service ops px s' clk)
  show ?case by (rule proxy_inv_service [OF assms(2,3) proxy_service.IH proxy_service(2)])
qed (auto simp: assms(4) handleConsume_def handleReverse_def handleSetLimit_def Let_def
    dest: proxy_inv_submit [OF assms(2,3)])

lemma accepted_keyed:
  assumes "submit F clk op reply px = Some (rs, px')" and "status rs = 202"
  shows "op_Key op \<noteq> ''''"
  using assms by (auto simp: submit_def Classify_def http_Error_def split: prod.splits option.splits)

lemma run_keyed: "proxy_run F px0 ops px \<Longrightarrow> op \<in> set ops \<Longrightarrow> op_Key op \<noteq> ''''"
  by (induction rule: proxy_run.induct)
    (auto simp: handleConsume_def handleReverse_def handleSetLimit_def Let_def dest: accepted_keyed split: if_splits)

lemma op_envelope_keyed:
  assumes "op_Key op \<noteq> ''''"
  shows "Delta (op_envelope op) = Amount op"
    and "env_cell (op_envelope op) = (HashKey (op_Key op), if op_Bucket op = '''' then 0 else HashKey (op_Bucket op))"
  using assms by (auto simp: op_envelope_def Classify_def env_cell_def Let_def)

section \<open>A new proxy\<close>

lemma NewPipeline_lane:
  assumes "NewPipeline clk opts (Some []) = Some p" and "sint (opt_OrderPow2 opts) \<le> 62" and "alias_free C"
  shows "lane_ok C (pipe_s p)" and "lane_total (pipe_s p) c = 0"
proof -
  obtain a where a: "NewSAccumulator clk (opt_Shards opts) (opt_OrderPow2 opts) (opt_CountThresh opts) (opt_TimeCap opts) = Some a"
    and p: "pipe_s p = NewSService a (Some []) \<lparr>Buffer = opt_Buffer opts, FlushInterval = opt_FlushInterval opts\<rparr>"
    using assms(1) by (auto simp: NewPipeline_def split: option.splits)
  from NewSAccumulator_ok [OF assms(2) a assms(3)] show "lane_ok C (pipe_s p)" "lane_total (pipe_s p) c = 0"
    by (simp_all add: p NewSService_def Let_def lane_ok_def lane_total_def delivered_def)
qed

lemma proxy_main_parts:
  assumes "proxy_main False False clk flags d = Some px0" and "f = saneFlags flags"
    and "sLog_flag f \<noteq> vLog_flag f" and "content d (sLog_flag f) = []" and "content d (vLog_flag f) = []"
  obtains p where "NewPipeline (clk \<circ> Suc) (proxy_options f) (Some []) = Some p" and "px_pipe px0 = pipe_Start p"
    and "px_flags px0 = f" and "s_log (sLog_flag f) [] px0" and "v_log (vLog_flag f) [] px0"
proof -
  obtain s d1 p v d2 where parts: "NewSBatchFileSink False (sLog_flag f) (clk 0) d = Some (s, d1)"
    "NewPipeline (clk \<circ> Suc) (proxy_options f) (Some []) = Some p"
    "NewVEnvFileSink False (vLog_flag f) (clk 0) d1 = Some (v, d2)"
    and px0: "px0 = \<lparr>px_pipe = pipe_Start p, px_s = s, px_v = v, px_disk = d2, px_flags = f\<rparr>"
    using assms(1,2) by (auto simp: proxy_main_def Let_def split: option.splits)
  have open_: "open_sink False (sLog_flag f) (clk 0) d = Some (s, d1)" "open_sink False (vLog_flag f) (clk 0) d1 = Some (v, d2)"
    using parts by (simp_all add: NewSBatchFileSink_def NewVEnvFileSink_def)
  have frame: "file_of (sLog_flag f) d2 = file_of (sLog_flag f) d1" "content d1 (vLog_flag f) = content d (vLog_flag f)"
    using open_ assms(3) by (auto simp: open_sink_def content_def)
  have "s_log (sLog_flag f) [] px0"
    using open_tracks [OF open_(1)] assms(4) open_(1) frame(1) px0
    by (auto simp: s_log_def healthy_def open_sink_def intro: sink_tracks_frame)
  moreover have "v_log (vLog_flag f) [] px0"
    using open_tracks [OF open_(2)] assms(5) open_(2) frame(2) px0 by (auto simp: v_log_def healthy_def open_sink_def)
  ultimately show thesis using that parts(2) px0 by simp
qed

lemma proxy_inv_init:
  assumes "NewPipeline clk opts (Some []) = Some p" and "px_pipe px0 = pipe_Start p" and "px_flags px0 = f"
    and "s_log (sLog_flag f) [] px0" and "v_log (vLog_flag f) [] px0"
  shows "proxy_inv (pipe_s p) f [] px0"
proof -
  have sink: "svc_sink (pipe_s p) = Some []"
    using assms(1) by (auto simp: NewPipeline_def NewSService_def Let_def split: option.splits)
  have step: "svc_step (Some SimpleVSA) (pipe_s p) [] (pipe_s (px_pipe px0))" using assms(2) pipe_calls(1) by simp
  have "svc_run (Some SimpleVSA) (pipe_s p) [] (pipe_s (px_pipe px0))"
    using svc_run.run_more [OF svc_run.run_none step] by simp
  with assms(2-5) sink show ?thesis by (auto simp: proxy_inv_def pipe_Start_def svc_Start_def)
qed

section \<open>Sums over cells\<close>

lemma cell_sum_list: "cell_sum P st = (\<Sum>(c, v)\<leftarrow>state_cells st. if P c then v else 0)"
proof -
  have "foldl (\<lambda>sum (kb, v). if P kb then sum + v else sum) a xs = a + (\<Sum>(c, v)\<leftarrow>xs. if P c then v else 0)" for a and xs :: "(cell \<times> i64) list"
    by (induction xs arbitrary: a) (auto simp: add.assoc)
  then show ?thesis by (simp add: cell_sum_def)
qed

lemma sum_delta_word: "(\<Sum>c\<in>UNIV. if P c then (if x = c then (v :: i64) else 0) else 0) = (if P (x :: cell) then v else 0)"
proof -
  have "(\<Sum>c\<in>UNIV. if P c then (if x = c then v else 0) else 0) = (\<Sum>c\<in>UNIV. if x = c then (if P x then v else 0) else 0)"
    by (intro sum.cong) auto
  then show ?thesis by simp
qed

lemma cell_sum_cells:
  assumes "distinct (map fst (state_cells st))"
  shows "cell_sum P st = (\<Sum>c\<in>UNIV. if P c then Cells st c else 0)"
proof -
  have "(\<Sum>(c, v)\<leftarrow>xs. if P c then v else 0) = (\<Sum>c\<in>UNIV. if P c then (case map_of xs c of None \<Rightarrow> 0 | Some v \<Rightarrow> v) else 0)"
    if "distinct (map fst xs)" for xs :: "(cell \<times> i64) list"
    using that
  proof (induction xs)
    case (Cons cv xs)
    obtain c v where cv: "cv = (c, v)" by fastforce
    let ?val = "\<lambda>c'. case map_of xs c' of None \<Rightarrow> 0 | Some v \<Rightarrow> v"
    have "map_of xs c = None" using Cons.prems cv by (simp add: map_of_eq_None_iff)
    then have "(case map_of (cv # xs) c' of None \<Rightarrow> 0 | Some v \<Rightarrow> v) = (if c = c' then v else 0) + ?val c'" for c'
      using cv by auto
    then have "(\<Sum>c'\<in>UNIV. if P c' then (case map_of (cv # xs) c' of None \<Rightarrow> 0 | Some v \<Rightarrow> v) else 0)
        = (\<Sum>c'\<in>UNIV. (if P c' then (if c = c' then v else 0) else 0) + (if P c' then ?val c' else 0))"
      by (intro sum.cong) auto
    also have "\<dots> = (if P c then v else 0) + (\<Sum>c'\<in>UNIV. if P c' then ?val c' else 0)"
      by (simp only: sum.distrib sum_delta_word)
    finally show ?case using Cons cv by simp
  qed (simp cong: if_cong)
  from this [OF assms] show ?thesis by (simp add: cell_sum_list Cells_def cong: if_cong)
qed

lemma env_net_sum: "(\<Sum>c\<in>UNIV. if P c then env_net es c else 0) = (\<Sum>e\<leftarrow>es. if P (env_cell e) then Delta e else 0)"
proof (induction es)
  case (Cons e es)
  have "(\<Sum>c\<in>UNIV. if P c then env_net (e # es) c else 0)
    = (\<Sum>c\<in>UNIV. (if P c then (if env_cell e = c then Delta e else 0) else 0) + (if P c then env_net es c else 0))"
    by (intro sum.cong) auto
  then show ?case using Cons by (simp only: sum.distrib sum_delta_word) simp
qed (simp cong: if_cong)

lemma distinct_Reconstruct:
  "distinct (map fst (state_cells s)) \<Longrightarrow> distinct (map fst (state_cells (Reconstruct bs es s)))"
proof -
  have S: "distinct (map fst (state_cells s)) \<Longrightarrow> distinct (map fst (state_cells (foldl applyS s bs)))" for bs s
    by (induction bs arbitrary: s) (simp_all add: applyS_def distinct_al_update Let_def)
  have V: "distinct (map fst (state_cells s)) \<Longrightarrow> distinct (map fst (state_cells (foldl applyV s es)))" for es s
    by (induction es arbitrary: s) (simp_all add: applyV_def distinct_al_update Let_def)
  show ?thesis if "distinct (map fst (state_cells s))" using S V that by (simp add: Reconstruct_def)
qed

lemma Cells_NewState: "Cells NewState c = 0"
  by (simp add: Cells_def NewState_def)

lemma cell_sum_reconstruct:
  assumes "\<And>c. batch_net bs c + env_net ves c = env_net es c"
  shows "cell_sum P (Reconstruct bs ves NewState) = (\<Sum>e\<leftarrow>es. if P (env_cell e) then Delta e else 0)"
proof -
  have "distinct (map fst (state_cells (Reconstruct bs ves NewState)))" by (rule distinct_Reconstruct) (simp add: NewState_def)
  from cell_sum_cells [OF this, of P] assms show ?thesis
    by (simp add: Cells_Reconstruct Cells_NewState env_net_sum [symmetric] cong: if_cong)
qed

section \<open>What the logs hold after a flush\<close>

lemma logs_read:
  assumes "file_of (sLog_flag (px_flags px)) (px_disk px) = Some (lines_of enc_sbatch bs)"
    and "file_of (vLog_flag (px_flags px)) (px_disk px) = Some (lines_of enc_envelope (vectors es))"
    and "\<forall>e \<in> set es. length (HashPrev e) = 16"
  shows "read_state px = Inr (Reconstruct bs (vectors es) NewState)"
proof -
  have "\<forall>e \<in> set (vectors es). length (HashPrev e) = 16" using assms(3) by auto
  then show ?thesis
    using assms(1,2) sbatch_log.read_log_of [of bs] envelope_log.read_log_of [of "vectors es"]
    by (simp add: read_state_def ReadAllSLog_def ReadAllVLog_def read_log_def)
qed

lemma flushed_empty:
  assumes "flushS_served F clk px = Some px1" and "lane_ok C (pipe_s (px_pipe px))"
  shows "inq (pipe_s (px_pipe px1)) = []" and "acc_net (svc_acc (pipe_s (px_pipe px1))) c = 0"
proof -
  from assms(1) obtain p a where p: "FlushS (px_pipe px) = Some p" and a: "drain clk (inq (pipe_s p)) (svc_acc (pipe_s p)) = Some a"
    and px1: "px1 = serviced F clk (svc_flush (Some SimpleVSA) ((pipe_s p)\<lparr>inq := [], svc_acc := a, flushReqs := flushReqs (pipe_s p) - 1\<rparr>))
      (px\<lparr>px_pipe := p\<rparr>)" (is "_ = serviced F clk (svc_flush ?vsa ?s) ?px")
    by (rule flushS_served_steps)
  have ok: "lane_ok C (pipe_s p)" using assms(2) FlushS_steps(2) [OF p] by (simp add: lane_ok_def)
  then have "wf_acc C a" using a by (intro drain_adds(1) [of C "svc_acc (pipe_s p)" "inq (pipe_s p)" clk a]) (simp_all add: lane_ok_def)
  with ok have "lane_ok C ?s" by (simp add: lane_ok_def)
  moreover have "transformer_ok ?vsa" by (simp add: transformer_ok_def simple_vsa.sbatch_transformer_axioms)
  ultimately show "inq (pipe_s (px_pipe px1)) = []" "acc_net (svc_acc (pipe_s (px_pipe px1))) c = 0"
    using svc_flush_total(3,4) [of C ?s ?vsa] by (simp_all add: px1 serviced_def split: prod.splits)
qed

lemma flushed_state:
  assumes "faultless F" and "sLog_flag f \<noteq> vLog_flag f" and "proxy_inv s0 f es px" and "flushS_served F clk px = Some px1"
    and "lane_ok C s0" and "\<And>c. lane_total s0 c = 0"
    and "\<forall>e \<in> set es. env_Channel e = ChannelScalar \<longrightarrow> env_cell e \<in> C"
  obtains bs where "read_state (flush_sinks F clk px1) = Inr (Reconstruct bs (vectors es) NewState)"
    and "\<And>c. batch_net bs c + env_net (vectors es) c = env_net es c"
proof -
  have run0: "svc_run (Some SimpleVSA) s0 (scalars es) (pipe_s (px_pipe px))" using assms(3) by (simp add: proxy_inv_def)
  note inv = proxy_inv_flushS [OF assms(1-4)]
  then obtain log where log: "svc_sink (pipe_s (px_pipe px1)) = Some log" "s_log (sLog_flag f) (concat log) px1"
    and v: "v_log (vLog_flag f) (vectors es) px1" and fl: "px_flags px1 = f"
    and run: "svc_run (Some SimpleVSA) s0 (scalars es) (pipe_s (px_pipe px1))"
    by (auto simp: proxy_inv_def)
  have ok: "transformer_ok (Some SimpleVSA)" by (simp add: transformer_ok_def simple_vsa.sbatch_transformer_axioms)
  have in_C: "\<forall>e \<in> set (scalars es). env_cell e \<in> C" using assms(7) by auto
  have total: "lane_ok C (pipe_s (px_pipe px1))" "\<And>c. lane_total (pipe_s (px_pipe px1)) c = env_net (scalars es) c"
    using svc_run_total [OF run ok assms(5) in_C] assms(6) by simp_all
  have "inq (pipe_s (px_pipe px1)) = []" "\<And>c. acc_net (svc_acc (pipe_s (px_pipe px1))) c = 0"
    using flushed_empty [OF assms(4) conjunct1 [OF svc_run_total [OF run0 ok assms(5) in_C]]] by simp_all
  with total(2) log(1) have "batch_net (concat log) c = env_net (scalars es) c" for c
    by (simp add: lane_total_def delivered_def)
  then have net: "batch_net (concat log) c + env_net (vectors es) c = env_net es c" for c using env_net_lanes [of es c] by simp
  note fs = flush_sinks_logs [OF assms(1) log(2) v assms(2), of clk]
  have "read_state (flush_sinks F clk px1) = Inr (Reconstruct (concat log) (vectors es) NewState)"
    using fs(3-5) fl assms(3) by (intro logs_read) (simp_all add: proxy_inv_def)
  then show thesis using that net by blast
qed

section \<open>What the logs hold after the exit\<close>

lemma closed_content:
  assumes "faultless F" and "healthy s" and "sink_tracks init stream path (s, d)"
  shows "file_of path (snd (snd (sink_Close F (s, d)))) = Some (init @ stream)"
proof -
  have "snd (snd (sink_Close F (s, d))) = snd (snd (sink_Flush F 0 (s, d)))"
    by (simp add: sink_Close_def sink_Flush_def split: prod.splits)
  then show ?thesis using flushed_content [OF assms, of 0] by simp
qed

lemma close_other: "q \<noteq> fpath (sk_f s) \<Longrightarrow> file_of q (snd (snd (sink_Close F (s, d)))) = file_of q d"
  using flush_other [of q "sk_f s" F "sk_w s" d] by (simp add: sink_Close_def split_beta Let_def)

lemma stop_served_steps:
  assumes "stop_served F clk px = Some px1" and "lane_ok C (pipe_s (px_pipe px))"
  obtains p s' where "px1 = serviced F clk s' (px\<lparr>px_pipe := p\<rparr>)" and "svc_sink (pipe_s p) = svc_sink (pipe_s (px_pipe px))"
    and "svc_step (Some SimpleVSA) (pipe_s (px_pipe px)) [] (pipe_s p)" and "svc_step (Some SimpleVSA) (pipe_s p) [] s'"
    and "inq s' = []" and "\<And>c. acc_net (svc_acc s') c = 0"
proof -
  let ?vsa = "Some SimpleVSA"
  obtain p a where p: "pipe_Stop (px_pipe px) = Some p" "svc_started (pipe_s p)" "\<not> svc_done (pipe_s p)"
    "drain clk (inq (pipe_s p)) (svc_acc (pipe_s p)) = Some a"
    and px1: "px1 = serviced F clk ((svc_flush ?vsa ((pipe_s p)\<lparr>inq := [], svc_acc := a\<rparr>))\<lparr>svc_done := True\<rparr>) (px\<lparr>px_pipe := p\<rparr>)"
    using assms(1) by (auto simp: stop_served_def Let_def split: option.splits if_splits)
  have eq: "pipe_s p = (pipe_s (px_pipe px))\<lparr>svc_stop := True\<rparr>" using p(1) by (auto simp: pipe_Stop_def svc_Stop_def split: if_splits)
  have ok: "lane_ok C (pipe_s p)" using assms(2) by (simp add: eq lane_ok_def)
  then have "wf_acc C a" using p(4) by (intro drain_adds(1) [of C "svc_acc (pipe_s p)" "inq (pipe_s p)" clk a]) (simp_all add: lane_ok_def)
  with ok have okf: "lane_ok C ((pipe_s p)\<lparr>inq := [], svc_acc := a\<rparr>)" by (simp add: lane_ok_def)
  have vsa: "transformer_ok ?vsa" by (simp add: transformer_ok_def simple_vsa.sbatch_transformer_axioms)
  have st: "svc_step ?vsa (pipe_s (px_pipe px)) [] (pipe_s p)" using pipe_calls(3) [OF p(1)] by simp
  have rn: "svc_step ?vsa (pipe_s p) [] ((svc_flush ?vsa ((pipe_s p)\<lparr>inq := [], svc_acc := a\<rparr>))\<lparr>svc_done := True\<rparr>)"
    by (rule svc_step.run_stop [OF p(2,3) _ p(4)]) (simp add: eq)
  show thesis
    by (rule that [OF px1 _ st rn]) (use svc_flush_total(3,4) [OF okf vsa] in \<open>simp_all add: eq\<close>)
qed

text \<open>Stopping the service delivers to the sink what the accepted scalar envelopes add up to.\<close>

lemma stop_served_log:
  assumes "svc_run (Some SimpleVSA) s0 ss (pipe_s (px_pipe px))" and "svc_sink (pipe_s (px_pipe px)) = Some calls0"
    and "lane_ok C s0" and "\<And>c. lane_total s0 c = 0" and "\<forall>e \<in> set ss. env_cell e \<in> C"
    and "stop_served F clk px = Some px2"
  obtains p s' calls where "px2 = serviced F clk s' (px\<lparr>px_pipe := p\<rparr>)" and "svc_sink (pipe_s p) = Some calls0"
    and "svc_sink s' = Some (calls0 @ calls)" and "\<And>c. batch_net (concat (calls0 @ calls)) c = env_net ss c"
proof -
  have ok: "transformer_ok (Some SimpleVSA)" by (simp add: transformer_ok_def simple_vsa.sbatch_transformer_axioms)
  have "lane_ok C (pipe_s (px_pipe px))" using svc_run_total [OF assms(1) ok assms(3,5)] by simp
  from assms(6) this obtain p s' where st: "px2 = serviced F clk s' (px\<lparr>px_pipe := p\<rparr>)"
    "svc_sink (pipe_s p) = svc_sink (pipe_s (px_pipe px))" "svc_step (Some SimpleVSA) (pipe_s (px_pipe px)) [] (pipe_s p)"
    "svc_step (Some SimpleVSA) (pipe_s p) [] s'" "inq s' = []" "\<And>c. acc_net (svc_acc s') c = 0"
    by (rule stop_served_steps) (rule that)
  have sink: "svc_sink (pipe_s p) = Some calls0" using st(2) assms(2) by simp
  obtain calls where calls: "svc_sink s' = Some (calls0 @ calls)" using svc_step_log [OF st(4) sink] by blast
  have run': "svc_run (Some SimpleVSA) s0 ss s'"
    using svc_run.run_more [OF svc_run.run_more [OF assms(1) st(3)] st(4)] by simp
  have "batch_net (concat (calls0 @ calls)) c = env_net ss c" for c
    using svc_run_total [OF run' ok assms(3,5), of c] st(5) st(6) [of c] assms(4) [of c] calls
    by (simp add: lane_total_def delivered_def)
  then show thesis using that st(1) sink calls by blast
qed

lemma exited_state:
  assumes "faultless F" and "sLog_flag f \<noteq> vLog_flag f" and "proxy_inv s0 f es px" and "proxy_exit F clk px = Some px'"
    and "lane_ok C s0" and "\<And>c. lane_total s0 c = 0"
    and "\<forall>e \<in> set es. env_Channel e = ChannelScalar \<longrightarrow> env_cell e \<in> C"
  obtains bs where "read_state px' = Inr (Reconstruct bs (vectors es) NewState)"
    and "\<And>c. batch_net bs c + env_net (vectors es) c = env_net es c"
proof -
  obtain log where log: "svc_sink (pipe_s (px_pipe px)) = Some log" "s_log (sLog_flag f) (concat log) px"
    and v: "v_log (vLog_flag f) (vectors es) px" and fl: "px_flags px = f"
    and run: "svc_run (Some SimpleVSA) s0 (scalars es) (pipe_s (px_pipe px))"
    using assms(3) by (auto simp: proxy_inv_def)
  have in_C: "\<forall>e \<in> set (scalars es). env_cell e \<in> C" using assms(7) by auto
  obtain ok1 v1 d1 where c1: "sink_Close F (px_v px, px_disk px) = (ok1, v1, d1)" by (metis prod_cases3)
  obtain px2 where px2: "stop_served F clk (px\<lparr>px_v := v1, px_disk := d1\<rparr>) = Some px2"
    using assms(4) c1 by (auto simp: proxy_exit_def split: option.splits prod.splits)
  obtain ok2 s2 d2 where c2: "sink_Close F (px_s px2, px_disk px2) = (ok2, s2, d2)" by (metis prod_cases3)
  have px': "px' = px2\<lparr>px_s := s2, px_disk := d2\<rparr>" using assms(4) c1 c2 px2 by (simp add: proxy_exit_def)
  have run1: "svc_run (Some SimpleVSA) s0 (scalars es) (pipe_s (px_pipe (px\<lparr>px_v := v1, px_disk := d1\<rparr>)))"
    "svc_sink (pipe_s (px_pipe (px\<lparr>px_v := v1, px_disk := d1\<rparr>))) = Some log" using run log(1) by simp_all
  obtain p s' calls where st: "px2 = serviced F clk s' (px\<lparr>px_v := v1, px_disk := d1\<rparr>\<lparr>px_pipe := p\<rparr>)"
    "svc_sink (pipe_s p) = Some log" and calls: "svc_sink s' = Some (log @ calls)"
    and "\<And>c. batch_net (concat (log @ calls)) c = env_net (scalars es) c"
    by (rule stop_served_log [OF run1 assms(5,6) in_C px2]) (rule that)
  then have net: "batch_net (concat (log @ calls)) c + env_net (vectors es) c = env_net es c" for c
    using env_net_lanes [of es c] by simp
  have paths: "sLog_flag f = fpath (sk_f (px_s px))" "vLog_flag f = fpath (sk_f (px_v px))"
    using log(2) v by (simp_all add: s_log_def v_log_def sink_tracks_def)
  have f1: "file_of (vLog_flag f) d1 = Some (lines_of enc_envelope (vectors es))" "file_of (sLog_flag f) d1 = file_of (sLog_flag f) (px_disk px)"
    using closed_content [OF assms(1), of "px_v px"] close_other [of "sLog_flag f" "px_v px" F "px_disk px"] v c1 assms(2) paths
    by (fastforce simp: v_log_def)+
  have "sink_tracks [] (lines_of enc_sbatch (concat log)) (sLog_flag f) (px_s px, d1)" "healthy (px_s px)"
    using log(2) f1(2) by (auto simp: s_log_def intro: sink_tracks_frame)
  from batches_logged [OF assms(1) this, where clk = clk and calls = calls] st(1) sink_calls_eq [OF st(2) calls]
  have t2: "sink_tracks [] (lines_of enc_sbatch (concat (log @ calls))) (sLog_flag f) (px_s px2, px_disk px2)" "healthy (px_s px2)"
    "file_of (vLog_flag f) (px_disk px2) = file_of (vLog_flag f) d1" "px_flags px2 = f"
    using assms(2) fl by (auto simp: serviced_def split: prod.splits)
  then have "sLog_flag f = fpath (sk_f (px_s px2))" by (simp add: sink_tracks_def)
  then have "file_of (sLog_flag f) d2 = Some (lines_of enc_sbatch (concat (log @ calls)))"
    "file_of (vLog_flag f) d2 = Some (lines_of enc_envelope (vectors es))"
    using closed_content [OF assms(1) t2(2,1)] close_other [of "vLog_flag f" "px_s px2" F "px_disk px2"] c2 t2(3) f1(1) assms(2)
    by simp_all
  then have "read_state px' = Inr (Reconstruct (concat (log @ calls)) (vectors es) NewState)"
    using assms(3) by (intro logs_read) (simp_all add: px' t2(4) proxy_inv_def)
  then show thesis using that net by blast
qed

section \<open>Properties\<close>

text \<open>The accepted operations that a query with \<open>sum=1\<close> counts.\<close>

definition counted :: "request \<Rightarrow> Op \<Rightarrow> bool" where
  "counted r op \<longleftrightarrow>
     HashKey (op_Key op) = HashKey (query_get (query r) ''key'')
     \<and> (query_get (query r) ''bucket'' = ''''
        \<or> (if op_Bucket op = '''' then 0 else HashKey (op_Bucket op)) = HashKey (query_get (query r) ''bucket''))"

text \<open>
  C30. The proxy answers exactly. Start the proxy on empty logs and a disk without faults, and let any
  requests reach it in any order, interleaved with any rounds of the service. If \<open>/state\<close> returns,
  then for a key with \<open>sum=1\<close> it reports the sum of the amounts of all accepted operations of that key
  (and bucket, when one is given), modulo \<open>2^64\<close> and up to collisions of the 64-bit hash: what waits in
  the queue, in the accumulator or in the file buffers is counted once, and so is what went through the
  log files and back. The logs must be two files, and the scalar cells free of aliases.
\<close>

theorem proxy_state_exact:
  assumes "proxy_main False False clk0 flags d = Some px0" and "f = saneFlags flags" and "sLog_flag f \<noteq> vLog_flag f"
    and "content d (sLog_flag f) = []" and "content d (vLog_flag f) = []" and "sint (orderPow2_flag f) \<le> 62"
    and "faultless F" and "proxy_run F px0 ops px" and "alias_free C"
    and "\<forall>op \<in> set ops. env_Channel (op_envelope op) = ChannelScalar \<longrightarrow> env_cell (op_envelope op) \<in> C"
    and "handleState F clk r px = Some (rs, px')" and "query_get (query r) ''key'' \<noteq> ''''" and "query_get (query r) ''sum'' = ''1''"
  shows "rs = ok_body (json_map [(''sum'', ji64 (\<Sum>op\<leftarrow>ops. if counted r op then Amount op else 0))])"
proof -
  obtain p where p: "NewPipeline (clk0 \<circ> Suc) (proxy_options f) (Some []) = Some p" "px_pipe px0 = pipe_Start p" "px_flags px0 = f"
    "s_log (sLog_flag f) [] px0" "v_log (vLog_flag f) [] px0"
    by (rule proxy_main_parts [OF assms(1-5)])
  have lane: "lane_ok C (pipe_s p)" "\<And>c. lane_total (pipe_s p) c = 0"
    using NewPipeline_lane [OF p(1) _ assms(9)] assms(6) by (simp_all add: proxy_options_def)
  note inv = proxy_inv_run [OF assms(8,7,3) proxy_inv_init [OF p]]
  obtain px1 where px1: "flushS_served F clk px = Some px1" using assms(11) by (auto simp: handleState_def split: option.splits)
  obtain bs where bs: "read_state (flush_sinks F clk px1) = Inr (Reconstruct bs (vectors (map op_envelope ops)) NewState)"
    "\<And>c. batch_net bs c + env_net (vectors (map op_envelope ops)) c = env_net (map op_envelope ops) c"
    using flushed_state [OF assms(7,3) inv px1 lane] assms(10) by auto
  let ?P = "\<lambda>c. fst c = HashKey (query_get (query r) ''key'')
    \<and> (query_get (query r) ''bucket'' = '''' \<or> snd c = HashKey (query_get (query r) ''bucket''))"
  have "?P (env_cell (op_envelope op)) = counted r op \<and> Delta (op_envelope op) = Amount op" if "op \<in> set ops" for op
    using op_envelope_keyed [OF run_keyed [OF assms(8) that]] by (simp add: counted_def)
  then have "cell_sum ?P (Reconstruct bs (vectors (map op_envelope ops)) NewState) = (\<Sum>op\<leftarrow>ops. if counted r op then Amount op else 0)"
    unfolding cell_sum_reconstruct [OF bs(2)] by (auto simp: o_def intro!: arg_cong [of _ _ sum_list] map_cong)
  moreover have "rs = state_reply r (Reconstruct bs (vectors (map op_envelope ops)) NewState)"
    using assms(11) px1 bs(1) by (simp add: handleState_def Let_def)
  moreover have "(\<lambda>kb. kb = (k, b)) = (\<lambda>c. fst c = k \<and> snd c = b)" for k b :: u64 by auto
  ultimately show ?thesis using assms(12,13) by (auto simp: state_reply_def Let_def)
qed

definition example_flags :: proxy_flags where
  "example_flags =
     \<lparr>shards_flag = 1, orderPow2_flag = 2, countThresh_flag = 9, timeCap_flag = 9, flushEvery_flag = 0,
      sLog_flag = ''s.log'', vLog_flag = ''v.log'', addr_flag = ''''\<rparr>"

definition example_consume :: request where
  "example_consume = \<lparr>query = [(''key'', ''a''), (''n'', ''5'')]\<rparr>"

definition example_reverse :: request where
  "example_reverse = \<lparr>query = [(''key'', ''a''), (''n'', ''2'')]\<rparr>"

definition example_query :: request where
  "example_query = \<lparr>query = [(''key'', ''a''), (''sum'', ''1'')]\<rparr>"

lemma proxy_main_returns:
  "proxy_main False False clk flags d \<noteq> None \<longleftrightarrow> NewPipeline (clk \<circ> Suc) (proxy_options (saneFlags flags)) (Some []) \<noteq> None"
  by (auto simp: proxy_main_def NewSBatchFileSink_def NewVEnvFileSink_def open_sink_def Let_def split: option.split)

lemma handleState_returns:
  assumes "flushReqs (pipe_s (px_pipe px)) < 1" and "svc_started (pipe_s (px_pipe px))" and "\<not> svc_done (pipe_s (px_pipe px))"
    and "drain clk (inq (pipe_s (px_pipe px))) (svc_acc (pipe_s (px_pipe px))) = Some a"
  shows "\<exists>rs px'. handleState F clk r px = Some (rs, px')"
  using assms by (auto simp: handleState_def flushS_served_def FlushS_def svc_Flush_def Let_def split: sum.splits)

lemma handleConsume_queues:
  assumes "env_Channel (op_envelope (consume_op (clk 0) r)) = ChannelScalar" and "op_Key (consume_op (clk 0) r) \<noteq> ''''"
    and "TryIngest (op_envelope (consume_op (clk 0) r)) (pipe_s (px_pipe px)) = (True, s)"
  shows "\<exists>rs px'. handleConsume F clk r px = Some (rs, px') \<and> status rs = 202 \<and> pipe_s (px_pipe px') = s"
proof -
  obtain ch fp delta where "Classify (consume_op (clk 0) r) = (ch, fp, delta, None)"
    using assms(2) by (cases "Classify (consume_op (clk 0) r)") (auto simp: Classify_def Let_def split: prod.splits if_splits)
  with assms show ?thesis
    by (auto simp: handleConsume_def submit_def op_envelope_def Handle_def accepted_def Let_def)
qed

lemma handleReverse_returns:
  assumes "op_Key (reverse_op (clk 0) r) \<noteq> ''''"
  shows "\<exists>rs px'. handleReverse F clk r px = Some (rs, px') \<and> status rs = 202 \<and> pipe_s (px_pipe px') = pipe_s (px_pipe px)"
  using assms
  by (auto simp: handleReverse_def submit_def Handle_def accepted_def Classify_def reverse_op_def plain_op_def Let_def split: prod.splits)

lemma example_sane:
  "sLog_flag (saneFlags example_flags) = ''s.log''" "vLog_flag (saneFlags example_flags) = ''v.log''"
  "sint (orderPow2_flag (saneFlags example_flags)) \<le> 62"
  by code_simp+

lemma example_lanes:
  "alias_free {env_cell (op_envelope (consume_op 0 example_consume))}"
  "env_Channel (op_envelope (reverse_op 0 example_reverse)) = ChannelVector"
  by code_simp+

lemma example_proxy_run:
  obtains px0 px a where "proxy_main False False (\<lambda>_. 0) example_flags \<lparr>files = [], writes = 0\<rparr> = Some px0"
    and "proxy_run (\<lambda>_. None) px0 [consume_op 0 example_consume, reverse_op 0 example_reverse] px"
    and "flushReqs (pipe_s (px_pipe px)) < 1" and "svc_started (pipe_s (px_pipe px))" and "\<not> svc_done (pipe_s (px_pipe px))"
    and "\<not> svc_stop (pipe_s (px_pipe px))" and "drain (\<lambda>_. 0) (inq (pipe_s (px_pipe px))) (svc_acc (pipe_s (px_pipe px))) = Some a"
proof -
  let ?clk = "\<lambda>_ :: nat. 0 :: i64" and ?F = "(\<lambda>_. None) :: faults" and ?d = "\<lparr>files = [], writes = 0\<rparr>"
  let ?c = "consume_op 0 example_consume" and ?v = "reverse_op 0 example_reverse"
  let ?opts = "proxy_options (saneFlags example_flags)"
  have p: "case NewPipeline ?clk ?opts (Some []) of None \<Rightarrow> False
    | Some p \<Rightarrow> (case drain ?clk [op_envelope ?c] (svc_acc (pipe_s p)) of None \<Rightarrow> False | Some a \<Rightarrow>
        inq (pipe_s p) = [] \<and> \<not> svc_done (pipe_s p) \<and> \<not> svc_stop (pipe_s p) \<and> flushReqs (pipe_s p) < 1
        \<and> Buffer (svc_opts (pipe_s p)) = 8192)" by code_simp
  have e: "env_Channel (op_envelope ?c) = ChannelScalar" "op_Key ?c \<noteq> ''''" "op_Key ?v \<noteq> ''''" by code_simp+
  obtain px0 where px0: "proxy_main False False ?clk example_flags ?d = Some px0"
    using proxy_main_returns [of ?clk example_flags ?d] p by (auto simp: o_def split: option.splits)
  obtain p0 where p0: "NewPipeline (?clk \<circ> Suc) ?opts (Some []) = Some p0" "px_pipe px0 = pipe_Start p0"
    by (rule proxy_main_parts [OF px0 refl]) (simp_all add: example_sane content_def)
  obtain a where a: "drain ?clk [op_envelope ?c] (svc_acc (pipe_s p0)) = Some a"
    and q: "inq (pipe_s p0) = []" "\<not> svc_done (pipe_s p0)" "\<not> svc_stop (pipe_s p0)" "flushReqs (pipe_s p0) < 1"
      "Buffer (svc_opts (pipe_s p0)) = 8192"
    using p p0(1) by (auto simp: o_def split: option.splits)
  have s0: "pipe_s (px_pipe px0) = (pipe_s p0)\<lparr>svc_started := True\<rparr>" using p0(2) by (simp add: pipe_Start_def svc_Start_def)
  have "TryIngest (op_envelope ?c) (pipe_s (px_pipe px0)) = (True, (pipe_s (px_pipe px0))\<lparr>inq := [op_envelope ?c]\<rparr>)"
    using q e(1) by (simp add: s0 TryIngest_def)
  from handleConsume_queues [OF _ _ this, of ?F] e obtain rs1 px1 where
    c1: "handleConsume ?F ?clk example_consume px0 = Some (rs1, px1)" "status rs1 = 202"
      "pipe_s (px_pipe px1) = (pipe_s (px_pipe px0))\<lparr>inq := [op_envelope ?c]\<rparr>" by blast
  obtain rs2 px2 where c2: "handleReverse ?F ?clk example_reverse px1 = Some (rs2, px2)" "status rs2 = 202"
    "pipe_s (px_pipe px2) = pipe_s (px_pipe px1)" using handleReverse_returns [of ?clk example_reverse] e(3) by blast
  have "proxy_run ?F px0 [?c, ?v] px2"
    using proxy_run.proxy_reverse [OF proxy_run.proxy_consume [OF proxy_run.proxy_init c1(1)] c2(1)] c1(2) c2(2) by simp
  then show thesis using that [OF px0, of px2 a] a q c1(3) c2(3) by (simp add: s0)
qed

theorem proxy_state_exact_witness:
  "\<exists>px0 px rs px'. proxy_main False False (\<lambda>_. 0) example_flags \<lparr>files = [], writes = 0\<rparr> = Some px0
     \<and> proxy_run (\<lambda>_. None) px0 [consume_op 0 example_consume, reverse_op 0 example_reverse] px
     \<and> handleState (\<lambda>_. None) (\<lambda>_. 0) example_query px = Some (rs, px') \<and> body rs = json_map [(''sum'', ji64 3)]"
proof -
  let ?ops = "[consume_op 0 example_consume, reverse_op 0 example_reverse]"
  obtain px0 px a where px0: "proxy_main False False (\<lambda>_. 0) example_flags \<lparr>files = [], writes = 0\<rparr> = Some px0"
    and run: "proxy_run (\<lambda>_. None) px0 ?ops px"
    and q: "flushReqs (pipe_s (px_pipe px)) < 1" "svc_started (pipe_s (px_pipe px))" "\<not> svc_done (pipe_s (px_pipe px))"
      "drain (\<lambda>_. 0) (inq (pipe_s (px_pipe px))) (svc_acc (pipe_s (px_pipe px))) = Some a"
    by (rule example_proxy_run)
  obtain rs px' where st: "handleState (\<lambda>_. None) (\<lambda>_. 0) example_query px = Some (rs, px')"
    using handleState_returns [OF q, of "\<lambda>_. None" example_query] by blast
  have "query_get (query example_query) ''key'' \<noteq> ''''" "query_get (query example_query) ''sum'' = ''1''" by code_simp+
  then have "rs = ok_body (json_map [(''sum'', ji64 (\<Sum>op\<leftarrow>?ops. if counted example_query op then Amount op else 0))])"
    by (intro proxy_state_exact [OF px0 refl _ _ _ _ _ run example_lanes(1) _ st])
      (simp_all add: example_sane example_lanes(2) content_def faultless_def)
  moreover have "(\<Sum>op\<leftarrow>?ops. if counted example_query op then Amount op else 0) = 3" by code_simp
  ultimately have "body rs = json_map [(''sum'', ji64 3)]" by (simp only: ok_body_def response.simps)
  then show ?thesis using px0 run st by blast
qed

text \<open>
  C31. A clean exit loses nothing. Under the same conditions, when the proxy has exited after a signal
  (it closes the vector log, stops the service, which drains its queue and flushes, and closes the batch
  log), the two files on disk are read without an error, and rebuilding the state from them gives in
  every cell the sum of the amounts of the operations accepted for it.
\<close>

theorem proxy_exit_durable:
  assumes "proxy_main False False clk0 flags d = Some px0" and "f = saneFlags flags" and "sLog_flag f \<noteq> vLog_flag f"
    and "content d (sLog_flag f) = []" and "content d (vLog_flag f) = []" and "sint (orderPow2_flag f) \<le> 62"
    and "faultless F" and "proxy_run F px0 ops px" and "alias_free C"
    and "\<forall>op \<in> set ops. env_Channel (op_envelope op) = ChannelScalar \<longrightarrow> env_cell (op_envelope op) \<in> C"
    and "proxy_exit F clk px = Some px'"
  shows "\<exists>st. read_state px' = Inr st
    \<and> (\<forall>k b. Cells st (k, b) = (\<Sum>op\<leftarrow>ops. if HashKey (op_Key op) = k \<and> (if op_Bucket op = '''' then 0 else HashKey (op_Bucket op)) = b
        then Amount op else 0))"
proof -
  obtain p where p: "NewPipeline (clk0 \<circ> Suc) (proxy_options f) (Some []) = Some p" "px_pipe px0 = pipe_Start p" "px_flags px0 = f"
    "s_log (sLog_flag f) [] px0" "v_log (vLog_flag f) [] px0"
    by (rule proxy_main_parts [OF assms(1-5)])
  have lane: "lane_ok C (pipe_s p)" "\<And>c. lane_total (pipe_s p) c = 0"
    using NewPipeline_lane [OF p(1) _ assms(9)] assms(6) by (simp_all add: proxy_options_def)
  note inv = proxy_inv_run [OF assms(8,7,3) proxy_inv_init [OF p]]
  obtain bs where bs: "read_state px' = Inr (Reconstruct bs (vectors (map op_envelope ops)) NewState)"
    "\<And>c. batch_net bs c + env_net (vectors (map op_envelope ops)) c = env_net (map op_envelope ops) c"
    using exited_state [OF assms(7,3) inv assms(11) lane] assms(10) by auto
  have "env_net (map op_envelope ops) (k, b) = (\<Sum>op\<leftarrow>ops. if HashKey (op_Key op) = k \<and> (if op_Bucket op = '''' then 0 else HashKey (op_Bucket op)) = b
      then Amount op else 0)" for k b
    using run_keyed [OF assms(8)] by (induction ops) (auto simp: op_envelope_keyed)
  then show ?thesis using bs by (simp add: Cells_Reconstruct Cells_NewState)
qed

lemma proxy_exit_returns:
  assumes "svc_started (pipe_s (px_pipe px))" and "\<not> svc_done (pipe_s (px_pipe px))" and "\<not> svc_stop (pipe_s (px_pipe px))"
    and "drain clk (inq (pipe_s (px_pipe px))) (svc_acc (pipe_s (px_pipe px))) = Some a"
  shows "\<exists>px'. proxy_exit F clk px = Some px'"
  using assms by (auto simp: proxy_exit_def stop_served_def pipe_Stop_def svc_Stop_def Let_def split: prod.splits)

theorem proxy_exit_durable_witness:
  "\<exists>px0 px px' st. proxy_main False False (\<lambda>_. 0) example_flags \<lparr>files = [], writes = 0\<rparr> = Some px0
     \<and> proxy_run (\<lambda>_. None) px0 [consume_op 0 example_consume, reverse_op 0 example_reverse] px
     \<and> proxy_exit (\<lambda>_. None) (\<lambda>_. 0) px = Some px' \<and> read_state px' = Inr st \<and> Cells st (HashKey ''a'', 0) = 3"
proof -
  let ?ops = "[consume_op 0 example_consume, reverse_op 0 example_reverse]"
  obtain px0 px a where px0: "proxy_main False False (\<lambda>_. 0) example_flags \<lparr>files = [], writes = 0\<rparr> = Some px0"
    and run: "proxy_run (\<lambda>_. None) px0 ?ops px"
    and q: "svc_started (pipe_s (px_pipe px))" "\<not> svc_done (pipe_s (px_pipe px))" "\<not> svc_stop (pipe_s (px_pipe px))"
      "drain (\<lambda>_. 0) (inq (pipe_s (px_pipe px))) (svc_acc (pipe_s (px_pipe px))) = Some a"
    by (rule example_proxy_run)
  obtain px' where ex: "proxy_exit (\<lambda>_. None) (\<lambda>_. 0) px = Some px'"
    using proxy_exit_returns [OF q, of "\<lambda>_. None"] by blast
  have "\<exists>st. read_state px' = Inr st
    \<and> (\<forall>k b. Cells st (k, b) = (\<Sum>op\<leftarrow>?ops. if HashKey (op_Key op) = k \<and> (if op_Bucket op = '''' then 0 else HashKey (op_Bucket op)) = b
        then Amount op else 0))"
    by (rule proxy_exit_durable [OF px0 refl _ _ _ _ _ run example_lanes(1) _ ex])
      (simp_all add: example_sane example_lanes(2) content_def faultless_def)
  then obtain st where st: "read_state px' = Inr st" "Cells st (HashKey ''a'', 0) = (\<Sum>op\<leftarrow>?ops. if HashKey (op_Key op) = HashKey ''a''
      \<and> (if op_Bucket op = '''' then 0 else HashKey (op_Bucket op)) = 0 then Amount op else 0)" by blast
  have "(\<Sum>op\<leftarrow>?ops. if HashKey (op_Key op) = HashKey ''a'' \<and> (if op_Bucket op = '''' then 0 else HashKey (op_Bucket op)) = 0
        then Amount op else 0) = 3" by code_simp
  with st(2) have "Cells st (HashKey ''a'', 0) = 3" by (rule trans)
  with st(1) show ?thesis using px0 run ex by blast
qed

end
