(* ===== verification/TFD_Sim_Props.thy ===== *)
theory TFD_Sim_Props
  imports TFD_Sim TFD_Proxy_Props
begin

text \<open>
  The simulator implements the lanes of the proxy: under the abstraction \<open>sim_proxy\<close>, which forgets the
  metrics, its steps are steps of the proxy, so the logs replay what entered the lanes. The metrics
  count exactly what happened.
\<close>

section \<open>The simulator as a proxy\<close>

definition sim_proxy_flags :: "sim_flags \<Rightarrow> proxy_flags" where
  "sim_proxy_flags f =
     \<lparr>shards_flag = sf_shards f, orderPow2_flag = sf_orderPow2 f, countThresh_flag = sf_countThresh f, timeCap_flag = sf_timeCap f,
      flushEvery_flag = sf_flushEvery f, sLog_flag = sf_sLog f, vLog_flag = sf_vLog f, addr_flag = sf_httpAddr f\<rparr>"

definition sim_proxy :: "sim \<Rightarrow> proxy" where
  "sim_proxy sm =
     \<lparr>px_pipe = \<lparr>pipe_s = sm_svc sm, pipe_v = sm_vr sm\<rparr>, px_s = sm_s sm, px_v = sm_v sm, px_disk = sm_disk sm,
      px_flags = sim_proxy_flags (sm_flags sm)\<rparr>"

lemma sim_proxy_flags_fields [simp]:
  "shards_flag (sim_proxy_flags f) = sf_shards f" "orderPow2_flag (sim_proxy_flags f) = sf_orderPow2 f"
  "countThresh_flag (sim_proxy_flags f) = sf_countThresh f" "timeCap_flag (sim_proxy_flags f) = sf_timeCap f"
  "flushEvery_flag (sim_proxy_flags f) = sf_flushEvery f" "sLog_flag (sim_proxy_flags f) = sf_sLog f"
  "vLog_flag (sim_proxy_flags f) = sf_vLog f"
  by (simp_all add: sim_proxy_flags_def)

lemma sim_proxy_fields [simp]:
  "pipe_s (px_pipe (sim_proxy sm)) = sm_svc sm" "px_s (sim_proxy sm) = sm_s sm" "px_v (sim_proxy sm) = sm_v sm"
  "px_disk (sim_proxy sm) = sm_disk sm" "px_flags (sim_proxy sm) = sim_proxy_flags (sm_flags sm)"
  by (simp_all add: sim_proxy_def)

lemma unix_IsZero_never [simp]: "\<not> unix_IsZero n"
  using sint_range [of n] by (simp add: unix_IsZero_def)

lemma SimpleVSA_length: "length (SimpleVSA bs) \<le> length bs"
proof -
  obtain es where es: "Compress bs = Some (nonzero es)" "holds_merged bs es" using Compress_ok by blast
  have "batch_cell v \<in> batch_cell ` set bs" if "v \<in> set (nonzero es)" for v
    using that holds_merged_output(1) [OF es(2), of v] merged_None [of bs "batch_cell v"] by auto
  then have "batch_cell ` set (nonzero es) \<subseteq> batch_cell ` set bs" by blast
  then have "card (set (map batch_cell (nonzero es))) \<le> card (set (map batch_cell bs))" by (simp add: card_mono)
  also have "\<dots> \<le> length bs" using card_length [of "map batch_cell bs"] by simp
  finally show ?thesis using distinct_card [OF holds_merged_output(2) [OF es(2)]] es(1) by (simp add: SimpleVSA_def)
qed

text \<open>A flush through the two wrappers is the flush of the service with the file sink behind it.\<close>

lemma sim_flush_spec:
  assumes "svc_sink (sm_svc sm) = Some lg" and "FlushAll (svc_acc (sm_svc sm)) = (b, a)"
  shows "sim_proxy (sim_flush F t0 t1 clk sm) = serviced F clk (svc_flush (Some SimpleVSA) (sm_svc sm)) (sim_proxy sm)"
    and "sm_svc (sim_flush F t0 t1 clk sm) = svc_flush (Some SimpleVSA) (sm_svc sm)"
    and "svc_sink (sm_svc (sim_flush F t0 t1 clk sm)) = Some (lg @ (if b = [] \<or> SimpleVSA b = [] then [] else [SimpleVSA b]))"
    and "sm_in (sim_flush F t0 t1 clk sm) = sm_in sm + length b"
    and "sm_out (sim_flush F t0 t1 clk sm) = sm_out sm + (if b = [] then 0 else length (SimpleVSA b))"
    and "sm_totalOps (sim_flush F t0 t1 clk sm) = sm_totalOps sm" and "sm_sOps (sim_flush F t0 t1 clk sm) = sm_sOps sm"
    and "sm_vOps (sim_flush F t0 t1 clk sm) = sm_vOps sm" and "sm_tryIngestFail (sim_flush F t0 t1 clk sm) = sm_tryIngestFail sm"
    and "sm_waiting (sim_flush F t0 t1 clk sm) = sm_waiting sm" and "sm_flags (sim_flush F t0 t1 clk sm) = sm_flags sm"
  using assms
  by (auto simp: sim_flush_def svc_flush_def metricVSA_Compress_def metricSink_OnSBatches_def serviced_def sink_calls_def sim_proxy_def
      Let_def split: prod.splits)

section \<open>The invariant of a run\<close>

definition sim_inv :: "SService \<Rightarrow> sim_flags \<Rightarrow> nat \<Rightarrow> nat \<Rightarrow> Envelope list \<Rightarrow> sim \<Rightarrow> bool" where
  "sim_inv s0 f g q es sm \<longleftrightarrow>
     proxy_inv s0 (sim_proxy_flags f) es (sim_proxy sm)
     \<and> svc_started (sm_svc sm) \<and> \<not> svc_done (sm_svc sm) \<and> \<not> svc_stop (sm_svc sm)
     \<and> (\<forall>w \<in> set (sm_waiting sm). env_Channel (snd w) = ChannelScalar \<and> length (HashPrev (snd w)) = 16)
     \<and> sm_totalOps sm = g \<and> sm_sOps sm = length (scalars es) \<and> sm_vOps sm = length (vectors es)
     \<and> g + q = sm_sOps sm + sm_vOps sm + length (sm_waiting sm) \<and> length (sm_waiting sm) \<le> sm_tryIngestFail sm
     \<and> (\<exists>lg. svc_sink (sm_svc sm) = Some lg \<and> sm_out sm = length (concat lg)) \<and> sm_out sm \<le> sm_in sm"

lemma svc_flush_fields:
  "svc_started (svc_flush vsa s) = svc_started s" "svc_done (svc_flush vsa s) = svc_done s" "svc_stop (svc_flush vsa s) = svc_stop s"
  by (simp_all add: svc_flush_def Let_def split: prod.splits)

lemma sim_inv_flush:
  assumes "faultless F" and "sf_sLog f \<noteq> sf_vLog f" and "sim_inv s0 f g q es sm"
  shows "sim_inv s0 f g q es (sim_flush F t0 t1 clk sm)"
proof -
  obtain lg where lg: "svc_sink (sm_svc sm) = Some lg" "sm_out sm = length (concat lg)" using assms(3) by (auto simp: sim_inv_def)
  obtain b a where f: "FlushAll (svc_acc (sm_svc sm)) = (b, a)" by fastforce
  note sp = sim_flush_spec [OF lg(1) f, of F t0 t1 clk]
  have "svc_step (Some SimpleVSA) (pipe_s (px_pipe (sim_proxy sm))) [] (svc_flush (Some SimpleVSA) (sm_svc sm))"
    using assms(3) by (simp add: sim_inv_def svc_step.run_tick)
  from proxy_inv_service [OF assms(1) _ _ this] assms(2,3)
  have "proxy_inv s0 (sim_proxy_flags f) es (sim_proxy (sim_flush F t0 t1 clk sm))" by (simp add: sp(1) sim_inv_def)
  moreover have "length (SimpleVSA b) \<le> length b" by (rule SimpleVSA_length)
  moreover have "svc_sink (svc_flush (Some SimpleVSA) (sm_svc sm)) = Some (lg @ (if b = [] \<or> SimpleVSA b = [] then [] else [SimpleVSA b]))"
    using sp(3) by (simp only: sp(2))
  ultimately show ?thesis using assms(3) lg unfolding sim_inv_def by (auto simp: sp(1,2,4-11) svc_flush_fields)
qed

lemma sim_inv_receive:
  assumes "faultless F" and "sf_sLog f \<noteq> sf_vLog f" and "sim_inv s0 f g q es sm"
    and "inq (sm_svc sm) = env # rest" and "receive now env (svc_acc (sm_svc sm)) = Some a"
  shows "sim_inv s0 f g q es (sm\<lparr>sm_svc := (sm_svc sm)\<lparr>inq := rest, svc_acc := a\<rparr>\<rparr>)"
proof -
  let ?s = "(sm_svc sm)\<lparr>inq := rest, svc_acc := a\<rparr>"
  have "svc_step (Some SimpleVSA) (pipe_s (px_pipe (sim_proxy sm))) [] ?s"
    using assms(3-5) by (simp add: sim_inv_def svc_step.run_receive)
  from proxy_inv_service [OF assms(1) _ _ this] assms(2,3)
  have "proxy_inv s0 (sim_proxy_flags f) es (serviced F clk ?s (sim_proxy sm))" for clk
    by (simp add: sim_inv_def)
  moreover have "serviced F clk ?s (sim_proxy sm) = sim_proxy (sm\<lparr>sm_svc := ?s\<rparr>)" for clk
    by (simp add: serviced_def sink_calls_def sim_proxy_def)
  ultimately show ?thesis using assms(3) by (simp add: sim_inv_def)
qed

lemma sim_inv_enter:
  assumes "sim_inv s0 f g q es sm" and "env_Channel env = ChannelScalar" and "length (HashPrev env) = 16"
    and "svc_step (Some SimpleVSA) (sm_svc sm) [env] s" and "s = (sm_svc sm)\<lparr>inq := inq (sm_svc sm) @ [env]\<rparr>"
  shows "proxy_inv s0 (sim_proxy_flags f) (es @ [env]) (sim_proxy (sm\<lparr>sm_svc := s\<rparr>))"
proof -
  have "proxy_inv s0 (sim_proxy_flags f) es (sim_proxy sm)" using assms(1) by (simp add: sim_inv_def)
  from proxy_inv_scalar [OF this assms(2,3), of s] assms(4,5) show ?thesis by (simp add: sim_proxy_def)
qed

lemma queued_cases:
  assumes "env_Channel env = ChannelScalar" and "TryIngest env s = (ok, s')"
  shows "if ok then s' = s\<lparr>inq := inq s @ [env]\<rparr> \<and> svc_step vsa s [env] s' else s' = s"
  using assms svc_step.call_try_ingest [OF assms(2), of vsa] by (auto simp: TryIngest_def split: if_splits)

text \<open>
  Sending one envelope. Before the call one more operation has been counted than has been sent, which
  is what \<open>g + q\<close> being one ahead says.
\<close>

lemma sim_inv_dispatch:
  assumes "faultless F" and "sf_sLog f \<noteq> sf_vLog f" and "sim_inv s0 f g q es (sm\<lparr>sm_totalOps := g\<rparr>)"
    and "length (HashPrev env) = 16" and "g' + q' = g + q + 1" and "sm_totalOps sm = g'"
  shows "sim_inv s0 f g' q' (es @ entered (Some env) sm (dispatch F clk src env sm)) (dispatch F clk src env sm)"
proof (cases "env_Channel env")
  case ChannelScalar
  obtain ok s where ti: "TryIngest env (sm_svc sm) = (ok, s)" by fastforce
  from queued_cases [OF ChannelScalar ti, of "Some SimpleVSA"]
  have q: "ok \<Longrightarrow> s = (sm_svc sm)\<lparr>inq := inq (sm_svc sm) @ [env]\<rparr>" "ok \<Longrightarrow> svc_step (Some SimpleVSA) (sm_svc sm) [env] s"
    by (auto split: if_splits)
  show ?thesis
  proof (cases ok)
    case True
    have "proxy_inv s0 (sim_proxy_flags f) (es @ [env]) (sim_proxy (sm\<lparr>sm_totalOps := g, sm_svc := s\<rparr>))"
      using sim_inv_enter [OF assms(3) ChannelScalar assms(4), of s] q [OF True] by simp
    then show ?thesis using assms(3,5,6) ti True ChannelScalar q(1) [OF True]
      by (auto simp: sim_inv_def dispatch_def entered_def sim_proxy_def)
  next
    case False
    then show ?thesis using assms(3-6) ti ChannelScalar by (auto simp: sim_inv_def dispatch_def entered_def sim_proxy_def)
  qed
next
  case ChannelVector
  obtain act r where rt: "Route (fp_KeyID (env_Footprint env)) (sm_vr sm) = (act, r)" by fastforce
  obtain v d where ap: "Append F clk env (sm_v sm, sm_disk sm) = (v, d)" by fastforce
  let ?r = "r\<lparr>actors := al_update (fp_KeyID (env_Footprint env)) (Enqueue env act) (actors r)\<rparr>"
  have "proxy_inv s0 (sim_proxy_flags f) (es @ [env])
    ((sim_proxy (sm\<lparr>sm_totalOps := g\<rparr>))\<lparr>px_v := v, px_disk := d, px_pipe := \<lparr>pipe_s = sm_svc sm, pipe_v = ?r\<rparr>\<rparr>)"
    using assms(2-4) ap
    by (intro proxy_inv_vector [OF assms(1) _ _ ChannelVector assms(4), where clk = clk]) (simp_all add: sim_inv_def)
  then show ?thesis using assms(3,5,6) rt ap ChannelVector
    by (auto simp: sim_inv_def dispatch_def entered_def sim_proxy_def)
qed

lemma sim_envelope_hash [simp]: "length (HashPrev (sim_envelope op seq)) = 16"
  by (simp add: sim_envelope_def split: prod.split)

lemma sim_inv_ingested:
  assumes "sim_inv s0 f g q es sm" and "ingested i sm = Some (env, sm')"
  shows "sim_inv s0 f g q (es @ [env]) sm'"
proof -
  let ?ws = "sm_waiting sm"
  obtain s where i: "i < length ?ws" "env = snd (?ws ! i)" "svc_Ingest env (sm_svc sm) = Some s"
    and sm': "sm' = sm\<lparr>sm_svc := s, sm_waiting := take i ?ws @ drop (Suc i) ?ws, sm_sOps := sm_sOps sm + 1\<rparr>"
    using assms(2) by (auto simp: ingested_def Let_def split: if_splits)
  have w: "env_Channel env = ChannelScalar" "length (HashPrev env) = 16"
    using assms(1) i(1,2) nth_mem [OF i(1)] by (simp_all add: sim_inv_def)
  have s: "s = (sm_svc sm)\<lparr>inq := inq (sm_svc sm) @ [env]\<rparr>" using i(3) w(1) by (auto simp: svc_Ingest_def split: if_splits)
  have "svc_step (Some SimpleVSA) (sm_svc sm) [env] s" using svc_step.call_ingest [OF i(3)] w(1) by simp
  from sim_inv_enter [OF assms(1) w this s] have "proxy_inv s0 (sim_proxy_flags f) (es @ [env]) (sim_proxy sm')"
    by (simp add: sm' sim_proxy_def)
  moreover have "set (take i ?ws @ drop (Suc i) ?ws) \<subseteq> set ?ws" "length (take i ?ws @ drop (Suc i) ?ws) + 1 = length ?ws"
    using i(1) by (auto dest: in_set_takeD in_set_dropD)
  ultimately show ?thesis using assms(1) w(1) s unfolding sim_inv_def sm' by auto
qed

lemma gen_op_classified: "snd (snd (snd (Classify (gen_op f ki bi u seq)))) = None"
  by (simp add: gen_op_def Classify_def Let_def)

lemma sim_inv_run:
  assumes "sim_run F sm0 g q es sm" and "faultless F" and "sf_sLog f \<noteq> sf_vLog f" and "sim_inv s0 f 0 0 [] sm0"
  shows "sim_inv s0 f g q es sm"
  using assms(1)
proof (induction rule: sim_run.induct)
  case (sim_request g q es sm clk r rs e sm')
  have g: "sm_totalOps sm = g" using sim_request.IH by (simp add: sim_inv_def)
  show ?case
  proof (cases "snd (snd (snd (Classify (consume_op (clk 0) r))))")
    case (Some err)
    then show ?thesis using sim_request by (cases err) (auto simp: sim_consume_def Let_def entered_def http_Error_def split: prod.splits)
  next
    case None
    let ?env = "sim_envelope (consume_op (clk 0) r) (clk 1)"
    have "rs = \<lparr>status = 202, headers = [], body = ''''\<rparr>" "e = Some ?env" "sm' = dispatch F (\<lambda>i. clk (i + 2)) Request ?env sm"
      using sim_request(2) None by (auto simp: sim_consume_def Let_def split: prod.splits)
    moreover have "sim_inv s0 f g q es (sm\<lparr>sm_totalOps := g\<rparr>)" using sim_request.IH by (simp add: sim_inv_def sim_proxy_def)
    ultimately show ?thesis
      using sim_inv_dispatch [OF assms(2,3), of s0 g q es sm ?env g "q + 1"] g by simp
  qed
next
  case (sim_round g q es sm ki bi u clk e sm')
  let ?sm = "sm\<lparr>sm_burstLeft := sm_burstLeft sm - 1, sm_totalOps := sm_totalOps sm + 1\<rparr>"
  let ?op = "gen_op (sm_flags sm) ki bi u (clk 0)"
  have e: "e = Some (sim_envelope ?op (op_SeqEnd ?op))" "sm' = dispatch F (clk \<circ> Suc) Generator (sim_envelope ?op (op_SeqEnd ?op)) ?sm"
    using sim_round(10) gen_op_classified [of "sm_flags sm" ki bi u "clk 0"] by (auto simp: gen_round_def Let_def split: prod.splits option.splits)
  have "entered e sm sm' = entered e ?sm sm'" by (simp add: entered_def)
  moreover have "sim_inv s0 f g q es (?sm\<lparr>sm_totalOps := g\<rparr>)" using sim_round.IH by (simp add: sim_inv_def sim_proxy_def)
  moreover have "sm_totalOps ?sm = g + 1" using sim_round.IH by (simp add: sim_inv_def)
  ultimately show ?case using sim_inv_dispatch [OF assms(2,3), of s0 g q es ?sm _ "g + 1" q] e by simp
next
  case (sim_tick g q es sm)
  then show ?case by (simp add: sim_inv_def gen_tick_def sim_proxy_def)
next
  case (sim_unblock g q es sm i env sm')
  show ?case by (rule sim_inv_ingested [OF sim_unblock.IH sim_unblock(2)])
next
  case (sim_receive g q es sm env rest now a)
  show ?case by (rule sim_inv_receive [OF assms(2,3) sim_receive.IH sim_receive(2,3)])
next
  case (sim_service_tick g q es sm t0 t1 clk)
  show ?case by (rule sim_inv_flush [OF assms(2,3) sim_service_tick.IH])
qed (rule assms(4))

section \<open>Start and exit\<close>

lemma sim_main_proxy:
  assumes "sim_main False False clk flags d = Some sm0"
  shows "proxy_main False False clk (sim_proxy_flags (saneSim flags)) d = Some (sim_proxy sm0)"
    and "saneFlags (sim_proxy_flags (saneSim flags)) = sim_proxy_flags (saneSim flags)"
proof -
  let ?f = "saneSim flags"
  show sane: "saneFlags (sim_proxy_flags ?f) = sim_proxy_flags ?f"
    by (auto simp: saneFlags_def saneSim_def sim_proxy_flags_def)
  show "proxy_main False False clk (sim_proxy_flags ?f) d = Some (sim_proxy sm0)"
    using assms
    by (auto simp: proxy_main_def sane sim_main_def sim_proxy_def NewPipeline_def proxy_options_def pipe_Start_def
        Let_def split: option.splits prod.splits if_splits)
qed

lemma sim_start:
  assumes "sim_main False False clk flags d = Some sm0" and "f = saneSim flags" and "sf_sLog f \<noteq> sf_vLog f"
    and "content d (sf_sLog f) = []" and "content d (sf_vLog f) = []" and "sint (sf_orderPow2 f) \<le> 62" and "alias_free C"
  obtains s0 where "sim_inv s0 f 0 0 [] sm0" and "lane_ok C s0" and "\<And>c. lane_total s0 c = 0"
proof -
  note px = sim_main_proxy [OF assms(1), folded assms(2)]
  obtain p where p: "NewPipeline (clk \<circ> Suc) (proxy_options (sim_proxy_flags f)) (Some []) = Some p"
    "px_pipe (sim_proxy sm0) = pipe_Start p" "px_flags (sim_proxy sm0) = sim_proxy_flags f"
    "s_log (sLog_flag (sim_proxy_flags f)) [] (sim_proxy sm0)" "v_log (vLog_flag (sim_proxy_flags f)) [] (sim_proxy sm0)"
    by (rule proxy_main_parts [OF px(1) px(2) [symmetric]]) (use assms(3-5) in simp_all)
  have m: "svc_started (sm_svc sm0)" "\<not> svc_done (sm_svc sm0)" "\<not> svc_stop (sm_svc sm0)" "svc_sink (sm_svc sm0) = Some []"
    "sm_waiting sm0 = []" "sm_totalOps sm0 = 0" "sm_sOps sm0 = 0" "sm_vOps sm0 = 0" "sm_out sm0 = 0"
    using assms(1) by (auto simp: sim_main_def NewSService_def svc_Start_def Let_def split: option.splits prod.splits if_splits)
  have "sim_inv (pipe_s p) f 0 0 [] sm0" using proxy_inv_init [OF p] m by (simp add: sim_inv_def)
  moreover have "lane_ok C (pipe_s p)" "\<And>c. lane_total (pipe_s p) c = 0"
    using NewPipeline_lane [OF p(1) _ assms(7)] assms(6) by (simp_all add: proxy_options_def)
  ultimately show thesis by (rule that)
qed

lemma serviced_done:
  "serviced F clk (sv\<lparr>svc_done := b\<rparr>) px = (serviced F clk sv px)\<lparr>px_pipe := (px_pipe px)\<lparr>pipe_s := sv\<lparr>svc_done := b\<rparr>\<rparr>\<rparr>"
  by (simp add: serviced_def sink_calls_def split: prod.split)

lemma serviced_pipe:
  "svc_sink t = svc_sink (pipe_s (px_pipe px)) \<Longrightarrow> serviced F clk s' (px\<lparr>px_pipe := (px_pipe px)\<lparr>pipe_s := t\<rparr>\<rparr>) = serviced F clk s' px"
  by (simp add: serviced_def sink_calls_def split: prod.split)

lemma sim_proxy_done:
  "sim_proxy (sm\<lparr>sm_svc := s\<rparr>) = (sim_proxy sm)\<lparr>px_pipe := (px_pipe (sim_proxy sm))\<lparr>pipe_s := s\<rparr>\<rparr>"
  by (simp add: sim_proxy_def)

lemma sim_exit_proxy:
  assumes "sim_inv s0 f g q es sm" and "sim_exit F t0 t1 clk sm = Some sm'"
  shows "proxy_exit F clk (sim_proxy sm) = Some (sim_proxy sm')"
proof -
  obtain lg where lg: "svc_sink (sm_svc sm) = Some lg" and run: "svc_started (sm_svc sm)" "\<not> svc_done (sm_svc sm)" "\<not> svc_stop (sm_svc sm)"
    using assms(1) by (auto simp: sim_inv_def)
  obtain ok v d1 where c1: "sink_Close F (sm_v sm, sm_disk sm) = (ok, v, d1)" by (metis prod_cases3)
  let ?s = "(sm_svc sm)\<lparr>svc_stop := True\<rparr>"
  obtain a where a: "drain clk (inq ?s) (svc_acc ?s) = Some a" using assms(2) c1 run(3) by (auto simp: sim_exit_def svc_Stop_def split: option.splits)
  let ?sm = "sm\<lparr>sm_v := v, sm_disk := d1, sm_svc := ?s\<lparr>inq := [], svc_acc := a\<rparr>\<rparr>"
  obtain b a' where f: "FlushAll (svc_acc (sm_svc ?sm)) = (b, a')" by fastforce
  have "svc_sink (sm_svc ?sm) = Some lg" using lg by simp
  note sp = sim_flush_spec(1,2) [OF this f, of F t0 t1 clk]
  obtain ok2 sk d2 where c2: "sink_Close F (sm_s (sim_flush F t0 t1 clk ?sm), sm_disk (sim_flush F t0 t1 clk ?sm)) = (ok2, sk, d2)"
    by (metis prod_cases3)
  have sm': "sm' = (sim_flush F t0 t1 clk ?sm)\<lparr>sm_svc := (sm_svc (sim_flush F t0 t1 clk ?sm))\<lparr>svc_done := True\<rparr>, sm_s := sk, sm_disk := d2\<rparr>"
    using assms(2) c1 c2 run(3) a by (simp add: sim_exit_def svc_Stop_def Let_def)
  let ?px = "(sim_proxy sm)\<lparr>px_v := v, px_disk := d1\<rparr>" and ?s' = "svc_flush (Some SimpleVSA) (?s\<lparr>inq := [], svc_acc := a\<rparr>)"
  have "stop_served F clk ?px = Some (serviced F clk (?s'\<lparr>svc_done := True\<rparr>) (?px\<lparr>px_pipe := (px_pipe ?px)\<lparr>pipe_s := ?s\<rparr>\<rparr>))"
    using run a by (simp add: stop_served_def pipe_Stop_def svc_Stop_def Let_def)
  also have "serviced F clk (?s'\<lparr>svc_done := True\<rparr>) (?px\<lparr>px_pipe := (px_pipe ?px)\<lparr>pipe_s := ?s\<rparr>\<rparr>)
      = sim_proxy ((sim_flush F t0 t1 clk ?sm)\<lparr>sm_svc := (sm_svc (sim_flush F t0 t1 clk ?sm))\<lparr>svc_done := True\<rparr>\<rparr>)"
    using sp by (simp add: sim_proxy_done serviced_done serviced_pipe) (simp add: sim_proxy_def serviced_def sink_calls_def split: prod.split)
  finally show ?thesis using c1 c2 by (simp add: proxy_exit_def sm' sim_proxy_def)
qed

lemma sim_flush_flags [simp]: "sm_flags (sim_flush F t0 t1 clk sm) = sm_flags sm"
  by (simp add: sim_flush_def metricVSA_Compress_def metricSink_OnSBatches_def Let_def split: prod.split)

lemma sim_exit_flags: "sim_exit F t0 t1 clk sm = Some sm' \<Longrightarrow> sm_flags sm' = sm_flags sm"
  by (auto simp: sim_exit_def Let_def split: prod.splits option.splits)

section \<open>Properties\<close>

text \<open>
  The metrics of the simulator are exact. Start it on empty logs and let the generator, requests,
  waiting senders and rounds of the service interleave in any way. Then \<open>tfd_total_ops\<close> is the number of
  generated operations; every generated operation and every accepted request is counted once, as scalar,
  as vector, or as still waiting for room in the buffer; the scalar and vector counters are the numbers
  of envelopes that entered the lanes; each waiting sender has been counted as a failed \<open>TryIngest\<close>; and
  the batches counted after compression are those handed to the log, never more than were counted before.
\<close>

theorem sim_metrics_exact:
  assumes "sim_main False False clk0 flags d = Some sm0" and "f = saneSim flags" and "sf_sLog f \<noteq> sf_vLog f"
    and "content d (sf_sLog f) = []" and "content d (sf_vLog f) = []" and "sint (sf_orderPow2 f) \<le> 62"
    and "faultless F" and "sim_run F sm0 g q es sm"
  shows "sm_totalOps sm = g \<and> g + q = sm_sOps sm + sm_vOps sm + length (sm_waiting sm)
    \<and> sm_sOps sm = length (scalars es) \<and> sm_vOps sm = length (vectors es) \<and> length (sm_waiting sm) \<le> sm_tryIngestFail sm
    \<and> (\<exists>written. svc_sink (sm_svc sm) = Some written \<and> sm_out sm = length (concat written)) \<and> sm_out sm \<le> sm_in sm"
proof -
  have "alias_free {}" by (simp add: alias_free_def)
  from sim_start [OF assms(1-6) this] obtain s0 where "sim_inv s0 f 0 0 [] sm0" by blast
  from sim_inv_run [OF assms(8,7,3) this] show ?thesis by (simp add: sim_inv_def)
qed

text \<open>
  C39. Replay equals the ordered baseline. Under the same conditions, when the simulator has exited (it
  closes the vector log, stops the service, which drains its queue and flushes, and closes the batch
  log), both logs are read without an error, and the state rebuilt from them, batches first and vector
  envelopes after, agrees in every cell with applying all envelopes that entered the lanes one by one.
\<close>

theorem sim_replay_equals_baseline:
  assumes "sim_main False False clk0 flags d = Some sm0" and "f = saneSim flags" and "sf_sLog f \<noteq> sf_vLog f"
    and "content d (sf_sLog f) = []" and "content d (sf_vLog f) = []" and "sint (sf_orderPow2 f) \<le> 62"
    and "faultless F" and "sim_run F sm0 g q es sm" and "alias_free C"
    and "\<forall>e \<in> set es. env_Channel e = ChannelScalar \<longrightarrow> env_cell e \<in> C" and "sim_exit F t0 t1 clk sm = Some sm'"
  shows "\<exists>sb ve. ReadAllSLog (sf_sLog f) (sm_disk sm') = (sb, None) \<and> ReadAllVLog (sf_vLog f) (sm_disk sm') = (ve, None)
    \<and> (\<forall>c. Cells (Reconstruct sb ve NewState) c = Cells (BaselineApply es NewState) c)"
proof -
  obtain s0 where s0: "sim_inv s0 f 0 0 [] sm0" "lane_ok C s0" "\<And>c. lane_total s0 c = 0"
    by (rule sim_start [OF assms(1-6,9)]) (rule that)
  have inv: "sim_inv s0 f g q es sm" by (rule sim_inv_run [OF assms(8,7,3) s0(1)])
  then have px: "proxy_inv s0 (sim_proxy_flags f) es (sim_proxy sm)" by (simp add: sim_inv_def)
  have fl: "sf_sLog (sm_flags sm') = sf_sLog f" "sf_vLog (sm_flags sm') = sf_vLog f"
    using sim_exit_flags [OF assms(11)] px by (simp_all add: proxy_inv_def sim_proxy_flags_def)
  obtain bs where bs: "read_state (sim_proxy sm') = Inr (Reconstruct bs (vectors es) NewState)"
    "\<And>c. batch_net bs c + env_net (vectors es) c = env_net es c"
    using exited_state [OF assms(7) _ px sim_exit_proxy [OF inv assms(11)] s0(2,3) assms(10)] assms(3) by auto
  then obtain sb ve where rd: "ReadAllSLog (sf_sLog f) (sm_disk sm') = (sb, None)" "ReadAllVLog (sf_vLog f) (sm_disk sm') = (ve, None)"
    and st: "Reconstruct sb ve NewState = Reconstruct bs (vectors es) NewState"
    using fl by (auto simp: read_state_def split: prod.splits option.splits)
  have "Cells (Reconstruct sb ve NewState) c = Cells (BaselineApply es NewState) c" for c
    using bs(2) [of c] by (simp add: st Cells_Reconstruct Cells_baseline Cells_NewState)
  with rd show ?thesis by blast
qed

text \<open>An example: one request, then the exit.\<close>

definition sim_example_flags :: sim_flags where
  "sim_example_flags =
     \<lparr>sf_shards = 1, sf_orderPow2 = 2, sf_countThresh = 9, sf_timeCap = 9, sf_flushEvery = 0, sf_sLog = '''', sf_vLog = '''', sf_httpAddr = '''',
      sf_sCoverage = 1, sf_keys = 1, sf_buckets = 1, sf_qps = 0, sf_burst = 0, sf_duration = 0\<rparr>"

abbreviation sim_example_env :: Envelope where
  "sim_example_env \<equiv> sim_envelope (consume_op 0 example_consume) 0"

lemma sim_example_sane:
  "sf_sLog (saneSim sim_example_flags) = ''s.log''" "sf_vLog (saneSim sim_example_flags) = ''v.log''"
  "sint (sf_orderPow2 (saneSim sim_example_flags)) \<le> 62" "\<not> sim_interval (saneSim sim_example_flags) \<le>s 0"
  by code_simp+

lemma sim_example_start:
  "sf_sLog (saneSim sim_example_flags) \<noteq> sf_vLog (saneSim sim_example_flags)"
  "content \<lparr>files = [], writes = 0\<rparr> (sf_sLog (saneSim sim_example_flags)) = []"
  "content \<lparr>files = [], writes = 0\<rparr> (sf_vLog (saneSim sim_example_flags)) = []"
  "sint (sf_orderPow2 (saneSim sim_example_flags)) \<le> 62" "faultless (\<lambda>_. None)"
  by (simp_all add: sim_example_sane content_def faultless_def)

lemma sim_example_env: "env_Channel sim_example_env = ChannelScalar" "alias_free {env_cell sim_example_env}"
  "snd (snd (snd (Classify (consume_op 0 example_consume)))) = None" "env_net [sim_example_env] (HashKey ''a'', 0) = 5"
  by code_simp+

lemma sim_example:
  "\<exists>sm0 sm sm'. sim_main False False (\<lambda>_. 0) sim_example_flags \<lparr>files = [], writes = 0\<rparr> = Some sm0
     \<and> sim_run (\<lambda>_. None) sm0 0 1 [sim_example_env] sm \<and> sim_exit (\<lambda>_. None) 0 0 (\<lambda>_. 0) sm = Some sm'"
proof -
  let ?clk = "\<lambda>_ :: nat. 0 :: i64" and ?f = "saneSim sim_example_flags" and ?e = sim_example_env
  have "case NewSAccumulator ?clk (sf_shards ?f) (sf_orderPow2 ?f) (sf_countThresh ?f) (sf_timeCap ?f) of None \<Rightarrow> False
    | Some a \<Rightarrow> drain ?clk [?e] a \<noteq> None" by code_simp
  then obtain a a' where a: "NewSAccumulator ?clk (sf_shards ?f) (sf_orderPow2 ?f) (sf_countThresh ?f) (sf_timeCap ?f) = Some a"
    "drain ?clk [?e] a = Some a'" by (auto split: option.splits)
  obtain sm0 where sm0: "sim_main False False ?clk sim_example_flags \<lparr>files = [], writes = 0\<rparr> = Some sm0"
    "sm_svc sm0 = svc_Start (NewSService a (Some []) \<lparr>Buffer = 8192, FlushInterval = sf_flushEvery ?f\<rparr>)" "sm_waiting sm0 = []"
    using a(1) sim_example_sane(4)
    by (auto simp: sim_main_def NewSBatchFileSink_def NewVEnvFileSink_def open_sink_def Let_def comp_def)
  have s: "svc_acc (sm_svc sm0) = a" "inq (sm_svc sm0) = []" "\<not> svc_stop (sm_svc sm0)" "Buffer (svc_opts (sm_svc sm0)) = 8192"
    by (simp_all add: sm0(2) svc_Start_def NewSService_def Let_def sle_iff)
  let ?sm = "sm0\<lparr>sm_svc := (sm_svc sm0)\<lparr>inq := [?e]\<rparr>, sm_sOps := sm_sOps sm0 + 1\<rparr>"
  have d: "dispatch F clk Request ?e sm0 = ?sm" for F clk
    using sim_example_env(1) s(2,4) by (simp add: dispatch_def TryIngest_def)
  have "sim_consume (\<lambda>_. None) ?clk example_consume sm0 = (\<lparr>status = 202, headers = [], body = ''''\<rparr>, Some ?e, ?sm)"
    using sim_example_env(3) by (auto simp: sim_consume_def d Let_def split: prod.splits)
  from sim_run.sim_request [OF sim_run.sim_init this]
  have "sim_run (\<lambda>_. None) sm0 0 1 [?e] ?sm" by (simp add: entered_def)
  moreover have "\<exists>sm'. sim_exit (\<lambda>_. None) 0 0 ?clk ?sm = Some sm'"
    using a(2) s(1,3) by (simp add: sim_exit_def svc_Stop_def Let_def split: prod.split)
  ultimately show ?thesis using sm0(1) by blast
qed

theorem sim_metrics_exact_witness:
  "\<exists>sm0 sm. sim_main False False (\<lambda>_. 0) sim_example_flags \<lparr>files = [], writes = 0\<rparr> = Some sm0
     \<and> sim_run (\<lambda>_. None) sm0 0 1 [sim_example_env] sm \<and> sm_sOps sm = 1 \<and> sm_vOps sm = 0 \<and> sm_waiting sm = []"
proof -
  from sim_example obtain sm0 sm where sm: "sim_main False False (\<lambda>_. 0) sim_example_flags \<lparr>files = [], writes = 0\<rparr> = Some sm0"
    "sim_run (\<lambda>_. None) sm0 0 1 [sim_example_env] sm" by blast
  have len: "length (scalars [sim_example_env]) = 1" "length (vectors [sim_example_env]) = 0" by (simp_all add: sim_example_env(1))
  from sim_metrics_exact [OF sm(1) refl sim_example_start sm(2)]
  have "0 + 1 = sm_sOps sm + sm_vOps sm + length (sm_waiting sm)" "sm_sOps sm = 1" "sm_vOps sm = 0" unfolding len by blast+
  then show ?thesis using sm by (intro exI [of _ sm0] exI [of _ sm]) simp
qed

theorem sim_replay_equals_baseline_witness:
  "\<exists>sm0 sm sm' sb ve. sim_main False False (\<lambda>_. 0) sim_example_flags \<lparr>files = [], writes = 0\<rparr> = Some sm0
     \<and> sim_run (\<lambda>_. None) sm0 0 1 [sim_example_env] sm \<and> sim_exit (\<lambda>_. None) 0 0 (\<lambda>_. 0) sm = Some sm'
     \<and> ReadAllSLog ''s.log'' (sm_disk sm') = (sb, None) \<and> ReadAllVLog ''v.log'' (sm_disk sm') = (ve, None)
     \<and> Cells (Reconstruct sb ve NewState) (HashKey ''a'', 0) = 5"
proof -
  from sim_example obtain sm0 sm sm' where sm: "sim_main False False (\<lambda>_. 0) sim_example_flags \<lparr>files = [], writes = 0\<rparr> = Some sm0"
    "sim_run (\<lambda>_. None) sm0 0 1 [sim_example_env] sm" "sim_exit (\<lambda>_. None) 0 0 (\<lambda>_. 0) sm = Some sm'" by blast
  have "\<exists>sb ve. ReadAllSLog ''s.log'' (sm_disk sm') = (sb, None) \<and> ReadAllVLog ''v.log'' (sm_disk sm') = (ve, None)
    \<and> (\<forall>c. Cells (Reconstruct sb ve NewState) c = Cells (BaselineApply [sim_example_env] NewState) c)"
    by (rule sim_replay_equals_baseline [OF sm(1) refl sim_example_start sm(2) sim_example_env(2) _ sm(3), unfolded sim_example_sane]) simp
  moreover have "Cells (BaselineApply [sim_example_env] NewState) (HashKey ''a'', 0) = 5"
    unfolding Cells_baseline Cells_NewState sim_example_env(4) by simp
  ultimately show ?thesis using sm by metis
qed

section \<open>The first observation of the histogram\<close>

text \<open>
  The first observation is the time since the epoch: a fresh \<open>metricSink\<close> holds zero
  nanoseconds, which \<open>time.Unix\<close> turns into 1970 and not into the zero time.
\<close>

lemma first_interval_since_epoch:
  "sim_main s_fails v_fails clk flags d = Some sm0 \<Longrightarrow> sm_hist (metricSink_OnSBatches F t0 t1 clk' b sm0) = [t1]"
proof -
  assume "sim_main s_fails v_fails clk flags d = Some sm0"
  then have "sm_last sm0 = 0" "sm_hist sm0 = []" by (auto simp: sim_main_def Let_def split: option.splits prod.splits if_splits)
  moreover have "time_Sub t1 0 = t1" using sint_range [of t1] by (simp add: time_Sub_def)
  ultimately show ?thesis by (simp add: metricSink_OnSBatches_def Let_def split: prod.split)
qed

end
