(* ===== verification/Loadgen.thy ===== *)
theory Loadgen
  imports GoFmt HTTP "HOL-Library.Signed_Division"
begin

text \<open>
  The HTTP load generator (tools/http-loadgen/main.go): validation of its flags, the split of the
  requests over workers, the choice of keys and the URLs it sends, and the summary it prints. The HTTP
  client is a parameter that the requests do not depend on; its outcomes are dropped. Strings are
  taken to be ASCII where the code changes their case.
\<close>

section \<open>URLs\<close>

text \<open>\<open>url.QueryEscape\<close>, and the parser of net/http's server for what it makes.\<close>

definition unreserved :: "char \<Rightarrow> bool" where
  "unreserved c \<longleftrightarrow>
     (let n = of_char c :: nat
      in 97 \<le> n \<and> n \<le> 122 \<or> 65 \<le> n \<and> n \<le> 90 \<or> 48 \<le> n \<and> n \<le> 57 \<or> c \<in> {CHR ''-'', CHR ''_'', CHR ''.'', CHR ''~''})"

definition upper_hex :: "nat \<Rightarrow> char" where
  "upper_hex n = (if n < 10 then char_of (48 + n) else char_of (55 + n))"

definition escape_char :: "char \<Rightarrow> string" where
  "escape_char c =
     (if unreserved c then [c]
      else if c = CHR '' '' then ''+''
      else [CHR ''%'', upper_hex (of_char c div 16), upper_hex (of_char c mod 16)])"

definition QueryEscape :: "string \<Rightarrow> string" where
  "QueryEscape s = concat (map escape_char s)"

definition encode_one :: "string \<Rightarrow> string \<Rightarrow> string" where
  "encode_one k v = QueryEscape k @ ''='' @ QueryEscape v"

definition unhex :: "char \<Rightarrow> nat option" where
  "unhex c =
     (let n = of_char c :: nat
      in if 48 \<le> n \<and> n \<le> 57 then Some (n - 48)
         else if 97 \<le> n \<and> n \<le> 102 then Some (n - 87)
         else if 65 \<le> n \<and> n \<le> 70 then Some (n - 55)
         else None)"

fun QueryUnescape :: "string \<Rightarrow> string option" where
  "QueryUnescape [] = Some []"
| "QueryUnescape (c # s) =
     (if c = CHR ''%'' then
        case s of
          a # b # s' \<Rightarrow>
            (case (unhex a, unhex b) of
               (Some x, Some y) \<Rightarrow> map_option ((#) (char_of (16 * x + y))) (QueryUnescape s')
             | _ \<Rightarrow> None)
        | _ \<Rightarrow> None
      else map_option ((#) (if c = CHR ''+'' then CHR '' '' else c)) (QueryUnescape s))"

fun split_on :: "char \<Rightarrow> string \<Rightarrow> string list" where
  "split_on d [] = [[]]"
| "split_on d (c # s) =
     (if c = d then [] # split_on d s
      else case split_on d s of [] \<Rightarrow> [[c]] | w # ws \<Rightarrow> (c # w) # ws)"

text \<open>\<open>url.ParseQuery\<close> without its error: pairs that are not well formed are left out.\<close>

definition parse_pair :: "string \<Rightarrow> (string \<times> string) list" where
  "parse_pair p =
     (if p = [] \<or> CHR '';'' \<in> set p then []
      else case (QueryUnescape (takeWhile (\<lambda>c. c \<noteq> CHR ''='') p), QueryUnescape (drop 1 (dropWhile (\<lambda>c. c \<noteq> CHR ''='') p))) of
             (Some k, Some v) \<Rightarrow> [(k, v)]
           | _ \<Rightarrow> [])"

definition ParseQuery :: "string \<Rightarrow> (string \<times> string) list" where
  "ParseQuery q = concat (map parse_pair (split_on (CHR ''&'') q))"

section \<open>Flags\<close>

datatype modeType = modeSingle | modeZipf | modeRelease

record loadgen_flags =
  lg_base :: string
  lg_path :: string
  lg_param :: string
  lg_mode :: string
  lg_key :: string
  lg_hot_key :: string
  lg_cold_keys :: i64
  lg_n :: i64
  lg_c :: i64
  lg_hot_every :: i64

definition loadgen_defaults :: loadgen_flags where
  "loadgen_defaults =
     \<lparr>lg_base = ''http://127.0.0.1:8080'', lg_path = ''/check'', lg_param = ''api_key'', lg_mode = ''single'', lg_key = ''alice-key'',
      lg_hot_key = ''hot-1'', lg_cold_keys = 50, lg_n = 5000, lg_c = 8, lg_hot_every = 5\<rparr>"

text \<open>The outcomes of \<open>os.Exit(2)\<close>.\<close>

datatype usage_error = UnknownMode string | NotPositive | NoColdKeys

definition usage_message :: "usage_error \<Rightarrow> string" where
  "usage_message e =
     (case e of
        UnknownMode s \<Rightarrow> ''unknown -mode='' @ s @ '' (want single|zipf)'' @ [CHR 0x0A]
      | NotPositive \<Rightarrow> ''-n and -c must be > 0'' @ [CHR 0x0A]
      | NoColdKeys \<Rightarrow> ''-cold_keys must be > 0 in zipf mode'' @ [CHR 0x0A])"

definition parse_mode :: "string \<Rightarrow> modeType option" where
  "parse_mode s =
     (let m = map to_lower s in if m = ''single'' then Some modeSingle else if m = ''zipf'' then Some modeZipf else None)"

definition validate :: "loadgen_flags \<Rightarrow> usage_error + modeType \<times> loadgen_flags" where
  "validate f =
     (case parse_mode (lg_mode f) of
        None \<Rightarrow> Inl (UnknownMode (lg_mode f))
      | Some m \<Rightarrow>
          if lg_n f \<le>s 0 \<or> lg_c f \<le>s 0 then Inl NotPositive
          else if m = modeZipf then
            if lg_cold_keys f \<le>s 0 then Inl NoColdKeys
            else Inr (m, if lg_hot_every f <s 2 then f\<lparr>lg_hot_every := 2\<rparr> else f)
          else Inr (m, f))"

definition full_path :: "loadgen_flags \<Rightarrow> string" where
  "full_path f =
     (let baseURL = rev (dropWhile (\<lambda>c. c = CHR ''/'') (rev (lg_base f)));
          p = (case lg_path f of c # _ \<Rightarrow> if c = CHR ''/'' then lg_path f else CHR ''/'' # lg_path f | [] \<Rightarrow> ''/'')
      in baseURL @ p)"

section \<open>Workers\<close>

definition choose_key :: "modeType \<Rightarrow> loadgen_flags \<Rightarrow> i64 \<Rightarrow> i64 \<Rightarrow> string" where
  "choose_key m f wid i =
     (if m = modeSingle \<or> m = modeRelease then lg_key f
      else if go_mod (i + wid) (lg_hot_every f) \<noteq> 0 then lg_hot_key f
      else let idx = go_mod (i + wid) (lg_cold_keys f) + 1 in ''cold-'' @ sprintf_d idx)"

definition request_url :: "modeType \<Rightarrow> loadgen_flags \<Rightarrow> i64 \<Rightarrow> i64 \<Rightarrow> string \<times> string" where
  "request_url m f wid i =
     (if m = modeRelease then ''POST'' else ''GET'',
      full_path f @ ''?'' @ encode_one (lg_param f) (choose_key m f wid i))"

text \<open>A worker stops at the first round that finds the context done.\<close>

definition run_worker :: "modeType \<Rightarrow> loadgen_flags \<Rightarrow> i64 \<Rightarrow> i64 \<Rightarrow> (nat \<Rightarrow> bool) \<Rightarrow> (string \<times> string) list" where
  "run_worker m f wid cnt ctx_done =
     map (\<lambda>i. request_url m f wid (word_of_nat i)) (takeWhile (\<lambda>i. \<not> ctx_done i) [0..<nat (sint cnt)])"

definition worker_count :: "loadgen_flags \<Rightarrow> i64 \<Rightarrow> i64" where
  "worker_count f w =
     (let per = go_div (lg_n f) (lg_c f); rem = lg_n f - per * lg_c f
      in if w = lg_c f - 1 then per + rem else per)"

definition run_workers :: "modeType \<Rightarrow> loadgen_flags \<Rightarrow> (nat \<Rightarrow> nat \<Rightarrow> bool) \<Rightarrow> (string \<times> string) list list" where
  "run_workers m f ctx_done =
     map (\<lambda>w. run_worker m f (word_of_nat w) (worker_count f (word_of_nat w)) (ctx_done w)) [0..<nat (sint (lg_c f))]"

section \<open>The summary\<close>

definition Duration_Truncate :: "i64 \<Rightarrow> i64 \<Rightarrow> i64" where
  "Duration_Truncate d m = (if m \<le>s 0 then d else d - go_mod d m)"

definition mode_name :: "modeType \<Rightarrow> string" where
  "mode_name m = (case m of modeSingle \<Rightarrow> ''single'' | modeZipf \<Rightarrow> ''zipf'' | modeRelease \<Rightarrow> ''release'')"

definition summary :: "modeType \<Rightarrow> loadgen_flags \<Rightarrow> i64 \<Rightarrow> i64 \<Rightarrow> string" where
  "summary m f gomaxprocs elapsed0 =
     (let elapsed = (if elapsed0 \<le>s 0 then 1000000 else elapsed0); ops = f64 (f64_of_int (lg_n f) / Duration_Seconds elapsed)
      in ''LoadGen: mode='' @ mode_name m @ '' N='' @ sprintf_d (lg_n f) @ '' c='' @ sprintf_d (lg_c f) @ '' go='' @ sprintf_d gomaxprocs
         @ '' Duration='' @ Duration_String (Duration_Truncate elapsed 1000000) @ '' Throughput='' @ sprintf_f 0 ops @ '' req/s'' @ [CHR 0x0A])"

definition loadgen_main :: "loadgen_flags \<Rightarrow> (nat \<Rightarrow> nat \<Rightarrow> bool) \<Rightarrow> i64 \<Rightarrow> i64 \<Rightarrow> usage_error + (string \<times> string) list list \<times> string" where
  "loadgen_main f ctx_done gomaxprocs elapsed =
     (case validate f of
        Inl e \<Rightarrow> Inl e
      | Inr (m, f) \<Rightarrow> Inr (run_workers m f ctx_done, summary m f gomaxprocs elapsed))"

end
