(* ===== verification/Loadgen_Props.thy ===== *)
theory Loadgen_Props
  imports Loadgen
begin

text \<open>
  What the load generator sends: every request reaches the server with the key that was chosen, the
  workers send as many as were asked for, and which keys occur.
\<close>

section \<open>Round trip of a query\<close>

lemma unhex_upper: "n < 16 \<Longrightarrow> unhex (upper_hex n) = Some n"
  by (auto simp: unhex_def upper_hex_def Let_def)

lemma of_char_bound: "(of_char c :: nat) < 256"
  using nat_of_char_less_256 by simp

lemma unescape_append:
  assumes "QueryUnescape s = Some t"
  shows "QueryUnescape (QueryEscape k @ s) = Some (k @ t)"
proof (induction k)
  case (Cons c k)
  let ?n = "of_char c :: nat"
  have bound: "?n div 16 < 16" "?n mod 16 < 16" using of_char_bound [of c] by (simp_all add: less_mult_imp_div_less)
  have eq: "QueryEscape (c # k) @ s = escape_char c @ (QueryEscape k @ s)" by (simp add: QueryEscape_def)
  consider "unreserved c" | "c = CHR '' ''" | "\<not> unreserved c" "c \<noteq> CHR '' ''" by blast
  then show ?case
  proof cases
    case 1
    then have "c \<noteq> CHR ''%''" "c \<noteq> CHR ''+''" by (auto simp: unreserved_def)
    with 1 Cons show ?thesis unfolding eq by (simp add: escape_char_def)
  next
    case 2
    then have "escape_char c = ''+''" by (simp add: escape_char_def unreserved_def)
    with 2 Cons show ?thesis unfolding eq by simp
  next
    case 3
    have "char_of (16 * (?n div 16) + ?n mod 16) = c" by (simp only: mult_div_mod_eq char_of_char)
    with 3 Cons bound show ?thesis unfolding eq by (simp add: escape_char_def unhex_upper del: char_of_char)
  qed
qed (simp add: QueryEscape_def assms)

lemma unescape_escape: "QueryUnescape (QueryEscape k) = Some k"
  using unescape_append [of "[]" "[]" k] by simp

lemma upper_hex_plain: "n < 16 \<Longrightarrow> upper_hex n \<notin> {CHR ''&'', CHR ''='', CHR '';''}"
proof -
  assume "n < 16"
  then have "of_char (upper_hex n) = (if n < 10 then 48 + n else 55 + n :: nat)" by (simp add: upper_hex_def)
  then have "of_char (upper_hex n) \<notin> {38, 61, 59 :: nat}" by auto
  moreover have "of_char (CHR ''&'') = (38 :: nat)" "of_char (CHR ''='') = (61 :: nat)" "of_char (CHR '';'') = (59 :: nat)" by code_simp+
  ultimately show ?thesis by (metis insertCI insertE singletonD)
qed

lemma escape_plain: "c \<in> set (QueryEscape s) \<Longrightarrow> c \<notin> {CHR ''&'', CHR ''='', CHR '';''}"
proof -
  assume "c \<in> set (QueryEscape s)"
  then obtain x where x: "c \<in> set (escape_char x)" by (auto simp: QueryEscape_def)
  have "(of_char x :: nat) div 16 < 16" "(of_char x :: nat) mod 16 < 16"
    using of_char_bound [of x] by (simp_all add: less_mult_imp_div_less)
  with x upper_hex_plain show ?thesis by (auto simp: escape_char_def unreserved_def split: if_splits)
qed

lemma split_on_absent: "d \<notin> set s \<Longrightarrow> split_on d s = [s]"
  by (induction s) auto

lemma ParseQuery_encode: "ParseQuery (encode_one k v) = [(k, v)]"
proof -
  have "takeWhile (\<lambda>c. c \<noteq> CHR ''='') (encode_one k v) = QueryEscape k" "dropWhile (\<lambda>c. c \<noteq> CHR ''='') (encode_one k v) = ''='' @ QueryEscape v"
    using escape_plain [of _ k] by (auto simp: encode_one_def takeWhile_append2 dropWhile_append2)
  moreover have "CHR ''&'' \<notin> set (encode_one k v)" "CHR '';'' \<notin> set (encode_one k v)" "encode_one k v \<noteq> []"
    using escape_plain [of _ k] escape_plain [of _ v] by (auto simp: encode_one_def)
  ultimately show ?thesis by (simp add: ParseQuery_def split_on_absent parse_pair_def unescape_escape)
qed

section \<open>The split over the workers\<close>

lemma sint_go_mod:
  assumes "0 \<le> sint a" and "0 < sint b"
  shows "sint (go_mod a b) = sint a mod sint b"
proof -
  have "sint a smod sint b = sint a mod sint b"
    using assms by (cases "sint a = 0") (simp_all add: signed_modulo_int_def signed_divide_int_def sgn_if minus_div_mult_eq_mod)
  moreover have "fits (sint a mod sint b)"
    using assms sint_range [of b] pos_mod_bound [OF assms(2), of "sint a"] pos_mod_sign [OF assms(2), of "sint a"] by (simp add: fits_def)
  ultimately show ?thesis by (simp add: go_mod_def sint_of_int_fits)
qed

lemma word_of_sint: "word_of_int (sint (w :: i64)) = w"
  by simp

lemma sint_of_nat_small: "int n < 2 ^ 63 \<Longrightarrow> sint (word_of_nat n :: i64) = int n"
  using sint_of_int_fits [of "int n"] by (simp add: fits_def)

lemma worker_count_value:
  assumes "0 < sint (lg_n f)" and "0 < sint (lg_c f)" and "w < nat (sint (lg_c f))"
  shows "sint (worker_count f (word_of_nat w)) =
    sint (lg_n f) div sint (lg_c f) + (if Suc w = nat (sint (lg_c f)) then sint (lg_n f) mod sint (lg_c f) else 0)"
proof -
  let ?n = "sint (lg_n f)" and ?c = "sint (lg_c f)" and ?per = "go_div (lg_n f) (lg_c f)"
  have per: "sint ?per = ?n div ?c" using assms by (simp add: sint_go_div)
  have eq: "?n div ?c * ?c + ?n mod ?c = ?n" by simp
  have nn: "0 \<le> ?n div ?c" "0 \<le> ?n mod ?c" using assms by (simp_all add: pos_imp_zdiv_nonneg_iff)
  have "?n div ?c \<le> ?n div ?c * ?c" using nn(1) assms(2) by (simp add: mult_le_cancel_left1)
  then have bound: "?n div ?c + ?n mod ?c \<le> ?n" using eq by linarith
  have "lg_n f - ?per * lg_c f = word_of_int (?n mod ?c)"
  proof -
    have "(word_of_int (?n mod ?c) :: i64) = word_of_int (?n - sint ?per * ?c)" using per eq by (metis add_diff_cancel_left')
    then show ?thesis by simp
  qed
  moreover have "?per = word_of_int (?n div ?c)" using per by (metis word_of_sint)
  ultimately have last: "?per + (lg_n f - ?per * lg_c f) = word_of_int (?n div ?c + ?n mod ?c)" by simp
  have "sint (word_of_int (?n div ?c + ?n mod ?c) :: i64) = ?n div ?c + ?n mod ?c"
    using bound nn sint_range [of "lg_n f"] by (intro sint_of_int_fits) (simp add: fits_def)
  moreover have "(word_of_nat w = lg_c f - 1) \<longleftrightarrow> Suc w = nat ?c"
  proof -
    have "sint (word_of_nat w :: i64) = int w" using assms(3) sint_range [of "lg_c f"] by (intro sint_of_nat_small) linarith
    moreover have "sint (lg_c f - 1) = ?c - 1"
      using assms(2) sint_range [of "lg_c f"] sint_diff_fits [of "lg_c f" 1] by (simp add: fits_def)
    ultimately have "(word_of_nat w = lg_c f - 1) \<longleftrightarrow> int w = ?c - 1" by (metis word_of_sint)
    then show ?thesis using assms(2,3) by linarith
  qed
  ultimately show ?thesis by (simp add: worker_count_def Let_def last per)
qed

lemma counts_sum:
  assumes "0 < sint (lg_n f)" and "0 < sint (lg_c f)"
  shows "(\<Sum>w\<leftarrow>[0..<nat (sint (lg_c f))]. nat (sint (worker_count f (word_of_nat w)))) = nat (sint (lg_n f))"
proof -
  let ?n = "sint (lg_n f)" and ?c = "sint (lg_c f)"
  obtain k where k: "nat ?c = Suc k" using assms(2) by (cases "nat ?c") auto
  then have c: "?c = int k + 1" by linarith
  let ?q = "nat (?n div ?c)" and ?r = "nat (?n mod ?c)"
  have nn: "0 \<le> ?n div ?c" "0 \<le> ?n mod ?c" using assms by (simp_all add: pos_imp_zdiv_nonneg_iff)
  have v: "nat (sint (worker_count f (word_of_nat w))) = ?q + (if w = k then ?r else 0)" if "w < Suc k" for w
    using worker_count_value [OF assms, of w] that k nn by (simp add: nat_add_distrib)
  have "(\<Sum>w\<leftarrow>[0..<k]. nat (sint (worker_count f (word_of_nat w)))) = (\<Sum>w\<leftarrow>[0..<k]. ?q)"
    using v by (intro arg_cong [of _ _ sum_list] map_cong) simp_all
  then have "(\<Sum>w\<leftarrow>[0..<nat ?c]. nat (sint (worker_count f (word_of_nat w)))) = k * ?q + (?q + ?r)"
    using v [of k] by (simp add: k sum_list_triv)
  also have "int (k * ?q + (?q + ?r)) = ?n div ?c * ?c + ?n mod ?c" using nn by (simp add: c algebra_simps)
  finally show ?thesis by simp
qed

lemma workers_length:
  assumes "0 < sint (lg_n f)" and "0 < sint (lg_c f)"
  shows "length (concat (run_workers m f ctx_done)) \<le> nat (sint (lg_n f))"
    and "\<forall>w i. \<not> ctx_done w i \<Longrightarrow> length (concat (run_workers m f ctx_done)) = nat (sint (lg_n f))"
proof -
  have "length (concat (run_workers m f ctx_done))
      = (\<Sum>w\<leftarrow>[0..<nat (sint (lg_c f))]. length (takeWhile (\<lambda>i. \<not> ctx_done w i) [0..<nat (sint (worker_count f (word_of_nat w)))]))"
    by (simp add: run_workers_def run_worker_def length_concat o_def)
  moreover have "length (takeWhile P [0..<n]) \<le> n" for P n using length_takeWhile_le [of P "[0..<n]"] by simp
  ultimately show "length (concat (run_workers m f ctx_done)) \<le> nat (sint (lg_n f))"
    unfolding counts_sum [OF assms, symmetric] by (simp add: sum_list_mono)
  show "length (concat (run_workers m f ctx_done)) = nat (sint (lg_n f))" if "\<forall>w i. \<not> ctx_done w i"
    using that by (simp add: run_workers_def run_worker_def length_concat o_def takeWhile_eq_all_conv [THEN iffD2] counts_sum [OF assms])
qed

section \<open>The keys\<close>

lemma choose_zipf:
  assumes "0 < sint (lg_cold_keys f)" and "0 < sint (lg_hot_every f)" and "int (i + w) < 2 ^ 63"
  shows "choose_key modeZipf f (word_of_nat w) (word_of_nat i) =
    (if (i + w) mod nat (sint (lg_hot_every f)) \<noteq> 0 then lg_hot_key f
     else ''cold-'' @ nat_digits ((i + w) mod nat (sint (lg_cold_keys f)) + 1))"
proof -
  let ?x = "word_of_nat i + word_of_nat w :: i64" and ?cold = "sint (lg_cold_keys f)"
  have x: "sint ?x = int (i + w)" using sint_of_nat_small [OF assms(3)] by simp
  have md: "sint (go_mod ?x b) = int ((i + w) mod nat (sint b))" if "0 < sint b" for b
    using sint_go_mod [of ?x b] that x by (simp add: zmod_int)
  have z: "go_mod ?x b = 0 \<longleftrightarrow> (i + w) mod nat (sint b) = 0" if "0 < sint b" for b
    using md [OF that] sint_eq_0_iff [of "go_mod ?x b"] by simp
  have "(i + w) mod nat ?cold < nat ?cold" using assms(1) by simp
  then have "int ((i + w) mod nat ?cold) + 1 < 2 ^ 63" using sint_range [of "lg_cold_keys f"] assms(1) by linarith
  then have "sint (go_mod ?x (lg_cold_keys f) + 1) = int ((i + w) mod nat ?cold + 1)"
    using md [OF assms(1)] sint_add_fits [of "go_mod ?x (lg_cold_keys f)" 1] by (simp add: fits_def)
  then have "sprintf_d (go_mod ?x (lg_cold_keys f) + 1) = nat_digits ((i + w) mod nat ?cold + 1)"
    unfolding sprintf_d_def by (simp only: nat_int) simp
  then show ?thesis using z [OF assms(2)] by (simp add: choose_key_def Let_def)
qed

lemma multiples_mod:
  fixes c h x :: nat
  assumes "0 < c" and "h dvd x"
  obtains j where "j < c div gcd c h" and "x mod c = j * gcd c h"
proof -
  have "gcd c h dvd x mod c" using assms(2) by (meson dvd_mod gcd_dvd1 gcd_dvd2 dvd_trans)
  then obtain j where j: "x mod c = j * gcd c h" by (metis dvd_div_mult_self)
  have "j * gcd c h < c" using j assms(1) by (metis mod_less_divisor)
  then have "j < c div gcd c h" by (metis div_less_iff_less_mult dvd_div_mult_self gcd_dvd1 gcd_pos_nat assms(1) not_less_iff_gr_or_eq nonzero_mult_div_cancel_right mult_less_cancel2)
  then show thesis using j by (rule that)
qed

section \<open>Properties\<close>

lemma full_path_hot [simp]: "full_path (f\<lparr>lg_hot_every := h\<rparr>) = full_path f"
  by (simp add: full_path_def split: list.split)

lemma worker_count_le:
  assumes "0 < sint (lg_n f)" and "0 < sint (lg_c f)" and "w < nat (sint (lg_c f))"
  shows "nat (sint (worker_count f (word_of_nat w))) \<le> nat (sint (lg_n f))"
  using counts_sum [OF assms(1,2)] member_le_sum_list [of "nat (sint (worker_count f (word_of_nat w)))"
      "map (\<lambda>w. nat (sint (worker_count f (word_of_nat w)))) [0..<nat (sint (lg_c f))]"] assms(3) by auto

definition zipf_period :: "loadgen_flags \<Rightarrow> nat" where
  "zipf_period f = gcd (nat (sint (lg_cold_keys f))) (nat (max 2 (sint (lg_hot_every f))))"

text \<open>The keys of the skewed mode: the hot one, or a cold one whose number is a multiple of the period.\<close>

lemma zipf_key:
  assumes "0 < sint (lg_cold_keys f)" and "0 < sint (lg_hot_every f)" and "int (i + w) < 2 ^ 63"
    and "nat (sint (lg_hot_every f)) = h" and "nat (sint (lg_cold_keys f)) = c"
    and "k = choose_key modeZipf f (word_of_nat w) (word_of_nat i)"
  shows "k = lg_hot_key f \<or> (\<exists>j < c div gcd c h. k = ''cold-'' @ nat_digits (j * gcd c h + 1))"
proof (cases "(i + w) mod h = 0")
  case True
  have "0 < c" using assms(1,5) by simp
  moreover have "h dvd i + w" using True by (simp add: dvd_eq_mod_eq_0)
  ultimately obtain j where "j < c div gcd c h" "(i + w) mod c = j * gcd c h" by (rule multiples_mod)
  then show ?thesis using choose_zipf [OF assms(1-3)] True assms(4-6) by auto
qed (use choose_zipf [OF assms(1-3)] assms(4-6) in simp)

text \<open>
  C40. The workload of the load generator. Whenever its flags are accepted, every request is a GET of the
  configured path whose query the server parses back to the parameter and the chosen key, whatever bytes
  these consist of. In single mode the key is the configured one; in zipf mode it is the hot key or a cold
  key whose number, counted from zero, is a multiple of the greatest common divisor of \<open>cold_keys\<close> and
  \<open>hot_every\<close>: so at most \<open>cold_keys\<close> divided by it different cold keys occur, ten of fifty with the
  default flags. The workers send at most \<open>n\<close> requests, and exactly \<open>n\<close> when no deadline stops them.
\<close>

theorem loadgen_workload:
  assumes "loadgen_main f ctx_done gomaxprocs elapsed = Inr (ws, out)" and "sint (lg_n f) + sint (lg_c f) < 2 ^ 63"
  shows "length (concat ws) \<le> nat (sint (lg_n f))
    \<and> ((\<forall>w i. \<not> ctx_done w i) \<longrightarrow> length (concat ws) = nat (sint (lg_n f)))
    \<and> (\<forall>(meth, u) \<in> set (concat ws). meth = ''GET'' \<and> (\<exists>q k. u = full_path f @ ''?'' @ q \<and> ParseQuery q = [(lg_param f, k)]
        \<and> (if map to_lower (lg_mode f) = ''single'' then k = lg_key f
           else k = lg_hot_key f \<or> (\<exists>j < nat (sint (lg_cold_keys f)) div zipf_period f. k = ''cold-'' @ nat_digits (j * zipf_period f + 1)))))"
proof -
  obtain m f' where v: "validate f = Inr (m, f')" "ws = run_workers m f' ctx_done"
    using assms(1) by (auto simp: loadgen_main_def split: sum.splits)
  have f': "lg_n f' = lg_n f" "lg_c f' = lg_c f" "full_path f' = full_path f" "lg_param f' = lg_param f" "lg_key f' = lg_key f"
      "lg_hot_key f' = lg_hot_key f" "lg_cold_keys f' = lg_cold_keys f"
    and pos: "0 < sint (lg_n f)" "0 < sint (lg_c f)"
    and m: "m = modeSingle \<and> map to_lower (lg_mode f) = ''single'' \<or> m = modeZipf \<and> map to_lower (lg_mode f) \<noteq> ''single''
      \<and> 0 < sint (lg_cold_keys f) \<and> sint (lg_hot_every f') = max 2 (sint (lg_hot_every f))"
    using v(1)
    by (auto simp: validate_def parse_mode_def full_path_hot Let_def sle_iff slt_iff split: if_splits option.splits)
  have keys: "meth = ''GET'' \<and> (\<exists>q k. u = full_path f @ ''?'' @ q \<and> ParseQuery q = [(lg_param f, k)]
      \<and> (if map to_lower (lg_mode f) = ''single'' then k = lg_key f
         else k = lg_hot_key f \<or> (\<exists>j < nat (sint (lg_cold_keys f)) div zipf_period f. k = ''cold-'' @ nat_digits (j * zipf_period f + 1))))"
    if sent: "(meth, u) \<in> set (concat ws)" for meth u
  proof -
    obtain w i where w: "w < nat (sint (lg_c f))" "i < nat (sint (worker_count f' (word_of_nat w)))"
      and u: "(meth, u) = request_url m f' (word_of_nat w) (word_of_nat i)"
      using sent by (auto simp: v(2) run_workers_def run_worker_def f' dest!: set_takeWhileD)
    let ?k = "choose_key m f' (word_of_nat w) (word_of_nat i)"
    have "if map to_lower (lg_mode f) = ''single'' then ?k = lg_key f
      else ?k = lg_hot_key f \<or> (\<exists>j < nat (sint (lg_cold_keys f)) div zipf_period f. ?k = ''cold-'' @ nat_digits (j * zipf_period f + 1))"
    proof (cases "m = modeSingle")
      case True
      then show ?thesis using m f'(5) by (simp add: choose_key_def)
    next
      case False
      have z: "m = modeZipf" "map to_lower (lg_mode f) \<noteq> ''single''" "0 < sint (lg_cold_keys f')" "0 < sint (lg_hot_every f')"
        "nat (sint (lg_hot_every f')) = nat (max 2 (sint (lg_hot_every f)))" using m False f'(7) by auto
      have "nat (sint (worker_count f' (word_of_nat w))) \<le> nat (sint (lg_n f))"
        using worker_count_le [of f' w] w(1) pos f'(1,2) by simp
      then have "int (i + w) < 2 ^ 63" using w assms(2) pos by linarith
      from zipf_key [OF z(3,4) this z(5) refl refl] show ?thesis using z(1,2) f'(6,7) by (simp add: zipf_period_def)
    qed
    moreover have "meth = ''GET''" "u = full_path f @ ''?'' @ encode_one (lg_param f) ?k"
      using u m by (auto simp: request_url_def f')
    ultimately show ?thesis using ParseQuery_encode by blast
  qed
  have "0 < sint (lg_n f')" "0 < sint (lg_c f')" using pos f'(1,2) by simp_all
  note len = workers_length [OF this, where m = m and ctx_done = ctx_done, unfolded f'(1)]
  show ?thesis using len keys unfolding v(2) by blast
qed

definition zipf_example :: loadgen_flags where
  "zipf_example = loadgen_defaults\<lparr>lg_mode := ''Zipf'', lg_n := 7, lg_c := 2\<rparr>"

theorem loadgen_workload_witness:
  "\<exists>ws out. loadgen_main zipf_example (\<lambda>_ _. False) 4 1 = Inr (ws, out) \<and> length (concat ws) = 7
     \<and> nat (sint (lg_cold_keys zipf_example)) div zipf_period zipf_example = 10
     \<and> (\<forall>(meth, u) \<in> set (concat ws). \<exists>q k. u = full_path zipf_example @ ''?'' @ q \<and> ParseQuery q = [(''api_key'', k)])"
proof -
  have "parse_mode (lg_mode zipf_example) = Some modeZipf" "\<not> lg_n zipf_example \<le>s 0" "\<not> lg_c zipf_example \<le>s 0"
    "\<not> lg_cold_keys zipf_example \<le>s 0" "\<not> lg_hot_every zipf_example <s 2" by code_simp+
  then have "validate zipf_example = Inr (modeZipf, zipf_example)" by (simp add: validate_def)
  then obtain ws out where main: "loadgen_main zipf_example (\<lambda>_ _. False) 4 1 = Inr (ws, out)" by (simp add: loadgen_main_def)
  have f: "sint (lg_n zipf_example) = 7" "sint (lg_c zipf_example) = 2" "lg_param zipf_example = ''api_key''"
    "nat (sint (lg_cold_keys zipf_example)) div zipf_period zipf_example = 10" by code_simp+
  have "sint (lg_n zipf_example) + sint (lg_c zipf_example) < 2 ^ 63" by (simp add: f)
  from loadgen_workload [OF main this] f main show ?thesis by fastforce
qed

end
