(* ===== verification/Clients.thy ===== *)
theory Clients
  imports Persistence JSON_Text "HOL-Library.Char_ord" "HOL-Library.List_Lexorder"
begin

text \<open>
  The contexts of the Postgres adapter (persistence/postgres.go), the Kafka adapter
  (persistence/kafka.go), the demonstration clients of Redis and Kafka
  (persistence/clients.go), which print what they are given, and Redis with a clock, in which the
  markers of the script expire. The clock and the random source are parameters. The production
  client of Redis is a third-party package, of which \<open>redis_client\<close> says what the adapter relies on.
\<close>

section \<open>Contexts\<close>

text \<open>
  A context ends at its deadline or when it is cancelled; times are nanoseconds. The contexts the
  adapters are called with are \<open>None\<close> for nil.
\<close>

record go_context =
  ctx_deadline :: "int option"
  ctx_cancelled :: "int option"

definition Background :: go_context where
  "Background = \<lparr>ctx_deadline = None, ctx_cancelled = None\<rparr>"

definition reached :: "int \<Rightarrow> int option \<Rightarrow> bool" where
  "reached now t = (case t of None \<Rightarrow> False | Some x \<Rightarrow> x \<le> now)"

definition ctx_done :: "int \<Rightarrow> go_context \<Rightarrow> bool" where
  "ctx_done now ctx \<longleftrightarrow> reached now (ctx_deadline ctx) \<or> reached now (ctx_cancelled ctx)"

definition WithTimeout :: "int \<Rightarrow> go_context \<Rightarrow> i64 \<Rightarrow> go_context" where
  "WithTimeout now ctx timeout =
     ctx\<lparr>ctx_deadline := Some (case ctx_deadline ctx of None \<Rightarrow> now + sint timeout | Some d \<Rightarrow> min d (now + sint timeout))\<rparr>"

text \<open>The context of a batch: nil becomes the background, and one without a deadline gets the default timeout.\<close>

definition batch_ctx :: "i64 \<Rightarrow> int \<Rightarrow> go_context option \<Rightarrow> go_context" where
  "batch_ctx timeout now ctx0 =
     (let ctx = (case ctx0 of None \<Rightarrow> Background | Some c \<Rightarrow> c)
      in if ctx_deadline ctx = None \<and> 0 <s timeout then WithTimeout now ctx timeout else ctx)"

section \<open>Postgres with a context\<close>

record PostgresPersister =
  createMissingKeys :: bool
  pp_defaultTimeout :: i64

definition NewPostgresPersister :: "bool \<Rightarrow> PostgresPersister" where
  "NewPostgresPersister create = \<lparr>createMissingKeys = create, pp_defaultTimeout = 10000000000\<rparr>"

text \<open>
  The statements fail when the server says so, and when the context has ended: the transaction
  begins at the first reading of the clock after \<open>now\<close>, each statement takes one, and the commit
  comes at the time of the last.
\<close>

definition pg_CommitBatch_ctx :: "bool \<Rightarrow> bool \<Rightarrow> (nat \<Rightarrow> bool) \<Rightarrow> (nat \<Rightarrow> int) \<Rightarrow> int \<Rightarrow> PostgresPersister
    \<Rightarrow> int \<Rightarrow> go_context option \<Rightarrow> pg_db entry_batch" where
  "pg_CommitBatch_ctx begin_fails commit_fails exec clock commit_time p now ctx0 es db =
     (let ctx = batch_ctx (pp_defaultTimeout p) now ctx0
      in pg_CommitBatch (begin_fails \<or> ctx_done (clock 0) ctx) (commit_fails \<or> ctx_done commit_time ctx)
           (\<lambda>n. exec n \<or> ctx_done (clock (Suc n)) ctx) (createMissingKeys p) es db)"

section \<open>Kafka\<close>

record KafkaPersister =
  kp_topic :: string
  defaultTimeout :: i64

definition NewKafkaPersister :: "string \<Rightarrow> KafkaPersister" where
  "NewKafkaPersister topic = \<lparr>kp_topic = topic, defaultTimeout = 10000000000\<rparr>"

record CommitMessage =
  cm_Key :: string
  cm_Vector :: i64
  cm_CommitID :: string
  cm_FencingToken :: "i64 option"
  TsUnixMs :: i64

text \<open>\<open>json.Marshal\<close> of a message, with the field tags of the struct; it cannot fail on these types.\<close>

definition message_json :: "CommitMessage \<Rightarrow> json" where
  "message_json m =
     JObj ([(''key'', jstr (cm_Key m)), (''vc'', JNum (sprintf_d (cm_Vector m))), (''commit_id'', jstr (cm_CommitID m))]
       @ (case cm_FencingToken m of None \<Rightarrow> [] | Some t \<Rightarrow> [(''fencing_token'', JNum (sprintf_d t))])
       @ [(''ts_unix_ms'', JNum (sprintf_d (TsUnixMs m)))])"

definition Marshal_message :: "CommitMessage \<Rightarrow> string" where
  "Marshal_message m = show_json (message_json m)"

text \<open>What a consumer gets that decodes a message with \<open>json.Unmarshal\<close> into the same struct.\<close>

definition message_field :: "string \<Rightarrow> json \<Rightarrow> CommitMessage \<Rightarrow> CommitMessage option" where
  "message_field k v m =
     (if field_is ''key'' k then map_option (\<lambda>x. m\<lparr>cm_Key := x\<rparr>) (dec_string v (cm_Key m))
      else if field_is ''vc'' k then map_option (\<lambda>x. m\<lparr>cm_Vector := x\<rparr>) (dec_i64 v (cm_Vector m))
      else if field_is ''commit_id'' k then map_option (\<lambda>x. m\<lparr>cm_CommitID := x\<rparr>) (dec_string v (cm_CommitID m))
      else if field_is ''fencing_token'' k then map_option (\<lambda>x. m\<lparr>cm_FencingToken := x\<rparr>) (dec_i64_ptr v (cm_FencingToken m))
      else if field_is ''ts_unix_ms'' k then map_option (\<lambda>x. m\<lparr>TsUnixMs := x\<rparr>) (dec_i64 v (TsUnixMs m))
      else Some m)"

definition Unmarshal_message :: "string \<Rightarrow> CommitMessage option" where
  "Unmarshal_message =
     Unmarshal message_field \<lparr>cm_Key = [], cm_Vector = 0, cm_CommitID = [], cm_FencingToken = None, TsUnixMs = 0\<rparr>"

text \<open>A producer takes a context, a topic, a key, a value and headers.\<close>

type_synonym 'k producer = "go_context \<Rightarrow> string \<Rightarrow> string \<Rightarrow> string \<Rightarrow> (string \<times> string) list \<Rightarrow> 'k \<Rightarrow> bool \<times> 'k"

definition kafka_message :: "i64 \<Rightarrow> CommitEntry \<Rightarrow> CommitMessage" where
  "kafka_message nowMs e = \<lparr>cm_Key = ce_Key e, cm_Vector = ce_Vector e, cm_CommitID = ce_CommitID e,
     cm_FencingToken = ce_FencingToken e, TsUnixMs = nowMs\<rparr>"

fun kafka_entries :: "'k producer \<Rightarrow> go_context \<Rightarrow> string \<Rightarrow> i64 \<Rightarrow> 'k entry_batch" where
  "kafka_entries produce ctx topic nowMs [] k = (None, k)"
| "kafka_entries produce ctx topic nowMs (e # es) k =
     (if ce_CommitID e = '''' then (Some ErrCommitIDMissing, k)
      else case produce ctx topic (ce_CommitID e) (Marshal_message (kafka_message nowMs e))
                  [(''content-type'', ''application/json'')] k of
             (False, k1) \<Rightarrow> (Some (ErrKafkaProduce (ce_Key e) (ce_CommitID e)), k1)
           | (True, k1) \<Rightarrow> kafka_entries produce ctx topic nowMs es k1)"

text \<open>\<open>now\<close> is the time at which the timeout starts, \<open>nowMs\<close> the time stamp of the messages.\<close>

definition kafka_CommitBatch :: "'k producer \<Rightarrow> KafkaPersister \<Rightarrow> int \<Rightarrow> i64 \<Rightarrow> go_context option \<Rightarrow> 'k entry_batch" where
  "kafka_CommitBatch produce p now nowMs ctx0 es k =
     (if es = [] then (None, k)
      else kafka_entries produce (batch_ctx (defaultTimeout p) now ctx0) (kp_topic p) nowMs es k)"

section \<open>The logging clients\<close>

text \<open>Their state is the number of readings of the clock and what was printed.\<close>

type_synonym console = "nat \<times> string"

definition truncate_string :: "string \<Rightarrow> nat \<Rightarrow> string" where
  "truncate_string s n = (if length s \<le> n then s else take n s @ [CHR 0xE2, CHR 0x80, CHR 0xA6])"

fun join_space :: "string list \<Rightarrow> string" where
  "join_space [] = []"
| "join_space [x] = x"
| "join_space (x # xs) = x @ CHR '' '' # join_space xs"

text \<open>The verb \<open>%v\<close> on a slice and on a map, whose keys are printed in order.\<close>

definition fmt_slice :: "string list \<Rightarrow> string" where
  "fmt_slice xs = CHR ''['' # join_space xs @ '']''"

definition fmt_map :: "(string \<times> string) list \<Rightarrow> string" where
  "fmt_map hs = ''map['' @ join_space (map (\<lambda>(k, v). k @ CHR '':'' # v) (sort_key fst hs)) @ '']''"

definition LoggingRedisEvaler_Eval :: "(nat \<Rightarrow> int) \<Rightarrow> go_context \<Rightarrow> nat \<Rightarrow> string list \<Rightarrow> i64 list \<Rightarrow> console \<Rightarrow> i64 option \<times> console" where
  "LoggingRedisEvaler_Eval clock ctx scriptLen keys args = (\<lambda>(n, out).
     if ctx_done (clock n) ctx then (None, (Suc n, out))
     else (Some 1, (Suc n, out @ ''[redis-demo] EVAL script(len='' @ nat_digits scriptLen @ '') KEYS='' @ fmt_slice keys
                           @ '' ARGS='' @ fmt_slice (map sprintf_d args) @ [CHR 0x0A])))"

definition LoggingKafkaProducer_Produce :: "(nat \<Rightarrow> int) \<Rightarrow> console producer" where
  "LoggingKafkaProducer_Produce clock ctx topic key value hdrs = (\<lambda>(n, out).
     if ctx_done (clock n) ctx then (False, (Suc n, out))
     else (True, (Suc n, out @ ''[kafka-demo] TOPIC='' @ topic @ '' KEY='' @ key @ '' VALUE='' @ truncate_string value 256
                         @ '' HEADERS='' @ fmt_map hdrs @ [CHR 0x0A])))"

text \<open>The length of the text of the script in bytes.\<close>

definition redisLuaScript_len :: nat where
  "redisLuaScript_len = 492"

definition logging_evaler :: "(nat \<Rightarrow> int) \<Rightarrow> go_context \<Rightarrow> console evaler" where
  "logging_evaler clock ctx ck mk vector ttlSeconds st =
     (case LoggingRedisEvaler_Eval clock ctx redisLuaScript_len [ck, mk] [vector, ttlSeconds] st of
        (None, st') \<Rightarrow> (False, st') | (Some _, st') \<Rightarrow> (True, st'))"

section \<open>The persisters of the demonstration\<close>

text \<open>
  The two adapters behind the shim as the factory builds them. The shim passes the background
  context; the Kafka adapter reads the clock for its timeout and for the time stamp.
\<close>

definition demo_redis :: "(nat \<Rightarrow> int) \<Rightarrow> (nat \<Rightarrow> u8 list) \<Rightarrow> i64 \<Rightarrow> (nat \<times> console) commit_batch" where
  "demo_redis clock rnd ttl = shim_CommitBatch rnd (redis_CommitBatch (logging_evaler clock Background) ttl)"

definition demo_kafka_entries :: "(nat \<Rightarrow> int) \<Rightarrow> string \<Rightarrow> console entry_batch" where
  "demo_kafka_entries clock topic es = (\<lambda>(n, out).
     kafka_CommitBatch (LoggingKafkaProducer_Produce clock) (NewKafkaPersister topic) (clock n)
       (word_of_int (clock (Suc n) div 1000000)) (Some Background) es (Suc (Suc n), out))"

definition demo_kafka :: "(nat \<Rightarrow> int) \<Rightarrow> (nat \<Rightarrow> u8 list) \<Rightarrow> string \<Rightarrow> (nat \<times> console) commit_batch" where
  "demo_kafka clock rnd topic = shim_CommitBatch rnd (demo_kafka_entries clock topic)"

section \<open>Redis with a clock\<close>

text \<open>
  Keys with an expiry, in milliseconds. An expired key stays until it is overwritten or collected,
  and counts as missing; it is expired when the time has passed its expiry.
\<close>

record timed_redis =
  td_scalars :: "(string \<times> i64) list"
  td_markers :: "(string \<times> int option) list"

definition marker_live :: "int \<Rightarrow> string \<Rightarrow> timed_redis \<Rightarrow> bool" where
  "marker_live now mk db = (case map_of (td_markers db) mk of None \<Rightarrow> False | Some None \<Rightarrow> True | Some (Some t) \<Rightarrow> now \<le> t)"

text \<open>
  The whole script at one instant: \<open>SETNX\<close>, \<open>HINCRBY\<close>, and \<open>EXPIRE\<close> when the number of seconds is
  positive. When \<open>HINCRBY\<close> fails, the script ends with a marker that has no expiry.
\<close>

definition redisLuaScript_at :: "int \<Rightarrow> string \<Rightarrow> string \<Rightarrow> i64 \<Rightarrow> i64 \<Rightarrow> timed_redis \<Rightarrow> bool \<times> timed_redis" where
  "redisLuaScript_at now counterKey markerKey vector ttlSeconds db =
     (if marker_live now markerKey db then (True, db)
      else let db1 = db\<lparr>td_markers := al_update markerKey None (td_markers db)\<rparr>
           in case hincrby counterKey (- sint vector) \<lparr>scalars_of = td_scalars db1, markers = []\<rparr> of
                (False, _) \<Rightarrow> (False, db1)
              | (True, h) \<Rightarrow>
                  let db2 = db1\<lparr>td_scalars := scalars_of h\<rparr>
                  in (True, if 0 <s ttlSeconds
                            then db2\<lparr>td_markers := al_update markerKey (Some (now + 1000 * sint ttlSeconds)) (td_markers db2)\<rparr>
                            else db2))"

text \<open>
  A server reached over a network: the pattern says of each evaluation whether it is delivered, its
  request is lost, or its reply is. With a clock, and without one.
\<close>

datatype fault = Delivered | RequestLost | ReplyLost

definition with_faults :: "(nat \<Rightarrow> fault) \<Rightarrow> (nat \<Rightarrow> 'd \<Rightarrow> bool \<times> 'd) \<Rightarrow> nat \<times> 'd \<Rightarrow> bool \<times> (nat \<times> 'd)" where
  "with_faults faults script = (\<lambda>(n, db).
     if faults n = RequestLost then (False, (Suc n, db))
     else let (ok, db') = script n db in (ok \<and> faults n = Delivered, (Suc n, db')))"

definition timed_evaler :: "(nat \<Rightarrow> fault) \<Rightarrow> (nat \<Rightarrow> int) \<Rightarrow> (nat \<times> timed_redis) evaler" where
  "timed_evaler faults clock ck mk v ttl = with_faults faults (\<lambda>n. redisLuaScript_at (clock n) ck mk v ttl)"

definition faulty_evaler :: "(nat \<Rightarrow> fault) \<Rightarrow> (nat \<times> redis_db) evaler" where
  "faulty_evaler faults ck mk v ttl = with_faults faults (\<lambda>n. redisLuaScript ck mk v ttl)"

interpretation faulty: redis_client "faulty_evaler faults" snd for faults :: "nat \<Rightarrow> fault"
  by unfold_locales (auto simp: faulty_evaler_def with_faults_def split: if_splits prod.splits)

definition timed_scalar :: "timed_redis \<Rightarrow> string \<Rightarrow> i64" where
  "timed_scalar db k = (case map_of (td_scalars db) k of None \<Rightarrow> 0 | Some x \<Rightarrow> x)"

end
