(* ===== verification/Client_Props.thy ===== *)
theory Client_Props
  imports Clients
begin

text \<open>
  What the adapters and their clients do: messages to Kafka are read back, the demonstration
  adapters print one line per commit, and the markers of Redis protect retries while they live.
\<close>

section \<open>Markers that live long enough\<close>

text \<open>
  The simulation between Redis with and without a clock, on the markers of a batch: a marker that was
  set lives at least until \<open>hi\<close>, and one that was not had expired before \<open>lo\<close>.
\<close>

definition marker_sim :: "string set \<Rightarrow> int \<Rightarrow> int \<Rightarrow> timed_redis \<Rightarrow> redis_db \<Rightarrow> bool" where
  "marker_sim ms lo hi td db \<longleftrightarrow>
     td_scalars td = scalars_of db
     \<and> (\<forall>m \<in> ms. if m \<in> set (markers db)
          then \<exists>x. map_of (td_markers td) m = Some x \<and> (\<forall>t. x = Some t \<longrightarrow> hi \<le> t)
          else \<forall>x. map_of (td_markers td) m = Some x \<longrightarrow> (\<exists>t. x = Some t \<and> t < lo))"

lemma marker_simD:
  assumes "marker_sim ms lo hi td db" and "m \<in> ms"
  shows "m \<in> set (markers db) \<Longrightarrow> \<exists>x. map_of (td_markers td) m = Some x \<and> (\<forall>t. x = Some t \<longrightarrow> hi \<le> t)"
    and "m \<notin> set (markers db) \<Longrightarrow> map_of (td_markers td) m = Some x \<Longrightarrow> \<exists>t. x = Some t \<and> t < lo"
proof -
  have "if m \<in> set (markers db)
     then \<exists>x. map_of (td_markers td) m = Some x \<and> (\<forall>t. x = Some t \<longrightarrow> hi \<le> t)
     else \<forall>x. map_of (td_markers td) m = Some x \<longrightarrow> (\<exists>t. x = Some t \<and> t < lo)"
    using assms unfolding marker_sim_def by blast
  then show "m \<in> set (markers db) \<Longrightarrow> \<exists>x. map_of (td_markers td) m = Some x \<and> (\<forall>t. x = Some t \<longrightarrow> hi \<le> t)"
    and "m \<notin> set (markers db) \<Longrightarrow> map_of (td_markers td) m = Some x \<Longrightarrow> \<exists>t. x = Some t \<and> t < lo" by simp_all
qed

lemma marker_sim_live:
  assumes "marker_sim ms lo hi td db" and "m \<in> ms" and "lo \<le> now" and "now \<le> hi"
  shows "marker_live now m td \<longleftrightarrow> m \<in> set (markers db)"
proof (cases "m \<in> set (markers db)")
  case True
  from marker_simD(1) [OF assms(1,2) this] show ?thesis
    using True assms(4) by (auto simp: marker_live_def split: option.split)
next
  case False
  then show ?thesis
    using assms(3) marker_simD(2) [OF assms(1,2) False]
    by (cases "map_of (td_markers td) m") (fastforce simp: marker_live_def)+
qed

lemma hincrby_scalars:
  "hincrby ck d db =
     (let h = hincrby ck d \<lparr>scalars_of = scalars_of db, markers = []\<rparr> in (fst h, db\<lparr>scalars_of := scalars_of (snd h)\<rparr>))"
  by (simp add: hincrby_def redis_scalar_def Let_def)

text \<open>A script that finds no live marker sets it, with an expiry of at least its time to live.\<close>

lemma script_at_new:
  assumes "\<not> marker_live now mk td" and "hincrby ck (- sint v) \<lparr>scalars_of = td_scalars td, markers = []\<rparr> = (k, h)"
    and "redisLuaScript_at now ck mk v sec td = (ok, td')"
  shows "ok = k" and "td_scalars td' = scalars_of h"
    and "\<exists>x. map_of (td_markers td') = (map_of (td_markers td))(mk \<mapsto> x) \<and> (\<forall>t. x = Some t \<longrightarrow> 0 <s sec \<and> t = now + 1000 * sint sec)"
proof -
  have "k \<or> scalars_of h = td_scalars td" using assms(2) by (auto simp: hincrby_def Let_def split: if_splits)
  then show "ok = k" "td_scalars td' = scalars_of h"
    "\<exists>x. map_of (td_markers td') = (map_of (td_markers td))(mk \<mapsto> x) \<and> (\<forall>t. x = Some t \<longrightarrow> 0 <s sec \<and> t = now + 1000 * sint sec)"
    using assms by (cases k; auto simp: redisLuaScript_at_def Let_def fun_eq_iff split: if_splits)+
qed

lemma script_sim:
  assumes "marker_sim ms lo hi td db" and "mk \<in> ms" and "lo \<le> now" "now \<le> hi"
    and "0 <s sec \<Longrightarrow> hi \<le> lo + 1000 * sint sec"
    and "redisLuaScript_at now ck mk v sec td = (ok, td')"
  shows "\<exists>db'. redisLuaScript ck mk v sec db = (ok, db') \<and> marker_sim ms lo hi td' db'"
proof (cases "mk \<in> set (markers db)")
  case True
  then show ?thesis
    using assms(1,6) marker_sim_live [OF assms(1-4)] by (auto simp: redisLuaScript_at_def redisLuaScript_def)
next
  case False
  obtain k h where h: "hincrby ck (- sint v) \<lparr>scalars_of = td_scalars td, markers = []\<rparr> = (k, h)" by fastforce
  have sc: "td_scalars td = scalars_of db" using assms(1) by (simp add: marker_sim_def)
  have "\<not> marker_live now mk td" using marker_sim_live [OF assms(1-4)] False by simp
  note new = script_at_new [OF this h assms(6)]
  obtain x where x: "map_of (td_markers td') = (map_of (td_markers td))(mk \<mapsto> x)" "\<forall>t. x = Some t \<longrightarrow> hi \<le> t"
    using new(3) assms(3,5) by fastforce
  let ?db = "db\<lparr>markers := mk # markers db, scalars_of := scalars_of h\<rparr>"
  have "marker_sim ms lo hi td' ?db"
    unfolding marker_sim_def using new(2) x marker_simD [OF assms(1)] by auto
  moreover have "redisLuaScript ck mk v sec db = (ok, ?db)"
    using False hincrby_scalars [of ck "- sint v" "db\<lparr>markers := mk # markers db\<rparr>"] h sc new(1)
    by (simp add: redisLuaScript_def Let_def)
  ultimately show ?thesis by blast
qed

section \<open>Evaluations, entries and batches\<close>

lemma timed_count: "timed_evaler faults clock ck mk v sec r = (ok, r') \<Longrightarrow> fst r' = Suc (fst r)"
  by (auto simp: timed_evaler_def with_faults_def split: if_splits prod.splits)

lemma timed_entries_count: "redis_entries (timed_evaler faults clock) ttl es r = (err, r') \<Longrightarrow> fst r \<le> fst r'"
proof (induction es arbitrary: r)
  case (Cons e es)
  obtain ok r1 where ev: "timed_evaler faults clock (RedisCounterKey (ce_Key e)) (entry_marker e) (ce_Vector e) (ttlSeconds_of ttl) r = (ok, r1)"
    by (rule prod.exhaust)
  from Cons.prems Cons.IH [of r1] timed_count [OF ev] show ?case
    by (cases ok) (auto simp: ev split: if_splits)
qed simp

abbreviation run_sim :: "string set \<Rightarrow> int \<Rightarrow> int \<Rightarrow> nat \<times> timed_redis \<Rightarrow> nat \<times> redis_db \<Rightarrow> bool" where
  "run_sim ms lo hi r q \<equiv> fst q = fst r \<and> marker_sim ms lo hi (snd r) (snd q)"

lemma eval_sim:
  assumes "run_sim ms lo hi r q" and "mk \<in> ms" and "lo \<le> clock (fst r)" "clock (fst r) \<le> hi"
    and "0 <s sec \<Longrightarrow> hi \<le> lo + 1000 * sint sec"
    and "timed_evaler faults clock ck mk v sec r = (ok, r')"
  shows "\<exists>q'. faulty_evaler faults ck mk v sec q = (ok, q') \<and> run_sim ms lo hi r' q'"
proof -
  obtain n td db where rq: "r = (n, td)" "q = (n, db)" "marker_sim ms lo hi td db" "lo \<le> clock n" "clock n \<le> hi"
    using assms(1,3,4) by (cases r; cases q; simp)
  obtain k td' where run: "redisLuaScript_at (clock n) ck mk v sec td = (k, td')" by fastforce
  from script_sim [OF rq(3) assms(2) rq(4,5) assms(5) run] obtain db'
    where "redisLuaScript ck mk v sec db = (k, db')" "marker_sim ms lo hi td' db'" by blast
  then show ?thesis
    using assms(6) run rq(1-3) by (auto simp: timed_evaler_def faulty_evaler_def with_faults_def split: if_splits)
qed

lemma entries_sim:
  assumes "\<And>n. n < N \<Longrightarrow> lo \<le> clock n \<and> clock n \<le> hi"
    and "0 <s ttlSeconds_of ttl \<Longrightarrow> hi \<le> lo + 1000 * sint (ttlSeconds_of ttl)"
    and "entry_marker ` set es \<subseteq> ms" and "run_sim ms lo hi r q"
    and "redis_entries (timed_evaler faults clock) ttl es r = (err, r')" and "fst r' \<le> N"
  shows "\<exists>q'. redis_entries (faulty_evaler faults) ttl es q = (err, q') \<and> run_sim ms lo hi r' q'"
  using assms(3-6)
proof (induction es arbitrary: r q)
  case (Cons e es)
  show ?case
  proof (cases "ce_CommitID e = []")
    case True
    then show ?thesis using Cons.prems by auto
  next
    case False
    obtain ok r1 where ev: "timed_evaler faults clock (RedisCounterKey (ce_Key e)) (entry_marker e) (ce_Vector e) (ttlSeconds_of ttl) r = (ok, r1)"
      by (rule prod.exhaust)
    have "fst r1 \<le> fst r'"
      using Cons.prems(3) False ev timed_entries_count by (cases ok) auto
    then have n: "fst r < N" using timed_count [OF ev] Cons.prems(4) by simp
    obtain q1 where q1: "faulty_evaler faults (RedisCounterKey (ce_Key e)) (entry_marker e) (ce_Vector e) (ttlSeconds_of ttl) q = (ok, q1)"
      "run_sim ms lo hi r1 q1"
      using eval_sim [OF Cons.prems(2) _ _ _ assms(2) ev] Cons.prems(1) assms(1) [OF n] by auto
    show ?thesis
    proof (cases ok)
      case True
      then have "redis_entries (timed_evaler faults clock) ttl es r1 = (err, r')" using Cons.prems(3) False ev by simp
      from Cons.IH [OF _ q1(2) this Cons.prems(4)] Cons.prems(1) show ?thesis using False True q1(1) by simp
    next
      case no: False
      then show ?thesis using Cons.prems(3) False ev q1 by simp
    qed
  qed
qed simp

lemma batch_sim:
  assumes "\<And>n. n < N \<Longrightarrow> lo \<le> clock n \<and> clock n \<le> hi"
    and "0 <s ttlSeconds_of (redis_markerTTL ttl) \<Longrightarrow> hi \<le> lo + 1000 * sint (ttlSeconds_of (redis_markerTTL ttl))"
    and "run_sim (entry_marker ` set es) lo hi r q"
    and "redis_CommitBatch (timed_evaler faults clock) ttl es r = (err, r')" and "fst r' \<le> N"
  shows "\<exists>q'. redis_CommitBatch (faulty_evaler faults) ttl es q = (err, q') \<and> run_sim (entry_marker ` set es) lo hi r' q'"
proof (cases "es = []")
  case False
  then have run: "redis_entries (timed_evaler faults clock) (redis_markerTTL ttl) es r = (err, r')"
    using assms(4) by (simp add: redis_CommitBatch_def)
  from entries_sim [where N = N, OF assms(1,2) subset_refl assms(3) run assms(5)] show ?thesis
    using False by (simp add: redis_CommitBatch_def)
qed (use assms(3,4) in \<open>auto simp: redis_CommitBatch_def\<close>)

lemma batch_count: "redis_CommitBatch (timed_evaler faults clock) ttl es r = (err, r') \<Longrightarrow> fst r \<le> fst r'"
  using timed_entries_count by (auto simp: redis_CommitBatch_def split: if_splits)

lemma retries_sim:
  assumes "\<And>n. n < N \<Longrightarrow> lo \<le> clock n \<and> clock n \<le> hi"
    and "0 <s ttlSeconds_of (redis_markerTTL ttl) \<Longrightarrow> hi \<le> lo + 1000 * sint (ttlSeconds_of (redis_markerTTL ttl))"
    and "run_sim (entry_marker ` set es) lo hi r0 q0"
    and "(\<lambda>r r'. \<exists>err. redis_CommitBatch (timed_evaler faults clock) ttl es r = (err, r'))\<^sup>*\<^sup>* r0 r1" and "fst r1 \<le> N"
  shows "\<exists>q1. (\<lambda>q q'. \<exists>err. redis_CommitBatch (faulty_evaler faults) ttl es q = (err, q'))\<^sup>*\<^sup>* q0 q1
    \<and> run_sim (entry_marker ` set es) lo hi r1 q1"
  using assms(4,5)
proof (induction rule: rtranclp_induct)
  case base
  then show ?case using assms(3) by blast
next
  case (step r r')
  then obtain err where run: "redis_CommitBatch (timed_evaler faults clock) ttl es r = (err, r')" by blast
  then have "fst r \<le> N" using batch_count step.prems by (meson order_trans)
  then obtain q where q: "(\<lambda>q q'. \<exists>err. redis_CommitBatch (faulty_evaler faults) ttl es q = (err, q'))\<^sup>*\<^sup>* q0 q"
    "run_sim (entry_marker ` set es) lo hi r q" using step.IH by blast
  from batch_sim [OF assms(1,2) q(2) run step.prems] obtain q'
    where "redis_CommitBatch (faulty_evaler faults) ttl es q = (err, q')" "run_sim (entry_marker ` set es) lo hi r' q'" by blast
  then show ?case using q(1) by (blast intro: rtranclp.rtrancl_into_rtrancl)
qed

text \<open>
  C35. Markers that expire still give exactly-once, as long as retries end in time. Redis drops a
  marker some seconds after its script. Take a batch whose markers are distinct and not live at the
  first evaluation, whose vectors are exact and whose counters have room, and call the adapter with
  it until a call succeeds; requests and replies may be lost at any evaluation. If the clock never
  goes back and every evaluation happens within the time to live after the first, every counter
  changes by exactly the sum of its vectors. Without a positive time to live there is no limit.
\<close>

theorem redis_expiry_exactly_once:
  assumes "inj_on (\<lambda>e. RedisCommitMarkerKey (ce_Key e) (ce_CommitID e)) (set es)"
    and "\<And>e. e \<in> set es \<Longrightarrow> exact_vector (ce_Vector e)"
    and "\<And>e. e \<in> set es \<Longrightarrow> \<not> marker_live (clock 0) (RedisCommitMarkerKey (ce_Key e) (ce_CommitID e)) db0"
    and "\<And>k. \<bar>sint (timed_scalar db0 (RedisCounterKey k))\<bar> + 2 * (\<Sum>e \<in> set es. \<bar>sint (ce_Vector e)\<bar>) < 2 ^ 63"
    and "mono clock"
    and "\<And>n. 0 <s ttlSeconds_of (redis_markerTTL ttl) \<Longrightarrow> n < fst r2 \<Longrightarrow>
          clock n \<le> clock 0 + 1000 * sint (ttlSeconds_of (redis_markerTTL ttl))"
    and "(\<lambda>r r'. \<exists>err. redis_CommitBatch (timed_evaler faults clock) ttl es r = (err, r'))\<^sup>*\<^sup>* (0, db0) r1"
    and "redis_CommitBatch (timed_evaler faults clock) ttl es r1 = (None, r2)"
  shows "sint (timed_scalar (snd r2) (RedisCounterKey k)) =
    sint (timed_scalar db0 (RedisCounterKey k)) - (\<Sum>e \<in> {e \<in> set es. ce_Key e = k}. sint (ce_Vector e))"
proof -
  let ?sec = "ttlSeconds_of (redis_markerTTL ttl)" and ?ms = "entry_marker ` set es"
  let ?q0 = "(0 :: nat, \<lparr>scalars_of = td_scalars db0, markers = []\<rparr>)"
  define hi where "hi = (if 0 <s ?sec then clock 0 + 1000 * sint ?sec else clock (fst r2))"
  have lim: "clock 0 \<le> clock n \<and> clock n \<le> hi" if "n < fst r2" for n
    using that assms(5,6) by (auto simp: hi_def mono_def)
  have hi: "0 <s ?sec \<Longrightarrow> hi \<le> clock 0 + 1000 * sint ?sec" by (simp add: hi_def)
  have scalar: "redis_scalar db = timed_scalar td" if "scalars_of db = td_scalars td" for db td
    using that by (simp add: fun_eq_iff redis_scalar_def timed_scalar_def)
  have "\<exists>t. x = Some t \<and> t < clock 0" if "e \<in> set es" "map_of (td_markers db0) (entry_marker e) = Some x" for e x
    using assms(3) [OF that(1)] that(2) by (cases x) (auto simp: marker_live_def)
  then have "run_sim ?ms (clock 0) hi (0, db0) ?q0" by (auto simp: marker_sim_def)
  then obtain q1 where q1: "(\<lambda>q q'. \<exists>err. redis_CommitBatch (faulty_evaler faults) ttl es q = (err, q'))\<^sup>*\<^sup>* ?q0 q1"
    "run_sim ?ms (clock 0) hi r1 q1"
    using retries_sim [where N = "fst r2", OF lim hi _ assms(7)] batch_count [OF assms(8)] by blast
  obtain q2 where q2: "redis_CommitBatch (faulty_evaler faults) ttl es q1 = (None, q2)" "run_sim ?ms (clock 0) hi r2 q2"
    using batch_sim [where N = "fst r2", OF lim hi q1(2) assms(8)] by blast
  have "sint (redis_scalar (snd q2) (RedisCounterKey k)) =
    sint (redis_scalar (snd ?q0) (RedisCounterKey k)) - (\<Sum>e \<in> {e \<in> set es. ce_Key e = k}. sint (ce_Vector e))"
    using assms(1,2,4) scalar [of "snd ?q0" db0] by (intro faulty.retry_exactly_once [OF _ _ _ _ q1(1) q2(1)]) simp_all
  then show ?thesis
    using q2(2) scalar [of "snd ?q0" db0] scalar [of "snd q2" "snd r2"] by (simp add: marker_sim_def)
qed

definition empty_timed :: timed_redis where
  "empty_timed = \<lparr>td_scalars = [], td_markers = []\<rparr>"

theorem redis_expiry_exactly_once_witness:
  "let es = [example_entry ''a'' ''1'' 5]; eval = timed_evaler (\<lambda>n. if n = 0 then ReplyLost else Delivered) (\<lambda>n. 1000 * int (min n 1))
   in sint (timed_scalar (snd (snd (redis_CommitBatch eval 2000000000 es (snd (redis_CommitBatch eval 2000000000 es (0, empty_timed))))))
        (RedisCounterKey ''a'')) = - 5"
proof -
  let ?es = "[example_entry ''a'' ''1'' 5]" and ?clock = "\<lambda>n. 1000 * int (min n 1)"
  let ?eval = "timed_evaler (\<lambda>n. if n = 0 then ReplyLost else Delivered) ?clock"
  let ?r1 = "snd (redis_CommitBatch ?eval 2000000000 ?es (0, empty_timed))"
  let ?r2 = "snd (redis_CommitBatch ?eval 2000000000 ?es ?r1)"
  have run: "(\<lambda>r r'. \<exists>err. redis_CommitBatch ?eval 2000000000 ?es r = (err, r'))\<^sup>*\<^sup>* (0, empty_timed) ?r1"
    by (rule r_into_rtranclp) (metis prod.collapse)
  have "fst (redis_CommitBatch ?eval 2000000000 ?es ?r1) = None" by code_simp
  then have ok: "redis_CommitBatch ?eval 2000000000 ?es ?r1 = (None, ?r2)" by (metis prod.collapse)
  have sec: "ttlSeconds_of (redis_markerTTL 2000000000) = 2" by code_simp
  have inj: "inj_on (\<lambda>e. RedisCommitMarkerKey (ce_Key e) (ce_CommitID e)) (set ?es)" by simp
  have zero: "timed_scalar empty_timed c = 0" for c by (simp add: timed_scalar_def empty_timed_def)
  have ev: "exact_vector (ce_Vector e)" if "e \<in> set ?es" for e
    using that by (auto simp: example_entry_def exact_vector_def)
  have fit: "\<bar>sint (timed_scalar empty_timed (RedisCounterKey k))\<bar> + 2 * (\<Sum>e \<in> set ?es. \<bar>sint (ce_Vector e)\<bar>) < 2 ^ 63" for k
    unfolding zero by code_simp
  have new: "\<not> marker_live (?clock 0) m empty_timed" for m by (simp add: marker_live_def empty_timed_def)
  have mono: "mono ?clock" by (auto simp: mono_def)
  have "?clock n \<le> ?clock 0 + 1000 * sint (ttlSeconds_of (redis_markerTTL 2000000000))" for n by (simp add: sec)
  note all = redis_expiry_exactly_once [OF inj ev new fit mono this run ok, of "''a''"]
  have "{e \<in> set ?es. ce_Key e = ''a''} = {example_entry ''a'' ''1'' 5}" by (auto simp: example_entry_def)
  then show ?thesis using all zero by (simp add: example_entry_def)
qed

text \<open>
  After the time to live the guarantee is gone: the reply of the first evaluation is lost, the caller
  tries again three seconds later with a time to live of two, and the vector is taken twice. And a
  time to live under one second counts as none: the marker never expires.
\<close>

lemma expired_retry_applies_twice:
  "let es = [example_entry ''a'' ''1'' 5]; eval = timed_evaler (\<lambda>n. if n = 0 then ReplyLost else Delivered) (\<lambda>n. 3000 * int n)
   in timed_scalar (snd (snd (redis_CommitBatch eval 2000000000 es (snd (redis_CommitBatch eval 2000000000 es (0, empty_timed))))))
        (RedisCounterKey ''a'') = - 10"
  by code_simp

lemma subsecond_marker_is_permanent:
  "let es = [example_entry ''a'' ''1'' 5]; eval = timed_evaler (\<lambda>_. Delivered) (\<lambda>n. int n)
   in td_markers (snd (snd (redis_CommitBatch eval 999999999 es (0, empty_timed)))) = [(''commit:a:1'', None)]"
  by code_simp

text \<open>
  The marker of a key and an identifier is unambiguous while identifiers have no colon, as those of
  the shim, which are hexadecimal. With other identifiers two commits may share a marker, and the
  second one is dropped.
\<close>

lemma marker_unambiguous:
  assumes "CHR '':'' \<notin> set i" and "CHR '':'' \<notin> set j" and "RedisCommitMarkerKey a i = RedisCommitMarkerKey b j"
  shows "a = b \<and> i = j"
proof -
  have "a @ CHR '':'' # i = b @ CHR '':'' # j" using assms(3) by (simp add: RedisCommitMarkerKey_def)
  from arg_cong [OF this, of rev] have "rev i @ CHR '':'' # rev a = rev j @ CHR '':'' # rev b" by simp
  moreover have "takeWhile (\<lambda>c. c \<noteq> CHR '':'') (rev k @ CHR '':'' # s) = rev k" if "CHR '':'' \<notin> set k" for k s
    using that by (subst takeWhile_append2) auto
  ultimately have "rev i = rev j" using assms(1,2) by metis
  with \<open>a @ _ = _\<close> show ?thesis by simp
qed

lemma randomID_no_colon: "CHR '':'' \<notin> set (randomID bs)"
proof -
  have "hex_digit n \<noteq> CHR '':''" if "n < 16" for n
  proof
    assume "hex_digit n = CHR '':''"
    then have "of_char (hex_digit n) = (58 :: nat)" by simp
    then show False using that by (auto simp: hex_digit_def split: if_splits)
  qed
  moreover have "unat b div 16 < 16" for b :: u8
  proof -
    have "unat b < 2 ^ LENGTH(8)" by (rule unsigned_less)
    then show ?thesis by (simp add: less_mult_imp_div_less)
  qed
  ultimately have "CHR '':'' \<noteq> hex_digit (unat b div 16)" "CHR '':'' \<noteq> hex_digit (unat b mod 16)" for b :: u8
    by (metis, metis mod_less_divisor zero_less_numeral)
  then show ?thesis by (auto simp: randomID_def)
qed

lemma marker_collision:
  "let es = [example_entry ''a:b'' ''c'' 5, example_entry ''a'' ''b:c'' 7]; r = redis_CommitBatch (lua_evaler (\<lambda>_. False)) 0 es (0, empty_redis)
   in fst r = None \<and> redis_scalar (snd (snd r)) (RedisCounterKey ''a'') = 0"
  by code_simp

text \<open>A Postgres batch that does not commit before its deadline changes nothing.\<close>

lemma postgres_deadline:
  assumes "pg_CommitBatch_ctx bf cf exec clock commit_time (NewPostgresPersister create) now None es db = (err, db')"
    and "es \<noteq> []" and "now + 10000000000 \<le> commit_time"
  shows "err \<noteq> None \<and> db' = db"
proof -
  have "(0 :: i64) <s 10000000000" by code_simp
  then have "ctx_done commit_time (batch_ctx 10000000000 now None)"
    using assms(3) by (simp add: batch_ctx_def ctx_done_def reached_def WithTimeout_def Background_def)
  then show ?thesis
    using assms(1,2) unfolding pg_CommitBatch_ctx_def NewPostgresPersister_def
    by (auto simp: pg_CommitBatch_def Let_def split: if_splits option.splits sum.splits)
qed

section \<open>Messages\<close>

lemma message_field_names [simp]:
  "field_is ''key'' ''key''" "field_is ''vc'' ''vc''" "field_is ''commit_id'' ''commit_id''"
  "field_is ''fencing_token'' ''fencing_token''" "field_is ''ts_unix_ms'' ''ts_unix_ms''"
  "\<not> field_is ''key'' ''vc''" "\<not> field_is ''key'' ''commit_id''" "\<not> field_is ''key'' ''fencing_token''"
  "\<not> field_is ''key'' ''ts_unix_ms''" "\<not> field_is ''vc'' ''commit_id''" "\<not> field_is ''vc'' ''fencing_token''"
  "\<not> field_is ''vc'' ''ts_unix_ms''" "\<not> field_is ''commit_id'' ''fencing_token''"
  "\<not> field_is ''commit_id'' ''ts_unix_ms''" "\<not> field_is ''fencing_token'' ''ts_unix_ms''"
  by code_simp+

lemma message_numbers [simp]:
  "dec_i64 (JNum (sprintf_d x)) old = Some x" "dec_i64_ptr (JNum (sprintf_d x)) old' = Some (Some x)"
  by (simp_all add: dec_i64_def dec_i64_ptr_def)

lemma scans_message: "scans 1 (message_json m)"
proof -
  have "plain_key ''key''" "plain_key ''vc''" "plain_key ''commit_id''" "plain_key ''fencing_token''" "plain_key ''ts_unix_ms''"
    by code_simp+
  then show ?thesis
    unfolding message_json_def One_nat_def
    by (intro scans_obj) (auto simp: scans_jstr scans_int split: option.splits)
qed

text \<open>
  C37. Kafka messages are read back. Decoding the bytes that the adapter produces for a message gives
  the message, with the fencing token present exactly when it was set, except that every byte of the
  key or the commit identifier that belongs to no UTF-8 character has become the replacement
  character; strings of valid UTF-8 come back unchanged.
\<close>

theorem kafka_message_roundtrip:
  "Unmarshal_message (Marshal_message m) =
     Some (m\<lparr>cm_Key := if valid_utf8 (cm_Key m) then cm_Key m else to_valid (cm_Key m),
             cm_CommitID := if valid_utf8 (cm_CommitID m) then cm_CommitID m else to_valid (cm_CommitID m)\<rparr>)"
proof -
  have "parse_json (Marshal_message m) = Some (message_json m)"
    unfolding Marshal_message_def by (rule parse_show [OF scans_message]) (simp add: maxNestingDepth_def)
  then show ?thesis
    by (cases m) (auto simp: Unmarshal_message_def Unmarshal_def message_json_def dec_struct_def message_field_def
        to_valid_valid split: option.splits)
qed

text \<open>Different keys may then give the same message: the key of a request is any sequence of bytes.\<close>

lemma invalid_keys_collide:
  "Marshal_message (kafka_message t (example_entry [CHR 0xFF] i v)) = Marshal_message (kafka_message t (example_entry [CHR 0xFE] i v))"
proof -
  have "json_quote [CHR 0xFF] = json_quote [CHR 0xFE]" by code_simp
  then show ?thesis by (simp add: Marshal_message_def message_json_def kafka_message_def example_entry_def jstr_def)
qed

section \<open>The demonstration adapters\<close>

definition redis_line :: "i64 \<Rightarrow> CommitEntry \<Rightarrow> string" where
  "redis_line ttl e = ''[redis-demo] EVAL script(len=492) KEYS=[counter:'' @ ce_Key e @ '' commit:'' @ ce_Key e @ '':''
     @ ce_CommitID e @ ''] ARGS=['' @ sprintf_d (ce_Vector e) @ '' '' @ sprintf_d (ttlSeconds_of (redis_markerTTL ttl)) @ '']'' @ [CHR 0x0A]"

definition kafka_line :: "string \<Rightarrow> i64 \<Rightarrow> CommitEntry \<Rightarrow> string" where
  "kafka_line topic nowMs e = ''[kafka-demo] TOPIC='' @ topic @ '' KEY='' @ ce_CommitID e @ '' VALUE=''
     @ truncate_string (Marshal_message (kafka_message nowMs e)) 256 @ '' HEADERS=map[content-type:application/json]'' @ [CHR 0x0A]"

lemma shimEntries_ids: "e \<in> set (shimEntries rnd r cs) \<Longrightarrow> (\<And>i. rnd i \<noteq> []) \<Longrightarrow> ce_CommitID e \<noteq> ''''"
proof (induction rnd r cs rule: shimEntries.induct)
  case (2 rnd n c cs)
  have "randomID (rnd n) \<noteq> ''''" using 2(3) [of n] by (cases "rnd n") (simp_all add: randomID_def)
  then show ?case using 2 by auto
qed simp

lemma length_shimEntries [simp]: "length (shimEntries rnd r cs) = length cs"
  by (induction rnd r cs rule: shimEntries.induct) simp_all

lemma logging_eval:
  "logging_evaler clock Background (RedisCounterKey (ce_Key e)) (entry_marker e) (ce_Vector e) (ttlSeconds_of (redis_markerTTL ttl)) (n, out) =
     (True, (Suc n, out @ redis_line ttl e))"
proof -
  have "nat_digits 492 = ''492''" by code_simp
  then show ?thesis
    by (simp add: logging_evaler_def LoggingRedisEvaler_Eval_def ctx_done_def reached_def Background_def redis_line_def
        redisLuaScript_len_def fmt_slice_def RedisCounterKey_def RedisCommitMarkerKey_def)
qed

lemma redis_entries_logged:
  "\<forall>e \<in> set es. ce_CommitID e \<noteq> '''' \<Longrightarrow>
   redis_entries (logging_evaler clock Background) (redis_markerTTL ttl) es (n, out) =
     (None, (n + length es, out @ concat (map (redis_line ttl) es)))"
  by (induction es arbitrary: n out) (simp_all add: logging_eval)

text \<open>
  The demonstration of Redis accepts every batch: it prints one line per commit, in order, and no
  counter is kept anywhere.
\<close>

lemma demo_redis_accepts:
  assumes "\<And>i. rnd i \<noteq> []" and "cs \<noteq> []"
  shows "demo_redis clock rnd ttl cs (r, n, out) =
    (True, (r + length cs, n + length cs, out @ concat (map (redis_line ttl) (shimEntries rnd r cs))))"
proof -
  have "shimEntries rnd r cs \<noteq> []" using assms(2) by (cases cs) simp_all
  then show ?thesis
    using redis_entries_logged [of "shimEntries rnd r cs" clock ttl n out] shimEntries_ids assms
    by (simp add: demo_redis_def shim_CommitBatch_def redis_CommitBatch_def)
qed

lemma logging_produce:
  "LoggingKafkaProducer_Produce clock ctx topic (ce_CommitID e) (Marshal_message (kafka_message nowMs e))
       [(''content-type'', ''application/json'')] (n, out) =
     (if ctx_done (clock n) ctx then (False, (Suc n, out)) else (True, (Suc n, out @ kafka_line topic nowMs e)))"
  by (simp add: LoggingKafkaProducer_Produce_def kafka_line_def fmt_map_def)

lemma kafka_entries_logged:
  assumes "\<forall>e \<in> set es. ce_CommitID e \<noteq> ''''"
    and "kafka_entries (LoggingKafkaProducer_Produce clock) ctx topic nowMs es (n, out) = (err, n', out')"
  shows "\<exists>m \<le> length es. out' = out @ concat (map (kafka_line topic nowMs) (take m es))
    \<and> (err = None \<longleftrightarrow> m = length es) \<and> (\<forall>i < m. \<not> ctx_done (clock (n + i)) ctx)
    \<and> (m < length es \<longrightarrow> ctx_done (clock (n + m)) ctx)"
  using assms
proof (induction es arbitrary: n out)
  case (Cons e es)
  show ?case
  proof (cases "ctx_done (clock n) ctx")
    case True
    then have "out' = out" "err \<noteq> None" using Cons.prems by (auto simp: logging_produce)
    then show ?thesis using True by (intro exI [of _ 0]) auto
  next
    case False
    then have "kafka_entries (LoggingKafkaProducer_Produce clock) ctx topic nowMs es (Suc n, out @ kafka_line topic nowMs e) = (err, n', out')"
      using Cons.prems by (simp add: logging_produce)
    from Cons.IH [OF _ this] Cons.prems(1) have "\<exists>m \<le> length es.
        out' = (out @ kafka_line topic nowMs e) @ concat (map (kafka_line topic nowMs) (take m es))
        \<and> (err = None \<longleftrightarrow> m = length es) \<and> (\<forall>i < m. \<not> ctx_done (clock (Suc n + i)) ctx)
        \<and> (m < length es \<longrightarrow> ctx_done (clock (Suc n + m)) ctx)" by simp
    then obtain m where "m \<le> length es"
      "out' = (out @ kafka_line topic nowMs e) @ concat (map (kafka_line topic nowMs) (take m es))" "err = None \<longleftrightarrow> m = length es"
      "\<forall>i < m. \<not> ctx_done (clock (Suc n + i)) ctx" "m < length es \<longrightarrow> ctx_done (clock (Suc n + m)) ctx" by blast
    then show ?thesis using False by (intro exI [of _ "Suc m"]) (auto simp: less_Suc_eq_0_disj)
  qed
qed simp

text \<open>
  A Kafka batch is produced in order up to its deadline. The demonstration producer publishes a
  prefix of the commits of a batch, one line each, all under the time stamp of the batch; the prefix
  ends with the batch, in which case the call succeeds, or before the first commit that comes up ten
  seconds or more after the call began, in which case it fails with the prefix already published.
\<close>

theorem kafka_deadline_prefix:
  assumes "\<And>i. rnd i \<noteq> []" and "cs \<noteq> []"
    and "demo_kafka clock rnd topic cs (r, n, out) = (ok, r', n', out')"
  shows "\<exists>m \<le> length cs.
    out' = out @ concat (map (kafka_line topic (word_of_int (clock (n + 1) div 1000000))) (take m (shimEntries rnd r cs)))
    \<and> (ok \<longleftrightarrow> m = length cs) \<and> (\<forall>i < m. clock (n + 2 + i) < clock n + 10000000000)
    \<and> (m < length cs \<longrightarrow> clock n + 10000000000 \<le> clock (n + 2 + m)) \<and> r' = r + length cs"
proof -
  let ?es = "shimEntries rnd r cs" and ?ms = "word_of_int (clock (n + 1) div 1000000)"
    and ?ctx = "WithTimeout (clock n) Background 10000000000"
  have done_: "ctx_done t ?ctx \<longleftrightarrow> clock n + 10000000000 \<le> t" for t
    by (simp add: ctx_done_def reached_def WithTimeout_def Background_def)
  obtain err s' where run: "kafka_entries (LoggingKafkaProducer_Produce clock) ?ctx topic ?ms ?es (n + 2, out) = (err, s')"
    by (rule prod.exhaust)
  have "?es \<noteq> []" using assms(2) by (cases cs) simp_all
  moreover have "ctx_deadline Background = None" by (simp add: Background_def)
  moreover have "(0 :: i64) <s 10000000000" by code_simp
  ultimately have "demo_kafka clock rnd topic cs (r, n, out) = (err = None, (r + length cs, s'))"
    using run assms(2) by (simp add: demo_kafka_def demo_kafka_entries_def shim_CommitBatch_def kafka_CommitBatch_def batch_ctx_def NewKafkaPersister_def)
  then have s': "s' = (n', out')" "ok \<longleftrightarrow> err = None" "r' = r + length cs" using assms(3) by auto
  have ids: "\<forall>e \<in> set ?es. ce_CommitID e \<noteq> ''''" using shimEntries_ids assms(1) by blast
  from kafka_entries_logged [OF ids run [unfolded s'(1)]] s'(2,3) show ?thesis
    by (simp add: done_ not_le)
qed

theorem kafka_deadline_prefix_witness:
  "let cs = [\<lparr>Key = ''a'', Vector = 5\<rparr>, \<lparr>Key = ''b'', Vector = 7\<rparr>]
   in \<exists>m \<le> length cs. snd (snd (snd (demo_kafka (\<lambda>n. 4000000000 * int n) (\<lambda>n. [word_of_nat n]) ''t'' cs (0, 0, [])))) =
        concat (map (kafka_line ''t'' 4000) (take m (shimEntries (\<lambda>n. [word_of_nat n]) 0 cs))) \<and> m = 1"
proof -
  let ?cs = "[\<lparr>Key = ''a'', Vector = 5\<rparr>, \<lparr>Key = ''b'', Vector = 7\<rparr>]" and ?rnd = "\<lambda>n. [word_of_nat n] :: u8 list"
    and ?clock = "\<lambda>n. 4000000000 * int n"
  obtain ok r' n' out' where b: "demo_kafka ?clock ?rnd ''t'' ?cs (0, 0, []) = (ok, r', n', out')" by (metis prod.exhaust)
  have "?rnd i \<noteq> []" for i by simp
  from kafka_deadline_prefix [OF this _ b] obtain m where m: "m \<le> length ?cs"
    "out' = [] @ concat (map (kafka_line ''t'' (word_of_int (?clock (0 + 1) div 1000000))) (take m (shimEntries ?rnd 0 ?cs)))"
    "\<forall>i < m. ?clock (0 + 2 + i) < ?clock 0 + 10000000000" "m < length ?cs \<longrightarrow> ?clock 0 + 10000000000 \<le> ?clock (0 + 2 + m)"
    by blast
  have "m = 1" using m(1) m(3) [rule_format, of 1] m(4) by (cases m) (auto simp: le_Suc_eq)
  then show ?thesis unfolding Let_def using b m(2) by (intro exI [of _ 1]) simp
qed

end
