(* ===== verification/Spec2Isabelle.thy ===== *)
theory Spec2Isabelle
  imports Thread_Props Worker_Races Exporter_Props TFD_Sim_Props Loadgen_Props Client_Props
begin

text \<open>
  The VSA rate limiter: a model of the Go sources, and the properties that make it correct.

  \<^bold>\<open>The program.\<close> A VSA (vsa.go) counts against a budget: a scalar, and a vector of uncommitted
  changes spread over stripes. Requests consume from the vector; a background worker writes vectors
  to a persister and folds them into the scalar. Around it stand a store of VSAs by key
  (internal/ratelimiter/core/store.go), the worker (core/worker.go), counters and telemetry
  (core/metrics.go, telemetry/churn), an HTTP server (api/server.go), persistence adapters
  (persistence), and the command that puts them together (cmd/ratelimiter-api). The plugin plugin/tfd
  splits operations into a Scalar lane, which accumulates, compresses and flushes deltas, and a Vector
  lane, which keeps order per key; cmd/tfd-proxy and cmd/tfd-sim run it over log files
  (internal/sinks). tools/http-loadgen sends requests to the server.

  The server calls the store and the VSA for each request and records telemetry; the worker scans
  the store, calls the persister and commits; the command starts and stops both. The pipeline routes
  classified envelopes to the two lanes, and the proxy and the simulator feed it and write what comes
  out to their logs.

  \<^bold>\<open>Integers and failure.\<close> Go's \<open>int\<close> and \<open>int64\<close> are 64-bit words read with \<open>sint\<close>, \<open>uint64\<close> the
  same words read with \<open>unat\<close>; addition wraps as it does in Go. Floats that the program computes are
  rationals rounded to the nearest double. A panic is \<open>None\<close>, and so is a loop that does not end.
  Strings are lists of bytes. Time, random numbers, goroutine identity and the clients of external
  systems are parameters.

  \<^bold>\<open>Theories.\<close>

  \<^item> \<open>Prelude\<close>: words, Go's division, shifts and time subtraction, association lists for maps, the
    FNV hash and decimal formatting. \<open>GoFmt\<close>: rounding to doubles and the verbs of \<open>fmt\<close>. \<open>HTTP\<close>:
    requests, query parsing, responses. \<open>JSON\<close> and \<open>JSON_Text\<close>: the scanner of encoding/json byte by
    byte, printing, decoding into structs, and the quoting of strings with UTF-8.
  \<^item> \<open>VSA\<close>: the state and every operation of vsa.go, options included. \<open>VSA_Props\<close> has its invariant
    and one lemma per operation against an integer specification; \<open>VSA_Runs\<close> runs any sequence of
    calls (C1 to C7).
  \<^item> \<open>Goroutines\<close>: goroutines that interleave the atomic operations of their calls on a shared object
    with a mutex, and the contract \<open>locked_object\<close> under which calls happen at one instant.
    \<open>VSA_Threads\<close> gives the calls of vsa.go as such operations and shows the contract;
    \<open>Thread_Props\<close> has what follows for any interleaving, and the races with a commit (C8 to C10).
  \<^item> \<open>Limiter\<close>: the contract \<open>limiter\<close> of a counter with a budget, the compare-and-swap limiter of
    benchmarks/atomic_limiter.go, and that both implement the contract (C11).
  \<^item> \<open>Store\<close>: core/store.go, with \<open>GetOrCreate\<close> cut at its atomic steps (C12).
  \<^item> \<open>Telemetry\<close>: core/metrics.go, the mock persister of core/persistence.go and the recording side of
    telemetry/churn. \<open>Reports\<close>: the final report. \<open>Exporter\<close>: the export loop, its rolling window and
    both renderers; \<open>Exporter_Screen\<close> reads the output as a terminal does, and \<open>Exporter_Props\<close> has
    the window (C38).
  \<^item> \<open>Worker\<close>: the commit cycle, final flush, eviction cycle and the loops of core/worker.go for any
    persister. \<open>Worker_Props\<close> has the lemmas of one cycle and \<open>Worker_Runs\<close> those of runs, under the
    contract \<open>ledger_persister\<close> (C13 to C19).
  \<^item> \<open>Server\<close>: both handlers of api/server.go and traces of requests and cycles (C20, C23, C24).
  \<^item> \<open>Ratelimiter_Main\<close>, \<open>Main_Props\<close>: the command, from its flags to its exit, as a step relation on
    a process in which requests, cycles, signal, final flush, report and shutdown interleave (C21).
    \<open>Worker_Races\<close>: requests between the two halves of a commit cycle (C22).
  \<^item> \<open>TFD_Types\<close>, \<open>TFD_Table\<close>, \<open>TFD_Service\<close>, \<open>TFD_Compress\<close>, \<open>TFD_Pipeline\<close>: classification, the
    open-addressed accumulator, the sharded accumulator and its service, the compressor, the Vector
    lane, the pipeline and reconstruction (C25 to C29). The contracts are \<open>net_accumulator\<close>, which a
    shard and the sharded accumulator satisfy, and \<open>sbatch_transformer\<close>, which the compressor does.
  \<^item> \<open>TFD_Proxy\<close>, \<open>TFD_Proxy_Props\<close>: the proxy with its handlers and its exit (C30, C31).
  \<^item> \<open>Sinks\<close>, \<open>Sink_Props\<close>: the two log files over a disk whose writes may fail, with the contract
    \<open>line_codec\<close> of a line format (C32 to C34).
  \<^item> \<open>TFD_Sim\<close>, \<open>TFD_Sim_Props\<close>: the simulator with its metrics (C39).
  \<^item> \<open>Persistence\<close>: the shim, the Redis and Postgres adapters and the factory, with the contract
    \<open>redis_client\<close> (C36). \<open>Clients\<close>, \<open>Client_Props\<close>: contexts, the Kafka adapter and the text of its
    messages, the logging clients, and Redis with a clock (C35, C37).
  \<^item> \<open>Loadgen\<close>, \<open>Loadgen_Props\<close>: the load generator (C40).

  \<^bold>\<open>What is shown.\<close> The budget is conserved and never oversubscribed with the exact gate, and commits
  do not change availability, also when goroutines interleave their atomic operations in any way; the
  cached and the grouped gate do oversubscribe, with examples, and the fast path does when a commit
  falls between its two loads. The
  worker neither loses nor duplicates usage within its own runs, under any failures of the
  persister, and a graceful stop persists everything; an eviction that interleaves with a commit
  duplicates, requests during a commit cycle are accounted for except for net refunds, and a disarmed
  key may starve. The server answers as its budget says, on every branch,
  and the whole process accounts for every request it admitted, up to those it serves after its
  final flush. The Scalar lane conserves deltas under all interleavings of its service, its
  compressor is correct on both paths, and the pipeline, the proxy and the simulator agree with the
  ordered baseline, in memory and from their logs; a log read after a crash is a prefix of what was
  written. Redis batches are exactly-once under retries with stable identifiers within the time to
  live of the markers, which the shim does not provide; the Postgres adapter never changes a scalar;
  Kafka messages are read back as they were sent. The exporter publishes what its window holds.

  \<^bold>\<open>Bounds.\<close> Theorems about wrap-around assume that sums fit 64 bits and say so. No model uses fuel:
  loops are structural, have a measure, or are partial functions whose return is proved. The probe
  loop returns exactly when the table has a slot for the key (C26), and in the compressor always
  (C27), because its table has two slots per batch.

  \<^bold>\<open>Concurrency.\<close> The operations of a VSA are modelled one call at a time, and those that take its
  mutex, with the readers, also one atomic operation at a time. The two models agree without the fast
  path and the cached gate (C8), which justifies the first for the theories above; the answers of the
  lock-free readers are left open there. \<open>Update\<close>, which takes no lock, has no part in these runs, and
  a panic inside the mutex, which C5 excludes, is left holding it. Memory is sequentially consistent,
  as the atomic operations of Go are. Other interleavings that the code allows are modelled where they
  matter: creation of an entry by several goroutines (C12), the compare-and-swap loop, the two loops of
  the worker (C19), requests during a commit cycle (C22), the service goroutine with its clients (C25),
  senders that wait for a full buffer (\<open>TFD_Sim\<close>), and the requests, cycles and shutdown of the
  process (C21), where a request or a cycle is one step.

  \<^bold>\<open>Not modelled.\<close> The listeners and transports of net/http, the metrics endpoint of promhttp, the
  parsing of command lines by the flag package, and the production client of Redis, which are
  library code; the benchmark harness; two functions of the churn module that nothing calls
  (\<open>humanRate\<close>, \<open>sampleRate\<close>); and the padding and processor pinning of stripes, which have no effect
  on values. SQL and Lua are read by what their statements say, at the isolation of one transaction
  or script at a time.
\<close>

end
